(* ===== verification/Prelude.thy ===== *)
theory Prelude
  imports Main "HOL-Library.Word"
begin

text \<open>
  Shared vocabulary of the development: faults (a Rust panic, a process abort) as values,
  the machine integers the sources count with, and the part of Rust's ordered map
  (\<open>BTreeMap\<close>) the sources use, as strictly sorted association lists behind an
  interface.
\<close>

section \<open>Collections of rewrite rules\<close>

named_theorems run_simps \<open>evaluation of computations that may panic or abort\<close>
named_theorems key_map_simps \<open>lookup laws of ordered maps\<close>

section \<open>Faults\<close>

text \<open>
  A panic unwinds with a message; \<open>std::process::abort\<close> ends the process. Both are the
  left summand of a result, so that every such branch of the source is a branch here.
\<close>

datatype fault = Panic string | Abort

type_synonym 'a run = "fault + 'a"

definition run_bind :: "'a run \<Rightarrow> ('a \<Rightarrow> 'b run) \<Rightarrow> 'b run" where
  "run_bind r f = (case r of Inl e \<Rightarrow> Inl e | Inr x \<Rightarrow> f x)"

lemma run_bind_Inl [simp, run_simps]: "run_bind (Inl e) f = Inl e"
  by (simp add: run_bind_def)

lemma run_bind_Inr [simp, run_simps]: "run_bind (Inr x) f = f x"
  by (simp add: run_bind_def)

lemma run_bind_weak_cong: "r = r' \<Longrightarrow> run_bind r f = run_bind r' f"
  by simp

lemma run_bind_eq_Inr [run_simps]:
  "run_bind r f = Inr y \<longleftrightarrow> (\<exists>x. r = Inr x \<and> f x = Inr y)"
  by (cases r) auto

lemma run_bind_eq_Inl [run_simps]:
  "run_bind r f = Inl e \<longleftrightarrow> r = Inl e \<or> (\<exists>x. r = Inr x \<and> f x = Inl e)"
  by (cases r) auto

text \<open>A sequence of operations, collecting their results, up to the first fault.\<close>

fun run_ops :: "('s \<Rightarrow> 'o \<Rightarrow> ('x \<times> 's) run) \<Rightarrow> 's \<Rightarrow> 'o list \<Rightarrow> ('x list \<times> 's) run" where
  "run_ops step s [] = Inr ([], s)"
| "run_ops step s (p # ps) =
     run_bind (step s p)
       (\<lambda>(x, s'). run_bind (run_ops step s' ps) (\<lambda>(xs, s''). Inr (x # xs, s'')))"

lemma run_ops_append:
  "run_ops step s (xs @ ys) =
     run_bind (run_ops step s xs)
       (\<lambda>(os, s'). run_bind (run_ops step s' ys) (\<lambda>(os', s''). Inr (os @ os', s'')))"
proof (induction xs arbitrary: s)
  case Nil
  then show ?case by (cases "run_ops step s ys") auto
next
  case (Cons x xs)
  show ?case
  proof (cases "step s x")
    case (Inr r)
    then obtain a s1 where r: "step s x = Inr (a, s1)" by (cases r) auto
    show ?thesis
    proof (cases "run_ops step s1 xs")
      case (Inr r')
      then obtain b s2 where r': "run_ops step s1 xs = Inr (b, s2)" by (cases r') auto
      then show ?thesis using Cons [of s1] r by (cases "run_ops step s2 ys") auto
    qed (use Cons [of s1] r in simp)
  qed simp
qed

lemma run_ops_length: "run_ops step s xs = Inr (os, s') \<Longrightarrow> length os = length xs"
  by (induction xs arbitrary: s os) (auto simp: run_bind_eq_Inr)

lemma run_ops_snoc:
  "run_ops step s (xs @ [x]) = Inr (os, s') \<longleftrightarrow>
     (\<exists>os1 s1 o1. run_ops step s xs = Inr (os1, s1) \<and> step s1 x = Inr (o1, s') \<and> os = os1 @ [o1])"
  by (auto simp: run_ops_append run_bind_eq_Inr)

section \<open>Machine integers\<close>

type_synonym u64 = "64 word"

text \<open>\<open>u64::checked_add\<close> and \<open>u64::saturating_add\<close>.\<close>

definition checked_add_u64 :: "u64 \<Rightarrow> u64 \<Rightarrow> u64 option" where
  "checked_add_u64 a b = (if unat a + unat b < 2 ^ 64 then Some (a + b) else None)"

definition saturating_add_u64 :: "u64 \<Rightarrow> u64 \<Rightarrow> u64" where
  "saturating_add_u64 a b = (if unat a + unat b < 2 ^ 64 then a + b else - 1)"

lemma unat_max_u64: "unat (- 1 :: u64) = 2 ^ 64 - 1"
  by (simp add: unsigned_minus_1_eq_mask mask_eq_exp_minus_1)

lemma unat_u64_less: "unat (a :: u64) < 2 ^ 64"
  using unsigned_less [of a] by simp

lemma unat_add_u64:
  "unat a + unat b < 2 ^ 64 \<Longrightarrow> unat (a + b :: u64) = unat a + unat b"
  by (simp add: unat_word_ariths)

lemma checked_add_u64_Some:
  "checked_add_u64 a b = Some c \<longleftrightarrow> unat a + unat b < 2 ^ 64 \<and> c = a + b"
  by (auto simp: checked_add_u64_def)

lemma checked_succ_u64_unat: "checked_add_u64 a 1 = Some b \<Longrightarrow> unat b = Suc (unat a)"
  by (auto simp: checked_add_u64_Some unat_add_u64)

lemma checked_succ_u64_less: "checked_add_u64 a 1 = Some b \<Longrightarrow> a < b"
  by (drule checked_succ_u64_unat) (simp add: word_less_nat_alt)

lemma checked_succ_u64_None: "checked_add_u64 a 1 = None \<longleftrightarrow> a = - 1"
proof
  assume "checked_add_u64 a 1 = None"
  then have "unat a = 2 ^ 64 - 1"
    using unat_u64_less [of a] by (simp add: checked_add_u64_def split: if_splits)
  then show "a = - 1"
    by (simp add: word_unat_eq_iff unat_max_u64)
qed (simp add: checked_add_u64_def unat_max_u64)

lemma saturating_add_u64_unat:
  "unat (saturating_add_u64 a b) = min (unat a + unat b) (2 ^ 64 - 1)"
  using unat_u64_less [of a] unat_u64_less [of b]
  by (auto simp: saturating_add_u64_def unat_add_u64 unat_max_u64 min_def)

lemma saturating_add_u64_ge: "a \<le> saturating_add_u64 a b"
  using unat_u64_less [of a] by (simp add: word_le_nat_alt saturating_add_u64_unat)

section \<open>Partial maps over lists\<close>

lemma map_filter_append [simp]:
  "List.map_filter f (xs @ ys) = List.map_filter f xs @ List.map_filter f ys"
  by (simp add: List.map_filter_def)

lemma map_filter_cong: "(\<And>x. x \<in> set xs \<Longrightarrow> f x = g x) \<Longrightarrow> List.map_filter f xs = List.map_filter g xs"
  by (induction xs) (auto simp: map_filter_simps split: option.splits)

lemma map_filter_dropWhile_None:
  "List.map_filter f (dropWhile (\<lambda>x. f x = None) xs) = List.map_filter f xs"
  by (induction xs) (auto simp: map_filter_simps)

lemma map_filter_filter_Some:
  "List.map_filter f (filter (\<lambda>x. f x \<noteq> None) xs) = List.map_filter f xs"
  by (induction xs) (auto simp: map_filter_simps)

lemma map_filter_length_filter: "length (List.map_filter f xs) = length (filter (\<lambda>x. f x \<noteq> None) xs)"
  by (simp add: List.map_filter_def)

lemma filter_map_filter:
  "(\<And>x y. x \<in> set xs \<Longrightarrow> f x = Some y \<Longrightarrow> P y = Q x) \<Longrightarrow>
   filter P (List.map_filter f xs) = List.map_filter f (filter Q xs)"
  by (induction xs) (auto simp: map_filter_simps split: option.splits)

lemma set_map_filter: "set (List.map_filter f xs) = {y. \<exists>x \<in> set xs. f x = Some y}"
  by (induction xs) (auto simp: map_filter_simps split: option.splits)

section \<open>Ordered maps\<close>

text \<open>
  \<open>BTreeMap<K, V>\<close> iterates in ascending key order and supports range queries. It is
  modelled by the list of its entries in that order.
\<close>

type_synonym ('k, 'v) btree = "('k \<times> 'v) list"

definition bt_wf :: "('k::linorder, 'v) btree \<Rightarrow> bool" where
  "bt_wf m \<longleftrightarrow> sorted_wrt (<) (map fst m)"

definition bt_keys :: "('k, 'v) btree \<Rightarrow> 'k list" where
  "bt_keys m = map fst m"

definition bt_values :: "('k, 'v) btree \<Rightarrow> 'v list" where
  "bt_values m = map snd m"

definition bt_get :: "('k, 'v) btree \<Rightarrow> 'k \<Rightarrow> 'v option" where
  "bt_get m k = map_of m k"

fun bt_insert :: "'k::linorder \<Rightarrow> 'v \<Rightarrow> ('k, 'v) btree \<Rightarrow> ('k, 'v) btree" where
  "bt_insert k v [] = [(k, v)]"
| "bt_insert k v ((k', v') # m) =
     (if k < k' then (k, v) # (k', v') # m
      else if k = k' then (k, v) # m
      else (k', v') # bt_insert k v m)"

definition bt_remove :: "'k \<Rightarrow> ('k, 'v) btree \<Rightarrow> ('k, 'v) btree" where
  "bt_remove k m = filter (\<lambda>e. fst e \<noteq> k) m"

text \<open>Mutation through \<open>get_mut\<close>: the entry is rewritten in place when it exists.\<close>

definition bt_modify :: "'k \<Rightarrow> ('v \<Rightarrow> 'v) \<Rightarrow> ('k, 'v) btree \<Rightarrow> ('k, 'v) btree" where
  "bt_modify k f m = map (\<lambda>e. if fst e = k then (k, f (snd e)) else e) m"

text \<open>\<open>range((Excluded(k), Unbounded)).next()\<close>, \<open>range(..k).next_back()\<close> and \<open>keys().next_back()\<close>.\<close>

definition bt_first_after :: "('k::linorder, 'v) btree \<Rightarrow> 'k \<Rightarrow> 'k option" where
  "bt_first_after m k = (case filter (\<lambda>k'. k < k') (bt_keys m) of [] \<Rightarrow> None | k' # _ \<Rightarrow> Some k')"

definition bt_last_before :: "('k::linorder, 'v) btree \<Rightarrow> 'k \<Rightarrow> 'k option" where
  "bt_last_before m k =
     (case rev (filter (\<lambda>k'. k' < k) (bt_keys m)) of [] \<Rightarrow> None | k' # _ \<Rightarrow> Some k')"

definition bt_last :: "('k, 'v) btree \<Rightarrow> 'k option" where
  "bt_last m = (case rev (bt_keys m) of [] \<Rightarrow> None | k # _ \<Rightarrow> Some k)"

text \<open>\<open>pop_first\<close>.\<close>

definition bt_pop_first :: "('k, 'v) btree \<Rightarrow> (('k \<times> 'v) \<times> ('k, 'v) btree) option" where
  "bt_pop_first m = (case m of [] \<Rightarrow> None | e # m' \<Rightarrow> Some (e, m'))"

lemma bt_wf_Nil [simp]: "bt_wf []"
  by (simp add: bt_wf_def)

lemma bt_wf_Cons: "bt_wf ((k, v) # m) \<longleftrightarrow> (\<forall>k' \<in> fst ` set m. k < k') \<and> bt_wf m"
  by (auto simp: bt_wf_def)

lemma bt_wf_distinct: "bt_wf m \<Longrightarrow> distinct (map fst m)"
  unfolding bt_wf_def using strict_sorted_iff by blast

lemma bt_get_Nil [simp, key_map_simps]: "bt_get [] k = None"
  by (simp add: bt_get_def)

lemma bt_keys_Nil [simp, key_map_simps]: "bt_keys [] = []"
  by (simp add: bt_keys_def)

lemma bt_get_None_iff: "bt_get m k = None \<longleftrightarrow> k \<notin> set (bt_keys m)"
  by (simp add: bt_get_def bt_keys_def map_of_eq_None_iff)

lemma bt_get_SomeD: "bt_get m k = Some v \<Longrightarrow> k \<in> set (bt_keys m)"
  using bt_get_None_iff [of m k] by auto

lemma bt_get_Some_iff: "bt_wf m \<Longrightarrow> bt_get m k = Some v \<longleftrightarrow> (k, v) \<in> set m"
  by (simp add: bt_get_def bt_wf_distinct)

lemma bt_get_insert [simp, key_map_simps]:
  "bt_get (bt_insert k v m) k' = (if k' = k then Some v else bt_get m k')"
  by (induction k v m rule: bt_insert.induct) (auto simp: bt_get_def)

lemma set_keys_insert [simp]: "set (bt_keys (bt_insert k v m)) = insert k (set (bt_keys m))"
  by (induction k v m rule: bt_insert.induct) (auto simp: bt_keys_def)

lemma bt_wf_insert [simp, intro]: "bt_wf m \<Longrightarrow> bt_wf (bt_insert k v m)"
proof (induction k v m rule: bt_insert.induct)
  case (2 k v k' v' m)
  then show ?case
    using set_keys_insert [of k v m] by (auto simp: bt_wf_Cons bt_keys_def)
qed (simp add: bt_wf_Cons)

lemma bt_get_remove [simp, key_map_simps]:
  "bt_get (bt_remove k m) k' = (if k' = k then None else bt_get m k')"
  unfolding bt_remove_def bt_get_def by (induction m) auto

lemma set_keys_remove [simp]: "set (bt_keys (bt_remove k m)) = set (bt_keys m) - {k}"
  by (auto simp: bt_keys_def bt_remove_def)

lemma bt_wf_filter: "bt_wf m \<Longrightarrow> bt_wf (filter P m)"
  by (induction m) (auto simp: bt_wf_def)

lemma bt_wf_remove [simp, intro]: "bt_wf m \<Longrightarrow> bt_wf (bt_remove k m)"
  by (simp add: bt_remove_def bt_wf_filter)

lemma bt_keys_modify [simp, key_map_simps]: "bt_keys (bt_modify k f m) = bt_keys m"
  by (simp add: bt_keys_def bt_modify_def)

lemma bt_wf_modify [simp, intro]: "bt_wf m \<Longrightarrow> bt_wf (bt_modify k f m)"
  using bt_keys_modify [of k f m] by (simp add: bt_wf_def bt_keys_def)

lemma bt_get_modify [simp, key_map_simps]:
  "bt_get (bt_modify k f m) k' = (if k' = k then map_option f (bt_get m k) else bt_get m k')"
  unfolding bt_modify_def bt_get_def by (induction m) auto

lemma set_bt_values: "bt_wf m \<Longrightarrow> v \<in> set (bt_values m) \<longleftrightarrow> (\<exists>k. bt_get m k = Some v)"
  by (force simp: bt_values_def bt_get_Some_iff)

lemma sorted_bt_keys: "bt_wf m \<Longrightarrow> sorted_wrt (<) (bt_keys m)"
  by (simp add: bt_wf_def bt_keys_def)

lemma bt_first_after_Some:
  assumes "bt_wf m"
  shows "bt_first_after m k = Some k' \<longleftrightarrow>
    k' \<in> set (bt_keys m) \<and> k < k' \<and> (\<forall>j \<in> set (bt_keys m). k < j \<longrightarrow> k' \<le> j)"
    (is "?L \<longleftrightarrow> ?R")
proof -
  let ?f = "filter (\<lambda>k'. k < k') (bt_keys m)"
  have srt: "sorted_wrt (<) ?f"
    using sorted_bt_keys [OF assms] by (rule sorted_wrt_filter)
  have set_f: "set ?f = {j \<in> set (bt_keys m). k < j}"
    by auto
  show ?thesis
  proof (cases ?f)
    case Nil
    then show ?thesis
      using set_f by (auto simp: bt_first_after_def)
  next
    case (Cons x xs)
    have le: "\<forall>j \<in> set ?f. x \<le> j"
      using srt by (auto simp: Cons)
    have mem: "x \<in> set (bt_keys m)" "k < x"
      using set_f by (auto simp: Cons)
    have "?L \<longleftrightarrow> k' = x"
      by (auto simp: bt_first_after_def Cons)
    moreover have "?R \<longleftrightarrow> k' = x"
      using le mem by (force simp: set_f)
    ultimately show ?thesis
      by simp
  qed
qed

lemma bt_first_after_None:
  "bt_first_after m k = None \<longleftrightarrow> (\<forall>j \<in> set (bt_keys m). j \<le> k)"
proof -
  have "bt_first_after m k = None \<longleftrightarrow> filter (\<lambda>k'. k < k') (bt_keys m) = []"
    by (simp add: bt_first_after_def split: list.splits)
  then show ?thesis
    by (auto simp: filter_empty_conv not_less)
qed

lemma bt_last_before_Some:
  assumes "bt_wf m"
  shows "bt_last_before m k = Some k' \<longleftrightarrow>
    k' \<in> set (bt_keys m) \<and> k' < k \<and> (\<forall>j \<in> set (bt_keys m). j < k \<longrightarrow> j \<le> k')"
    (is "?L \<longleftrightarrow> ?R")
proof -
  let ?f = "filter (\<lambda>k'. k' < k) (bt_keys m)"
  have srt: "sorted_wrt (<) ?f"
    using sorted_bt_keys [OF assms] by (rule sorted_wrt_filter)
  have set_f: "set ?f = {j \<in> set (bt_keys m). j < k}"
    by auto
  show ?thesis
  proof (cases ?f rule: rev_cases)
    case Nil
    then show ?thesis
      using set_f by (auto simp: bt_last_before_def)
  next
    case (snoc xs x)
    have le: "\<forall>j \<in> set ?f. j \<le> x"
      using srt by (auto simp: snoc sorted_wrt_append)
    have mem: "x \<in> set (bt_keys m)" "x < k"
      using set_f by (auto simp: snoc)
    have "?L \<longleftrightarrow> k' = x"
      by (auto simp: bt_last_before_def snoc)
    moreover have "?R \<longleftrightarrow> k' = x"
      using le mem by (force simp: set_f)
    ultimately show ?thesis
      by simp
  qed
qed

lemma bt_last_before_None:
  "bt_last_before m k = None \<longleftrightarrow> (\<forall>j \<in> set (bt_keys m). k \<le> j)"
proof -
  have "bt_last_before m k = None \<longleftrightarrow> filter (\<lambda>k'. k' < k) (bt_keys m) = []"
    by (simp add: bt_last_before_def split: list.splits)
  then show ?thesis
    by (auto simp: filter_empty_conv not_less)
qed

lemma bt_last_Some:
  assumes "bt_wf m"
  shows "bt_last m = Some k \<longleftrightarrow> k \<in> set (bt_keys m) \<and> (\<forall>j \<in> set (bt_keys m). j \<le> k)"
proof (cases "bt_keys m" rule: rev_cases)
  case Nil
  then show ?thesis
    by (simp add: bt_last_def)
next
  case (snoc xs x)
  have "\<forall>j \<in> set (bt_keys m). j \<le> x"
    using sorted_bt_keys [OF assms] by (auto simp: snoc sorted_wrt_append)
  then show ?thesis
    by (force simp: bt_last_def snoc)
qed

lemma bt_last_None: "bt_last m = None \<longleftrightarrow> m = []"
  by (cases m rule: rev_cases) (auto simp: bt_last_def bt_keys_def)

subsection \<open>The interface the components use\<close>

text \<open>
  What the supervisor's registry, the deadline queue and the mailbox's waiter queue rely
  on: lookup after insertion and removal, and keys listed once each in ascending order.
\<close>

locale ordered_map =
  fixes empty :: 'm
    and get :: "'m \<Rightarrow> 'k::linorder \<Rightarrow> 'v option"
    and insert :: "'k \<Rightarrow> 'v \<Rightarrow> 'm \<Rightarrow> 'm"
    and remove :: "'k \<Rightarrow> 'm \<Rightarrow> 'm"
    and keys :: "'m \<Rightarrow> 'k list"
    and invar :: "'m \<Rightarrow> bool"
  assumes get_empty: "get empty = Map.empty"
    and get_insert: "invar m \<Longrightarrow> get (insert k v m) = (get m)(k \<mapsto> v)"
    and get_remove: "invar m \<Longrightarrow> get (remove k m) = (get m)(k := None)"
    and keys_sorted: "invar m \<Longrightarrow> sorted_wrt (<) (keys m)"
    and keys_dom: "invar m \<Longrightarrow> set (keys m) = dom (get m)"
    and invar_empty: "invar empty"
    and invar_insert: "invar m \<Longrightarrow> invar (insert k v m)"
    and invar_remove: "invar m \<Longrightarrow> invar (remove k m)"
begin

lemma keys_distinct: "invar m \<Longrightarrow> distinct (keys m)"
  using keys_sorted strict_sorted_iff by blast

lemma finite_dom: "invar m \<Longrightarrow> finite (dom (get m))"
  using keys_dom finite_set by metis

lemma length_keys: "invar m \<Longrightarrow> length (keys m) = card (dom (get m))"
  using keys_distinct keys_dom distinct_card by metis

lemma length_keys_insert:
  "invar m \<Longrightarrow> length (keys (insert k v m)) =
     (if get m k = None then Suc (length (keys m)) else length (keys m))"
  by (auto simp: length_keys invar_insert get_insert finite_dom card_insert_if domIff insert_absorb)

lemma length_keys_remove:
  "invar m \<Longrightarrow> length (keys (remove k m)) =
     (if get m k = None then length (keys m) else length (keys m) - 1)"
  by (auto simp: length_keys invar_remove get_remove finite_dom domIff)

lemma keys_insert_greatest:
  assumes "invar m" and "\<forall>j \<in> set (keys m). j < k"
  shows "keys (insert k v m) = keys m @ [k]"
proof (rule strict_sorted_equal)
  show "sorted_wrt (<) (keys (insert k v m))"
    using assms by (simp add: keys_sorted invar_insert)
  show "sorted_wrt (<) (keys m @ [k])"
    using assms by (simp add: sorted_wrt_append keys_sorted)
  show "set (keys (insert k v m)) = set (keys m @ [k])"
    using assms by (simp add: keys_dom invar_insert get_insert)
qed

end

interpretation btm: ordered_map "[] :: ('k::linorder, 'v) btree" bt_get bt_insert bt_remove bt_keys bt_wf
proof unfold_locales
  fix m :: "('k, 'v) btree" and k :: 'k and v :: 'v
  show "bt_get ([] :: ('k, 'v) btree) = Map.empty"
    by (simp add: fun_eq_iff)
  show "bt_get (bt_insert k v m) = (bt_get m)(k \<mapsto> v)"
    by (simp add: fun_eq_iff)
  show "bt_get (bt_remove k m) = (bt_get m)(k := None)"
    by (simp add: fun_eq_iff)
  show "set (bt_keys m) = dom (bt_get m)"
    by (auto dest: bt_get_SomeD simp: bt_get_None_iff simp flip: not_None_eq)
qed (simp_all add: sorted_bt_keys bt_wf_insert bt_wf_remove)

end
