(* ===== verification/Identity.thy ===== *)
theory Identity
  imports Prelude
begin

text \<open>
  Child, membership and incarnation identity: \<open>crates/shelterwood-core/src/identity.rs\<close>.
  Counters abort the process instead of wrapping; the process-wide lineage counter is an
  explicit argument. The last sections follow every membership minted by any number of
  builders and scopes, with the reservation of ids and the adoption of memberships of
  \<open>crates/shelterwood/src/plan.rs\<close>, and show that a token is never issued twice.
\<close>

section \<open>Counters\<close>

record monotonic_counter =
  counter_current :: u64

definition counter_new :: monotonic_counter where
  "counter_new = \<lparr>counter_current = 0\<rparr>"

definition counter_from_current :: "u64 \<Rightarrow> monotonic_counter" where
  "counter_from_current c = \<lparr>counter_current = c\<rparr>"

definition counter_successor :: "u64 \<Rightarrow> u64 run" where
  "counter_successor c = (case checked_add_u64 c 1 of None \<Rightarrow> Inl Abort | Some n \<Rightarrow> Inr n)"

definition counter_mint :: "monotonic_counter \<Rightarrow> (u64 \<times> monotonic_counter) run" where
  "counter_mint c =
     run_bind (counter_successor (counter_current c))
       (\<lambda>n. Inr (n, c\<lparr>counter_current := n\<rparr>))"

text \<open>
  \<open>AtomicMonotonicCounter::mint\<close>: one atomic update that stores nothing on overflow and
  returns the previous value plus one.
\<close>

definition atomic_counter_mint :: "u64 \<Rightarrow> (u64 \<times> u64) run" where
  "atomic_counter_mint c =
     (case checked_add_u64 c 1 of None \<Rightarrow> Inl Abort | Some n \<Rightarrow> Inr (c + 1, n))"

lemma counter_successor_Inr:
  "counter_successor c = Inr n \<longleftrightarrow> checked_add_u64 c 1 = Some n"
  by (simp add: counter_successor_def split: option.splits)

lemma counter_successor_unat: "counter_successor c = Inr n \<Longrightarrow> unat n = Suc (unat c)"
  by (simp add: counter_successor_Inr checked_succ_u64_unat)

lemma counter_successor_less: "counter_successor c = Inr n \<Longrightarrow> c < n"
  by (simp add: counter_successor_Inr checked_succ_u64_less)

lemma counter_successor_total: "c \<noteq> - 1 \<Longrightarrow> \<exists>n. counter_successor c = Inr n"
  using checked_succ_u64_None [of c] by (auto simp: counter_successor_Inr)

lemma counter_mint_Inr:
  "counter_mint c = Inr (n, c') \<longleftrightarrow>
     counter_successor (counter_current c) = Inr n \<and> c' = \<lparr>counter_current = n\<rparr>"
  by (auto simp: counter_mint_def run_bind_eq_Inr)

lemma counter_mint_current: "counter_mint c = Inr (n, c') \<Longrightarrow> counter_current c' = n"
  by (simp add: counter_mint_Inr)

lemma counter_mint_less: "counter_mint c = Inr (n, c') \<Longrightarrow> counter_current c < n"
  by (simp add: counter_mint_Inr counter_successor_less)

lemma atomic_counter_mint_Inr:
  "atomic_counter_mint c = Inr (n, c') \<longleftrightarrow> counter_successor c = Inr n \<and> c' = n"
  by (auto simp: atomic_counter_mint_def counter_successor_Inr checked_add_u64_def)

lemma atomic_counter_mint_less: "atomic_counter_mint c = Inr (n, c') \<Longrightarrow> c < n \<and> c' = n"
  by (simp add: atomic_counter_mint_Inr counter_successor_less)

lemmas mint_facts = counter_mint_current counter_mint_less atomic_counter_mint_less

section \<open>Fences, memberships and incarnations\<close>

type_synonym child_id = string

datatype generation = Generation (generation_get: u64)
datatype lineage = Lineage u64

definition generation_supersedes :: "generation \<Rightarrow> generation \<Rightarrow> bool" where
  "generation_supersedes a b \<longleftrightarrow> generation_get a > generation_get b"

record fence =
  fence_lineage :: lineage
  fence_generation :: generation

definition fence_supersedes :: "fence \<Rightarrow> fence \<Rightarrow> bool" where
  "fence_supersedes a b \<longleftrightarrow>
     fence_lineage a = fence_lineage b \<and>
     generation_supersedes (fence_generation a) (fence_generation b)"

datatype membership = Membership (membership_fence: fence)

definition membership_supersedes :: "membership \<Rightarrow> membership \<Rightarrow> bool" where
  "membership_supersedes a b = fence_supersedes (membership_fence a) (membership_fence b)"

record incarnation =
  incarnation_membership :: membership
  incarnation_generation :: generation

definition incarnation_supersedes :: "incarnation \<Rightarrow> incarnation \<Rightarrow> bool" where
  "incarnation_supersedes a b \<longleftrightarrow>
     incarnation_membership a = incarnation_membership b \<and>
     generation_supersedes (incarnation_generation a) (incarnation_generation b)"

record fence_counter =
  fc_lineage :: lineage
  fc_generations :: monotonic_counter

definition fence_counter_new :: "lineage \<Rightarrow> fence_counter" where
  "fence_counter_new l = \<lparr>fc_lineage = l, fc_generations = counter_new\<rparr>"

definition fence_counter_from_fence :: "fence \<Rightarrow> fence_counter" where
  "fence_counter_from_fence f =
     \<lparr>fc_lineage = fence_lineage f,
      fc_generations = counter_from_current (generation_get (fence_generation f))\<rparr>"

definition fence_counter_mint :: "fence_counter \<Rightarrow> (fence \<times> fence_counter) run" where
  "fence_counter_mint c =
     run_bind (counter_mint (fc_generations c))
       (\<lambda>(n, g). Inr (\<lparr>fence_lineage = fc_lineage c, fence_generation = Generation n\<rparr>,
                      c\<lparr>fc_generations := g\<rparr>))"

definition fence_counter_issued :: "fence_counter \<Rightarrow> fence" where
  "fence_counter_issued c =
     \<lparr>fence_lineage = fc_lineage c,
      fence_generation = Generation (counter_current (fc_generations c))\<rparr>"

record incarnation_counter =
  ic_membership :: membership
  ic_generations :: monotonic_counter

definition incarnation_counter_mint ::
  "incarnation_counter \<Rightarrow> (incarnation \<times> incarnation_counter) run" where
  "incarnation_counter_mint c =
     run_bind (counter_mint (ic_generations c))
       (\<lambda>(n, g). Inr (\<lparr>incarnation_membership = ic_membership c,
                       incarnation_generation = Generation n\<rparr>,
                      c\<lparr>ic_generations := g\<rparr>))"

section \<open>Minting for a scope\<close>

record provisional_membership =
  pm_id :: child_id
  pm_membership :: membership

record minted_membership =
  mm_provisional :: provisional_membership
  mm_incarnation_counter :: incarnation_counter

definition minted_membership_new :: "child_id \<Rightarrow> membership \<Rightarrow> minted_membership" where
  "minted_membership_new i m =
     \<lparr>mm_provisional = \<lparr>pm_id = i, pm_membership = m\<rparr>,
      mm_incarnation_counter = \<lparr>ic_membership = m, ic_generations = counter_new\<rparr>\<rparr>"

definition minted_membership_get :: "minted_membership \<Rightarrow> membership" where
  "minted_membership_get g = pm_membership (mm_provisional g)"

datatype membership_reconciliation = Adopted | Minted minted_membership

type_synonym scope_identity = "child_id \<rightharpoonup> fence_counter"

definition scope_identity_new :: scope_identity where
  "scope_identity_new = Map.empty"

text \<open>\<open>NEXT_LINEAGE.mint\<close> on the process-wide counter, wrapped in a new fence counter.\<close>

definition fresh_counter :: "u64 \<Rightarrow> (fence_counter \<times> u64) run" where
  "fresh_counter lineages =
     run_bind (atomic_counter_mint lineages)
       (\<lambda>(n, lineages'). Inr (fence_counter_new (Lineage n), lineages'))"

definition mint_membership ::
  "u64 \<Rightarrow> scope_identity \<Rightarrow> child_id \<Rightarrow> (minted_membership \<times> scope_identity \<times> u64) run" where
  "mint_membership lineages s i =
     run_bind
       (case s i of
          Some c \<Rightarrow> Inr (c, lineages)
        | None \<Rightarrow> fresh_counter lineages)
       (\<lambda>(c, lineages').
          run_bind (fence_counter_mint c)
            (\<lambda>(f, c'). Inr (minted_membership_new i (Membership f), s(i \<mapsto> c'), lineages')))"

definition adopt_or_mint_membership ::
  "scope_identity \<Rightarrow> provisional_membership \<Rightarrow> (membership_reconciliation \<times> scope_identity) run" where
  "adopt_or_mint_membership s p =
     (case s (pm_id p) of
        Some c \<Rightarrow>
          run_bind (fence_counter_mint c)
            (\<lambda>(f, c'). Inr (Minted (minted_membership_new (pm_id p) (Membership f)),
                            s(pm_id p \<mapsto> c')))
      | None \<Rightarrow>
          Inr (Adopted,
               s(pm_id p \<mapsto> fence_counter_from_fence (membership_fence (pm_membership p)))))"

definition evict :: "scope_identity \<Rightarrow> child_id \<Rightarrow> membership \<Rightarrow> scope_identity" where
  "evict s i m =
     (case s i of
        None \<Rightarrow> s
      | Some c \<Rightarrow> if fence_counter_issued c = membership_fence m then s(i := None) else s)"

section \<open>Fencing order\<close>

text \<open>
  What a holder of a token relies on: a token never supersedes itself, and superseding is
  transitive. The asymmetry used by every stale-token check follows.
\<close>

locale fencing_order =
  fixes supersedes :: "'t \<Rightarrow> 't \<Rightarrow> bool"
  assumes irreflexive: "\<not> supersedes a a"
    and transitive: "supersedes a b \<Longrightarrow> supersedes b c \<Longrightarrow> supersedes a c"
begin

lemma asymmetric: "supersedes a b \<Longrightarrow> \<not> supersedes b a"
  using irreflexive transitive by blast

lemma newer_distinct: "sorted_wrt (\<lambda>a b. supersedes b a) ts \<Longrightarrow> distinct ts"
  by (induction ts) (auto simp: irreflexive)

end

lemma generation_supersedes_trans:
  "generation_supersedes a b \<Longrightarrow> generation_supersedes b c \<Longrightarrow> generation_supersedes a c"
  by (simp add: generation_supersedes_def)

interpretation membership_order: fencing_order membership_supersedes
  by unfold_locales
    (auto simp: membership_supersedes_def fence_supersedes_def generation_supersedes_def)

interpretation incarnation_order: fencing_order incarnation_supersedes
  by unfold_locales (auto simp: incarnation_supersedes_def generation_supersedes_def)

lemma fence_counter_mint_Inr:
  "fence_counter_mint c = Inr (f, c') \<longleftrightarrow>
     (\<exists>n. counter_successor (counter_current (fc_generations c)) = Inr n \<and>
          f = \<lparr>fence_lineage = fc_lineage c, fence_generation = Generation n\<rparr> \<and>
          c' = c\<lparr>fc_generations := \<lparr>counter_current = n\<rparr>\<rparr>)"
  by (auto simp: fence_counter_mint_def run_bind_eq_Inr counter_mint_Inr)

lemma mint_membership_Some:
  "s i = Some c \<Longrightarrow>
   mint_membership l s i = Inr (g, s', l') \<longleftrightarrow>
     (\<exists>n. counter_successor (counter_current (fc_generations c)) = Inr n \<and> l' = l \<and>
          g = minted_membership_new i
                (Membership \<lparr>fence_lineage = fc_lineage c, fence_generation = Generation n\<rparr>) \<and>
          s' = s(i \<mapsto> c\<lparr>fc_generations := \<lparr>counter_current = n\<rparr>\<rparr>))"
  by (auto simp: mint_membership_def run_bind_eq_Inr fence_counter_mint_Inr)

lemma successor_zero: "counter_successor 0 = Inr 1"
  by (simp add: counter_successor_def checked_add_u64_def)

lemma mint_membership_None:
  "s i = None \<Longrightarrow>
   mint_membership l s i = Inr (g, s', l') \<longleftrightarrow>
     counter_successor l = Inr l' \<and>
     g = minted_membership_new i
           (Membership \<lparr>fence_lineage = Lineage l', fence_generation = Generation 1\<rparr>) \<and>
     s' = s(i \<mapsto> \<lparr>fc_lineage = Lineage l', fc_generations = \<lparr>counter_current = 1\<rparr>\<rparr>)"
  by (auto simp: mint_membership_def fresh_counter_def run_bind_eq_Inr fence_counter_mint_Inr
      atomic_counter_mint_Inr fence_counter_new_def counter_new_def successor_zero)

lemma minted_membership_new [simp]: "minted_membership_get (minted_membership_new i m) = m"
  by (simp add: minted_membership_get_def minted_membership_new_def)

section \<open>Declaring children\<close>

text \<open>
  \<open>BuilderCore::reserve\<close> (\<open>plan.rs\<close>): a builder mints into the identity map of its own root scope, once per
  id. Its result is the error, or the minted membership with the new map, id set and lineage counter.
\<close>

datatype static_reserve_error = EmptyId | DuplicateId child_id

definition non_empty_id :: "child_id \<Rightarrow> child_id option" where
  "non_empty_id i = (if i = [] then None else Some i)"

definition builder_reserve ::
  "u64 \<Rightarrow> scope_identity \<Rightarrow> child_id set \<Rightarrow> child_id \<Rightarrow>
   (static_reserve_error + minted_membership \<times> scope_identity \<times> child_id set \<times> u64) run" where
  "builder_reserve lineages s ids i =
     (case non_empty_id i of
        None \<Rightarrow> Inr (Inl EmptyId)
      | Some i \<Rightarrow>
          if i \<in> ids then Inr (Inl (DuplicateId i))
          else run_bind (mint_membership lineages s i)
                 (\<lambda>(g, s', lineages'). Inr (Inr (g, s', insert i ids, lineages'))))"

section \<open>Every scope of one process\<close>

text \<open>
  One process holds many scope identities over one lineage counter; scopes are addressed by a number.
  A scope starts as the root of a builder. Lowering the builder either makes that root the running
  scope, or hands its declared memberships, one provisional token each, to the running scope that
  replaces it; the builder is consumed and mints no more. \<open>iw_issued\<close> is the history of minted
  memberships, newest first.
\<close>

datatype scope_phase =
    Building "child_id set"
  | Running
  | Lowering nat

record identity_world =
  iw_lineages :: u64
  iw_scopes :: "nat \<Rightarrow> scope_identity"
  iw_phase :: "nat \<Rightarrow> scope_phase"
  iw_tokens :: "nat \<Rightarrow> child_id \<rightharpoonup> membership"
  iw_issued :: "membership list"

definition identity_world_init :: identity_world where
  "identity_world_init =
     \<lparr>iw_lineages = 0, iw_scopes = (\<lambda>_. scope_identity_new), iw_phase = (\<lambda>_. Building {}),
      iw_tokens = (\<lambda>_. Map.empty), iw_issued = []\<rparr>"

definition reconciled_memberships :: "membership_reconciliation \<Rightarrow> membership list" where
  "reconciled_memberships r = (case r of Adopted \<Rightarrow> [] | Minted g \<Rightarrow> [minted_membership_get g])"

inductive identity_step :: "identity_world \<Rightarrow> identity_world \<Rightarrow> bool" where
  reserve: "iw_phase w k = Building ids \<Longrightarrow>
    builder_reserve (iw_lineages w) (iw_scopes w k) ids i = Inr (Inr (g, s, ids', l)) \<Longrightarrow>
    identity_step w (w\<lparr>iw_lineages := l, iw_scopes := (iw_scopes w)(k := s),
      iw_phase := (iw_phase w)(k := Building ids'),
      iw_tokens := (iw_tokens w)(k := (iw_tokens w k)(i \<mapsto> minted_membership_get g)),
      iw_issued := minted_membership_get g # iw_issued w\<rparr>)"
| start: "iw_phase w k = Building ids \<Longrightarrow> identity_step w (w\<lparr>iw_phase := (iw_phase w)(k := Running)\<rparr>)"
| lower: "iw_phase w k = Building ids \<Longrightarrow> iw_phase w k' = Running \<Longrightarrow>
    identity_step w (w\<lparr>iw_phase := (iw_phase w)(k := Lowering k')\<rparr>)"
| adopt: "iw_phase w k = Lowering k' \<Longrightarrow> iw_tokens w k i = Some m \<Longrightarrow>
    adopt_or_mint_membership (iw_scopes w k') \<lparr>pm_id = i, pm_membership = m\<rparr> = Inr (r, s) \<Longrightarrow>
    identity_step w (w\<lparr>iw_scopes := (iw_scopes w)(k' := s), iw_tokens := (iw_tokens w)(k := (iw_tokens w k)(i := None)),
      iw_issued := reconciled_memberships r @ iw_issued w\<rparr>)"
| mint: "iw_phase w k = Running \<Longrightarrow> mint_membership (iw_lineages w) (iw_scopes w k) i = Inr (g, s, l) \<Longrightarrow>
    identity_step w (w\<lparr>iw_lineages := l, iw_scopes := (iw_scopes w)(k := s),
      iw_issued := minted_membership_get g # iw_issued w\<rparr>)"
| evict: "(\<forall>ids. iw_phase w k \<noteq> Building ids) \<Longrightarrow>
    identity_step w (w\<lparr>iw_scopes := (iw_scopes w)(k := evict (iw_scopes w k) i m)\<rparr>)"

definition membership_lineage :: "membership \<Rightarrow> lineage" where
  "membership_lineage m = fence_lineage (membership_fence m)"

definition membership_generation :: "membership \<Rightarrow> u64" where
  "membership_generation m = generation_get (fence_generation (membership_fence m))"

fun lineage_number :: "lineage \<Rightarrow> u64" where
  "lineage_number (Lineage n) = n"

definition newer_in_lineage :: "membership \<Rightarrow> membership \<Rightarrow> bool" where
  "newer_in_lineage a b \<longleftrightarrow> membership_lineage a = membership_lineage b \<longrightarrow> membership_supersedes a b"

text \<open>
  The invariant is about the counters that may still mint: those of the scopes that are not being
  lowered, and the ones that the tokens of a lowered builder will become.
\<close>

definition minting :: "identity_world \<Rightarrow> nat \<Rightarrow> scope_identity" where
  "minting w k =
     (case iw_phase w k of
        Lowering _ \<Rightarrow> (\<lambda>i. map_option (\<lambda>m. fence_counter_from_fence (membership_fence m)) (iw_tokens w k i))
      | _ \<Rightarrow> iw_scopes w k)"

definition issued_bounded :: "u64 \<Rightarrow> membership list \<Rightarrow> bool" where
  "issued_bounded l ms \<longleftrightarrow> (\<forall>m \<in> set ms. lineage_number (membership_lineage m) \<le> l)"

definition tracked_bounded :: "u64 \<Rightarrow> (nat \<Rightarrow> scope_identity) \<Rightarrow> bool" where
  "tracked_bounded l ss \<longleftrightarrow> (\<forall>k i c. ss k i = Some c \<longrightarrow> lineage_number (fc_lineage c) \<le> l)"

definition tracked_current :: "(nat \<Rightarrow> scope_identity) \<Rightarrow> membership list \<Rightarrow> bool" where
  "tracked_current ss ms \<longleftrightarrow>
     (\<forall>k i c. ss k i = Some c \<longrightarrow> Membership (fence_counter_issued c) \<in> set ms \<and>
        (\<forall>m \<in> set ms. membership_lineage m = fc_lineage c \<longrightarrow>
           membership_generation m \<le> counter_current (fc_generations c)))"

definition tracked_exclusive :: "(nat \<Rightarrow> scope_identity) \<Rightarrow> bool" where
  "tracked_exclusive ss \<longleftrightarrow>
     (\<forall>k i c k' i' c'. ss k i = Some c \<longrightarrow> ss k' i' = Some c' \<longrightarrow>
        fc_lineage c = fc_lineage c' \<longrightarrow> k = k' \<and> i = i')"

definition fencing_inv :: "u64 \<Rightarrow> (nat \<Rightarrow> scope_identity) \<Rightarrow> membership list \<Rightarrow> bool" where
  "fencing_inv l ss ms \<longleftrightarrow>
     sorted_wrt newer_in_lineage ms \<and> issued_bounded l ms \<and> tracked_bounded l ss \<and>
     tracked_current ss ms \<and> tracked_exclusive ss"

text \<open>A builder holds one token for each id it tracks, and lowers into a running scope.\<close>

definition builder_inv :: "identity_world \<Rightarrow> bool" where
  "builder_inv w \<longleftrightarrow>
     (\<forall>k ids. iw_phase w k = Building ids \<longrightarrow> dom (iw_scopes w k) = ids \<and>
        iw_tokens w k = (\<lambda>i. map_option (Membership \<circ> fence_counter_issued) (iw_scopes w k i))) \<and>
     (\<forall>k k'. iw_phase w k = Lowering k' \<longrightarrow> iw_phase w k' = Running)"

definition identity_inv :: "identity_world \<Rightarrow> bool" where
  "identity_inv w \<longleftrightarrow> fencing_inv (iw_lineages w) (minting w) (iw_issued w) \<and> builder_inv w"

lemmas fencing_inv_defs =
  fencing_inv_def issued_bounded_def tracked_bounded_def tracked_current_def tracked_exclusive_def

lemma identity_inv_init: "identity_inv identity_world_init"
  by (simp add: identity_inv_def fencing_inv_defs builder_inv_def minting_def identity_world_init_def scope_identity_new_def)

lemma newer_in_lineage_iff:
  "newer_in_lineage a b \<longleftrightarrow>
     (membership_lineage a = membership_lineage b \<longrightarrow>
      membership_generation b < membership_generation a)"
  by (auto simp: newer_in_lineage_def membership_supersedes_def fence_supersedes_def
      generation_supersedes_def membership_lineage_def membership_generation_def)

lemma membership_lineage_Membership [simp]:
  "membership_lineage (Membership \<lparr>fence_lineage = l, fence_generation = Generation n\<rparr>) = l"
  by (simp add: membership_lineage_def)

lemma membership_generation_Membership [simp]:
  "membership_generation (Membership \<lparr>fence_lineage = l, fence_generation = Generation n\<rparr>) = n"
  by (simp add: membership_generation_def)

lemma counter_of_issued [simp]: "fence_counter_from_fence (fence_counter_issued c) = c"
  by (simp add: fence_counter_from_fence_def fence_counter_issued_def counter_from_current_def)

lemma issued_of_counter [simp]: "fence_counter_issued (fence_counter_from_fence f) = f"
  by (simp add: fence_counter_from_fence_def fence_counter_issued_def counter_from_current_def)

subsection \<open>Each move keeps the counters apart\<close>

lemma fencing_inv_advance:
  assumes inv: "fencing_inv l ss ms"
    and c: "ss k i = Some c"
    and less: "counter_current (fc_generations c) < n"
  shows "fencing_inv l (ss(k := (ss k)(i \<mapsto> c\<lparr>fc_generations := \<lparr>counter_current = n\<rparr>\<rparr>)))
    (Membership \<lparr>fence_lineage = fc_lineage c, fence_generation = Generation n\<rparr> # ms)"
    (is "fencing_inv l ?ss (?m # ms)")
proof -
  have old: "m \<in> set ms \<Longrightarrow> membership_lineage m = fc_lineage c \<Longrightarrow> membership_generation m < n" for m
    using inv c less unfolding fencing_inv_def tracked_current_def by (meson le_less_trans)
  have own: "ss k' i' = Some c' \<Longrightarrow> fc_lineage c' = fc_lineage c \<Longrightarrow> k' = k \<and> i' = i" for k' i' c'
    using inv c unfolding fencing_inv_def tracked_exclusive_def by blast
  have bound: "lineage_number (fc_lineage c) \<le> l"
    using inv c unfolding fencing_inv_def tracked_bounded_def by blast
  have "sorted_wrt newer_in_lineage (?m # ms)"
    using inv old by (auto simp: fencing_inv_def newer_in_lineage_iff)
  moreover have "issued_bounded l (?m # ms)"
    using inv bound by (simp add: fencing_inv_def issued_bounded_def)
  moreover have "tracked_bounded l ?ss"
    using inv bound by (auto simp: fencing_inv_def tracked_bounded_def)
  moreover have "tracked_current ?ss (?m # ms)"
    using inv old own unfolding fencing_inv_def tracked_current_def
    by (auto simp: less_imp_le fence_counter_issued_def split: if_splits)
  moreover have "tracked_exclusive ?ss"
    using inv own unfolding fencing_inv_def tracked_exclusive_def
    by (auto split: if_splits)
  ultimately show ?thesis
    by (simp add: fencing_inv_def)
qed

lemma fencing_inv_fresh:
  assumes inv: "fencing_inv l0 ss ms" and less: "l0 < l"
  shows "fencing_inv l
    (ss(k := (ss k)(i \<mapsto> \<lparr>fc_lineage = Lineage l, fc_generations = \<lparr>counter_current = n\<rparr>\<rparr>)))
    (Membership \<lparr>fence_lineage = Lineage l, fence_generation = Generation n\<rparr> # ms)"
    (is "fencing_inv l ?ss (?m # ms)")
proof -
  have issued: "m \<in> set ms \<Longrightarrow> lineage_number (membership_lineage m) < l" for m
    using inv less unfolding fencing_inv_def issued_bounded_def by (meson le_less_trans)
  have fresh: "m \<in> set ms \<Longrightarrow> Lineage l \<noteq> membership_lineage m" for m
    using issued by (metis less_irrefl lineage_number.simps)
  have tracked: "ss k' i' = Some c' \<Longrightarrow> lineage_number (fc_lineage c') < l" for k' i' c'
    using inv less unfolding fencing_inv_def tracked_bounded_def by (meson le_less_trans)
  have own: "ss k' i' = Some c' \<Longrightarrow> Lineage l \<noteq> fc_lineage c'" for k' i' c'
    using tracked by (metis less_irrefl lineage_number.simps)
  have "sorted_wrt newer_in_lineage (?m # ms)"
    using inv fresh by (auto simp: fencing_inv_def newer_in_lineage_iff)
  moreover have "issued_bounded l (?m # ms)"
    using issued by (auto simp: issued_bounded_def less_imp_le)
  moreover have "tracked_bounded l ?ss"
    using tracked by (auto simp: tracked_bounded_def less_imp_le)
  moreover have "tracked_current ?ss (?m # ms)"
    using inv fresh [symmetric] own unfolding fencing_inv_def tracked_current_def
    by (auto simp: fence_counter_issued_def split: if_splits)
  moreover have "tracked_exclusive ?ss"
    using inv own unfolding fencing_inv_def tracked_exclusive_def
    by (auto split: if_splits) metis+
  ultimately show ?thesis
    by (simp add: fencing_inv_def)
qed

lemma fencing_inv_forget:
  assumes "fencing_inv l ss ms" "\<And>k i c. ss' k i = Some c \<Longrightarrow> ss k i = Some c"
  shows "fencing_inv l ss' ms"
  using assms unfolding fencing_inv_defs by blast

lemma fencing_inv_move:
  assumes inv: "fencing_inv l ss ms" and c: "ss k i = Some c" and k: "k \<noteq> k'"
  shows "fencing_inv l (ss(k := (ss k)(i := None), k' := (ss k')(i \<mapsto> c))) ms" (is "fencing_inv l ?ss ms")
proof -
  have from_old: "\<exists>k0 i0. ss k0 i0 = Some d \<and> (k1 = k' \<and> i1 = i \<and> k0 = k \<and> i0 = i \<or> k0 = k1 \<and> i0 = i1 \<and> (k1, i1) \<noteq> (k, i) \<and> (k1, i1) \<noteq> (k', i))"
    if "?ss k1 i1 = Some d" for k1 i1 d
    using that c k by (auto split: if_splits)
  have "tracked_exclusive ?ss"
    unfolding tracked_exclusive_def
  proof (intro allI impI)
    fix k1 i1 c1 k2 i2 c2
    assume a: "?ss k1 i1 = Some c1" "?ss k2 i2 = Some c2" "fc_lineage c1 = fc_lineage c2"
    have excl: "\<And>k i c k' i' c'. ss k i = Some c \<Longrightarrow> ss k' i' = Some c' \<Longrightarrow> fc_lineage c = fc_lineage c' \<Longrightarrow> k = k' \<and> i = i'"
      using inv unfolding fencing_inv_def tracked_exclusive_def by blast
    from from_old [OF a(1)] from_old [OF a(2)] excl a(3) show "k1 = k2 \<and> i1 = i2" by blast
  qed
  moreover have "tracked_bounded l ?ss" "tracked_current ?ss ms"
    using inv from_old unfolding fencing_inv_def tracked_bounded_def tracked_current_def by blast+
  ultimately show ?thesis using inv by (simp add: fencing_inv_def)
qed

lemma evict_Some: "evict s i m j = Some c \<Longrightarrow> s j = Some c"
  by (auto simp: evict_def split: option.splits if_splits)

lemma minting_not_lowering: "(\<And>k'. iw_phase w k \<noteq> Lowering k') \<Longrightarrow> minting w k = iw_scopes w k"
  by (simp add: minting_def split: scope_phase.splits)

lemma minting_other:
  "iw_phase w' k = iw_phase w k \<Longrightarrow> iw_scopes w' k = iw_scopes w k \<Longrightarrow> iw_tokens w' k = iw_tokens w k \<Longrightarrow>
   minting w' k = minting w k"
  by (simp add: minting_def split: scope_phase.splits)

text \<open>A mint in a scope that mints advances its counter, or takes a new lineage.\<close>

lemma fencing_inv_mint:
  assumes inv: "fencing_inv l0 ss ms" and m: "mint_membership l0 (ss k) i = Inr (g, s, l)"
  shows "fencing_inv l (ss(k := s)) (minted_membership_get g # ms)"
proof (cases "ss k i")
  case None
  with m have "l0 < l" by (auto simp: mint_membership_None intro: counter_successor_less)
  from fencing_inv_fresh [OF inv this, of k i 1] None m show ?thesis by (auto simp: mint_membership_None)
next
  case (Some c)
  with m obtain n where "counter_successor (counter_current (fc_generations c)) = Inr n" "l = l0"
    and g: "minted_membership_get g = Membership \<lparr>fence_lineage = fc_lineage c, fence_generation = Generation n\<rparr>"
      "s = (ss k)(i \<mapsto> c\<lparr>fc_generations := \<lparr>counter_current = n\<rparr>\<rparr>)"
    by (auto simp: mint_membership_Some)
  with fencing_inv_advance [OF inv Some counter_successor_less] show ?thesis by simp
qed


lemma builder_reserve_fresh:
  assumes "builder_reserve l0 s0 ids i = Inr (Inr (g, s, ids', l))" "dom s0 = ids"
  obtains c where "mint_membership l0 s0 i = Inr (g, s, l)" "ids' = insert i ids" "s = s0(i \<mapsto> c)"
    "minted_membership_get g = Membership (fence_counter_issued c)"
proof -
  have m: "mint_membership l0 s0 i = Inr (g, s, l)" "ids' = insert i ids" "i \<notin> ids"
    using assms(1) by (auto simp: builder_reserve_def non_empty_id_def run_bind_eq_Inr split: if_splits)
  with assms(2) have "s0 i = None" by auto
  with m show thesis by (intro that) (auto simp: mint_membership_None fence_counter_issued_def)
qed

lemma identity_step_inv: "identity_step w w' \<Longrightarrow> identity_inv w \<Longrightarrow> identity_inv w'"
proof (induction rule: identity_step.induct)
  case (reserve w k ids i g s ids' l)
  have inv: "fencing_inv (iw_lineages w) (minting w) (iw_issued w)" and b: "builder_inv w"
    using reserve.prems by (auto simp: identity_inv_def)
  have k: "minting w k = iw_scopes w k" using reserve.hyps(1) by (simp add: minting_not_lowering)
  have dom: "dom (iw_scopes w k) = ids" using b reserve.hyps(1) by (simp add: builder_inv_def)
  obtain c where r: "mint_membership (iw_lineages w) (iw_scopes w k) i = Inr (g, s, l)" "ids' = insert i ids"
      "s = (iw_scopes w k)(i \<mapsto> c)" "minted_membership_get g = Membership (fence_counter_issued c)"
    by (rule builder_reserve_fresh [OF reserve.hyps(2) dom])
  let ?w = "w\<lparr>iw_lineages := l, iw_scopes := (iw_scopes w)(k := s), iw_phase := (iw_phase w)(k := Building ids'),
      iw_tokens := (iw_tokens w)(k := (iw_tokens w k)(i \<mapsto> minted_membership_get g)),
      iw_issued := minted_membership_get g # iw_issued w\<rparr>"
  have "minting ?w = (minting w)(k := s)" by (auto simp: fun_eq_iff minting_def split: scope_phase.splits)
  moreover have "fencing_inv l ((minting w)(k := s)) (minted_membership_get g # iw_issued w)"
    using fencing_inv_mint [OF inv, of k i] r(1) k by simp
  moreover have "iw_tokens w k = (\<lambda>i. map_option (Membership \<circ> fence_counter_issued) (iw_scopes w k i))"
    using b reserve.hyps(1) by (simp add: builder_inv_def)
  then have "(iw_tokens w k)(i \<mapsto> minted_membership_get g) = (\<lambda>j. map_option (Membership \<circ> fence_counter_issued) (s j))"
    "dom s = ids'" using r dom by (auto simp: fun_eq_iff)
  with b reserve.hyps(1) have "builder_inv ?w" by (auto simp: builder_inv_def)
  ultimately show ?case by (simp add: identity_inv_def)
next
  case (start w k ids)
  let ?w = "w\<lparr>iw_phase := (iw_phase w)(k := Running)\<rparr>"
  have "minting ?w = minting w" using start.hyps by (auto simp: fun_eq_iff minting_def split: scope_phase.splits)
  with start show ?case by (auto simp: identity_inv_def builder_inv_def)
next
  case (lower w k ids k')
  let ?w = "w\<lparr>iw_phase := (iw_phase w)(k := Lowering k')\<rparr>"
  have "iw_tokens w k = (\<lambda>i. map_option (Membership \<circ> fence_counter_issued) (iw_scopes w k i))"
    using lower by (simp add: identity_inv_def builder_inv_def)
  then have "minting ?w = minting w" using lower.hyps by (auto simp: fun_eq_iff minting_def option.map_comp comp_def option.map_ident split: scope_phase.splits)
  with lower show ?case by (auto simp: identity_inv_def builder_inv_def)
next
  case (adopt w k k' i m r s)
  have inv: "fencing_inv (iw_lineages w) (minting w) (iw_issued w)" and b: "builder_inv w"
    using adopt.prems by (auto simp: identity_inv_def)
  have "iw_phase w k' = Running" using b adopt.hyps(1) unfolding builder_inv_def by blast
  with adopt.hyps(1) have k': "iw_phase w k' = Running" "k \<noteq> k'" by auto
  let ?c = "fence_counter_from_fence (membership_fence m)"
  let ?w = "w\<lparr>iw_scopes := (iw_scopes w)(k' := s), iw_tokens := (iw_tokens w)(k := (iw_tokens w k)(i := None)),
      iw_issued := reconciled_memberships r @ iw_issued w\<rparr>"
  have minting: "minting w k i = Some ?c" "minting w k' = iw_scopes w k'"
    using adopt.hyps(1,2) k' by (simp_all add: minting_def)
  have w: "minting ?w = (minting w)(k := (minting w k)(i := None), k' := s)"
    using adopt.hyps(1) k' by (auto simp: fun_eq_iff minting_def split: scope_phase.splits)
  have "builder_inv ?w" using b adopt.hyps(1) k' by (auto simp: builder_inv_def)
  moreover have "fencing_inv (iw_lineages w) (minting ?w) (reconciled_memberships r @ iw_issued w)"
  proof (cases "iw_scopes w k' i")
    case None
    then have "r = Adopted" "s = (minting w k')(i \<mapsto> ?c)"
      using adopt.hyps(3) minting(2) by (simp_all add: adopt_or_mint_membership_def)
    then show ?thesis using fencing_inv_move [OF inv minting(1) k'(2)] unfolding w by (simp add: reconciled_memberships_def)
  next
    case (Some c)
    let ?ss = "(minting w)(k := (minting w k)(i := None))"
    have "fencing_inv (iw_lineages w) ?ss (iw_issued w)"
      by (rule fencing_inv_forget [OF inv]) (auto split: if_splits)
    moreover have "?ss k' i = Some c" using Some k' minting(2) by simp
    moreover obtain n where n: "counter_successor (counter_current (fc_generations c)) = Inr n"
        "reconciled_memberships r = [Membership \<lparr>fence_lineage = fc_lineage c, fence_generation = Generation n\<rparr>]"
        "s = (?ss k')(i \<mapsto> c\<lparr>fc_generations := \<lparr>counter_current = n\<rparr>\<rparr>)"
      using adopt.hyps(3) Some k' minting(2)
      by (auto simp: adopt_or_mint_membership_def run_bind_eq_Inr fence_counter_mint_Inr reconciled_memberships_def)
    ultimately show ?thesis
      using fencing_inv_advance [of "iw_lineages w" ?ss "iw_issued w" k' i c n] counter_successor_less [OF n(1)]
      unfolding w by (simp add: n(2,3))
  qed
  ultimately show ?case by (simp add: identity_inv_def)
next
  case (mint w k i g s l)
  let ?w = "w\<lparr>iw_lineages := l, iw_scopes := (iw_scopes w)(k := s), iw_issued := minted_membership_get g # iw_issued w\<rparr>"
  have "minting w k = iw_scopes w k" using mint.hyps(1) by (simp add: minting_def)
  moreover have "minting ?w = (minting w)(k := s)" using mint.hyps(1) by (auto simp: fun_eq_iff minting_def split: scope_phase.splits)
  ultimately have "fencing_inv l (minting ?w) (minted_membership_get g # iw_issued w)"
    using fencing_inv_mint [of "iw_lineages w" "minting w" "iw_issued w" k i] mint by (simp add: identity_inv_def)
  moreover have "builder_inv ?w" using mint by (auto simp: identity_inv_def builder_inv_def)
  ultimately show ?case by (simp add: identity_inv_def)
next
  case (evict w k i m)
  let ?w = "w\<lparr>iw_scopes := (iw_scopes w)(k := evict (iw_scopes w k) i m)\<rparr>"
  have "minting w k' j = Some c" if "minting ?w k' j = Some c" for k' j c
    using that by (cases "iw_phase w k'") (auto simp: minting_def split: if_splits dest: evict_Some)
  then have "fencing_inv (iw_lineages w) (minting ?w) (iw_issued w)"
    using evict.prems fencing_inv_forget by (auto simp: identity_inv_def)
  moreover have "builder_inv ?w" using evict by (auto simp: identity_inv_def builder_inv_def)
  ultimately show ?case by (simp add: identity_inv_def)
qed

lemma identity_reachable_inv: "rtranclp identity_step identity_world_init w \<Longrightarrow> identity_inv w"
  by (induction rule: rtranclp_induct) (auto intro: identity_inv_init identity_step_inv)


section \<open>Properties\<close>

text \<open>
  C7: Every membership ever minted in the process is unique, and within one lineage the later one
  supersedes the earlier (the history is kept newest first). Memberships come from builders that
  declare their children, from running scopes that admit children, and from reconciling the
  declarations of a builder with the running scope it is lowered into, which either adopts the
  declared lineage or mints its successor; lineages are evicted meanwhile. A builder declares each id
  once and mints no more once it is lowered, as \<open>BuilderCore\<close> has it.
\<close>

theorem minted_memberships_unique:
  assumes "rtranclp identity_step identity_world_init w"
  shows "distinct (iw_issued w) \<and> sorted_wrt newer_in_lineage (iw_issued w)"
proof -
  have sorted: "sorted_wrt newer_in_lineage (iw_issued w)"
    using identity_reachable_inv [OF assms] by (simp add: identity_inv_def fencing_inv_def)
  have "sorted_wrt newer_in_lineage ms \<Longrightarrow> distinct ms" for ms
    by (induction ms) (auto simp: newer_in_lineage_def membership_order.irreflexive)
  with sorted show ?thesis
    by blast
qed


text \<open>
  The history of the witnesses: builder 0 declares \<open>a\<close> and becomes a running scope; builder 1 declares \<open>a\<close>
  and is lowered into scope 0, where \<open>a\<close> is minted anew; builder 2 declares \<open>a\<close> and \<open>c\<close> and is being lowered
  into scope 0, which has adopted \<open>c\<close>.
\<close>

lemmas identity_eval =
  mint_membership_def fresh_counter_def atomic_counter_mint_def checked_add_u64_def
  fence_counter_mint_def counter_mint_def counter_successor_def fence_counter_new_def
  counter_new_def minted_membership_get_def minted_membership_new_def evict_def
  fence_counter_issued_def scope_identity_new_def adopt_or_mint_membership_def
  fence_counter_from_fence_def counter_from_current_def builder_reserve_def non_empty_id_def
  reconciled_memberships_def

definition demo_token :: "u64 \<Rightarrow> u64 \<Rightarrow> membership" where
  "demo_token l n = Membership \<lparr>fence_lineage = Lineage l, fence_generation = Generation n\<rparr>"

definition demo_counter :: "u64 \<Rightarrow> u64 \<Rightarrow> fence_counter" where
  "demo_counter l n = \<lparr>fc_lineage = Lineage l, fc_generations = \<lparr>counter_current = n\<rparr>\<rparr>"

definition identity_demo :: identity_world where
  "identity_demo =
     \<lparr>iw_lineages = 4,
      iw_scopes = (\<lambda>_. Map.empty)
        (0 := [''a'' \<mapsto> demo_counter 1 2, ''c'' \<mapsto> demo_counter 4 1], 1 := [''a'' \<mapsto> demo_counter 2 1],
         2 := [''a'' \<mapsto> demo_counter 3 1, ''c'' \<mapsto> demo_counter 4 1]),
      iw_phase = (\<lambda>_. Building {})(0 := Running, 1 := Lowering 0, 2 := Lowering 0),
      iw_tokens = (\<lambda>_. Map.empty)(0 := [''a'' \<mapsto> demo_token 1 1], 2 := [''a'' \<mapsto> demo_token 3 1]),
      iw_issued = [demo_token 4 1, demo_token 3 1, demo_token 1 2, demo_token 2 1, demo_token 1 1]\<rparr>"

lemma identity_stepI:
  "iw_phase w k = Building ids \<Longrightarrow>
    builder_reserve (iw_lineages w) (iw_scopes w k) ids i = Inr (Inr (g, s, ids', l)) \<Longrightarrow>
    w' = w\<lparr>iw_lineages := l, iw_scopes := (iw_scopes w)(k := s), iw_phase := (iw_phase w)(k := Building ids'),
      iw_tokens := (iw_tokens w)(k := (iw_tokens w k)(i \<mapsto> minted_membership_get g)),
      iw_issued := minted_membership_get g # iw_issued w\<rparr> \<Longrightarrow> identity_step w w'"
  "iw_phase w k = Building ids \<Longrightarrow> w' = w\<lparr>iw_phase := (iw_phase w)(k := Running)\<rparr> \<Longrightarrow> identity_step w w'"
  "iw_phase w k = Building ids \<Longrightarrow> iw_phase w k' = Running \<Longrightarrow>
    w' = w\<lparr>iw_phase := (iw_phase w)(k := Lowering k')\<rparr> \<Longrightarrow> identity_step w w'"
  "iw_phase w k = Lowering k' \<Longrightarrow> iw_tokens w k i = Some m \<Longrightarrow>
    adopt_or_mint_membership (iw_scopes w k') \<lparr>pm_id = i, pm_membership = m\<rparr> = Inr (r, s) \<Longrightarrow>
    w' = w\<lparr>iw_scopes := (iw_scopes w)(k' := s), iw_tokens := (iw_tokens w)(k := (iw_tokens w k)(i := None)),
      iw_issued := reconciled_memberships r @ iw_issued w\<rparr> \<Longrightarrow> identity_step w w'"
  "iw_phase w k = Running \<Longrightarrow> mint_membership (iw_lineages w) (iw_scopes w k) i = Inr (g, s, l) \<Longrightarrow>
    w' = w\<lparr>iw_lineages := l, iw_scopes := (iw_scopes w)(k := s),
      iw_issued := minted_membership_get g # iw_issued w\<rparr> \<Longrightarrow> identity_step w w'"
  by (simp_all add: identity_step.intros)


lemma identity_demo_reachable: "rtranclp identity_step identity_world_init identity_demo"
proof -
  let ?B = "\<lambda>_. Building {}" and ?none = "\<lambda>_. Map.empty"
  let ?w1 = "\<lparr>iw_lineages = 1, iw_scopes = ?none(0 := [''a'' \<mapsto> demo_counter 1 1]),
    iw_phase = ?B(0 := Building {''a''}), iw_tokens = ?none(0 := [''a'' \<mapsto> demo_token 1 1]),
    iw_issued = [demo_token 1 1]\<rparr>"
  let ?w2 = "\<lparr>iw_lineages = 1, iw_scopes = ?none(0 := [''a'' \<mapsto> demo_counter 1 1]),
    iw_phase = ?B(0 := Running), iw_tokens = ?none(0 := [''a'' \<mapsto> demo_token 1 1]),
    iw_issued = [demo_token 1 1]\<rparr>"
  let ?w3 = "\<lparr>iw_lineages = 2, iw_scopes = ?none(0 := [''a'' \<mapsto> demo_counter 1 1], 1 := [''a'' \<mapsto> demo_counter 2 1]),
    iw_phase = ?B(0 := Running, 1 := Building {''a''}), iw_tokens = ?none(0 := [''a'' \<mapsto> demo_token 1 1], 1 := [''a'' \<mapsto> demo_token 2 1]),
    iw_issued = [demo_token 2 1, demo_token 1 1]\<rparr>"
  let ?w4 = "\<lparr>iw_lineages = 2, iw_scopes = ?none(0 := [''a'' \<mapsto> demo_counter 1 1], 1 := [''a'' \<mapsto> demo_counter 2 1]),
    iw_phase = ?B(0 := Running, 1 := Lowering 0), iw_tokens = ?none(0 := [''a'' \<mapsto> demo_token 1 1], 1 := [''a'' \<mapsto> demo_token 2 1]),
    iw_issued = [demo_token 2 1, demo_token 1 1]\<rparr>"
  let ?w5 = "\<lparr>iw_lineages = 2, iw_scopes = ?none(0 := [''a'' \<mapsto> demo_counter 1 2], 1 := [''a'' \<mapsto> demo_counter 2 1]),
    iw_phase = ?B(0 := Running, 1 := Lowering 0), iw_tokens = ?none(0 := [''a'' \<mapsto> demo_token 1 1]),
    iw_issued = [demo_token 1 2, demo_token 2 1, demo_token 1 1]\<rparr>"
  let ?w6 = "\<lparr>iw_lineages = 3, iw_scopes = ?none(0 := [''a'' \<mapsto> demo_counter 1 2], 1 := [''a'' \<mapsto> demo_counter 2 1], 2 := [''a'' \<mapsto> demo_counter 3 1]),
    iw_phase = ?B(0 := Running, 1 := Lowering 0, 2 := Building {''a''}), iw_tokens = ?none(0 := [''a'' \<mapsto> demo_token 1 1], 2 := [''a'' \<mapsto> demo_token 3 1]),
    iw_issued = [demo_token 3 1, demo_token 1 2, demo_token 2 1, demo_token 1 1]\<rparr>"
  let ?w7 = "\<lparr>iw_lineages = 4, iw_scopes = ?none(0 := [''a'' \<mapsto> demo_counter 1 2], 1 := [''a'' \<mapsto> demo_counter 2 1], 2 := [''a'' \<mapsto> demo_counter 3 1, ''c'' \<mapsto> demo_counter 4 1]),
    iw_phase = ?B(0 := Running, 1 := Lowering 0, 2 := Building {''c'', ''a''}), iw_tokens = ?none(0 := [''a'' \<mapsto> demo_token 1 1], 2 := [''a'' \<mapsto> demo_token 3 1, ''c'' \<mapsto> demo_token 4 1]),
    iw_issued = [demo_token 4 1, demo_token 3 1, demo_token 1 2, demo_token 2 1, demo_token 1 1]\<rparr>"
  let ?w8 = "\<lparr>iw_lineages = 4, iw_scopes = ?none(0 := [''a'' \<mapsto> demo_counter 1 2], 1 := [''a'' \<mapsto> demo_counter 2 1], 2 := [''a'' \<mapsto> demo_counter 3 1, ''c'' \<mapsto> demo_counter 4 1]),
    iw_phase = ?B(0 := Running, 1 := Lowering 0, 2 := Lowering 0), iw_tokens = ?none(0 := [''a'' \<mapsto> demo_token 1 1], 2 := [''a'' \<mapsto> demo_token 3 1, ''c'' \<mapsto> demo_token 4 1]),
    iw_issued = [demo_token 4 1, demo_token 3 1, demo_token 1 2, demo_token 2 1, demo_token 1 1]\<rparr>"
  note eval = identity_eval identity_world_init_def demo_counter_def demo_token_def
  have 1: "identity_step identity_world_init ?w1"
    by (rule identity_stepI(1) [where k = 0 and i = "''a''" and ids = "{}"])
      (simp add: eval, simp add: eval, simp add: eval fun_eq_iff)
  have 2: "identity_step ?w1 ?w2" by (rule identity_stepI(2) [where k = 0]) (simp_all add: fun_eq_iff)
  have 3: "identity_step ?w2 ?w3"
    by (rule identity_stepI(1) [where k = 1 and i = "''a''" and ids = "{}"]) (simp, simp add: eval, simp add: eval fun_eq_iff)
  have 4: "identity_step ?w3 ?w4"
    by (rule identity_stepI(3) [where k = 1 and k' = 0]) (simp_all add: fun_eq_iff)
  have 5: "identity_step ?w4 ?w5"
    by (rule identity_stepI(4) [where k = 1 and k' = 0 and i = "''a''" and m = "demo_token 2 1"])
      (simp, simp, simp add: eval, simp add: eval fun_eq_iff)
  have 6: "identity_step ?w5 ?w6"
    by (rule identity_stepI(1) [where k = 2 and i = "''a''" and ids = "{}"]) (simp, simp add: eval, simp add: eval fun_eq_iff)
  have 7: "identity_step ?w6 ?w7"
    by (rule identity_stepI(1) [where k = 2 and i = "''c''" and ids = "{''a''}"]) (simp, simp add: eval, simp add: eval fun_eq_iff)
  have 8: "identity_step ?w7 ?w8"
    by (rule identity_stepI(3) [where k = 2 and k' = 0]) (simp_all add: fun_eq_iff)
  have 9: "identity_step ?w8 identity_demo"
    by (rule identity_stepI(4) [where k = 2 and k' = 0 and i = "''c''" and m = "demo_token 4 1"])
      (simp, simp, simp add: eval, simp add: eval fun_eq_iff identity_demo_def)
  note more = rtranclp.rtrancl_into_rtrancl [where r = identity_step and a = identity_world_init]
  show ?thesis
    by (rule more [OF more [OF more [OF more [OF more [OF more [OF more [OF more [OF more
      [OF rtranclp.rtrancl_refl 1] 2] 3] 4] 5] 6] 7] 8] 9])
qed

theorem minted_memberships_unique_witness:
  "distinct (iw_issued identity_demo) \<and> sorted_wrt newer_in_lineage (iw_issued identity_demo)"
  by (rule minted_memberships_unique [OF identity_demo_reachable])


text \<open>
  Reconciling a declaration-time membership with a stable scope that does not track its
  id keeps the token unchanged, and the scope's next mint for the id supersedes it; a scope
  that does track the id mints a successor of its last issued token instead.
\<close>

theorem reconcile_membership:
  "case s (pm_id p) of
     None \<Rightarrow>
       (\<exists>s'. adopt_or_mint_membership s p = Inr (Adopted, s') \<and>
          map_option fence_counter_issued (s' (pm_id p)) =
            Some (membership_fence (pm_membership p)) \<and>
          (\<forall>l g s'' l'. mint_membership l s' (pm_id p) = Inr (g, s'', l') \<longrightarrow>
             membership_supersedes (minted_membership_get g) (pm_membership p)))
   | Some c \<Rightarrow>
       (\<forall>r s'. adopt_or_mint_membership s p = Inr (r, s') \<longrightarrow>
          (\<exists>g. r = Minted g \<and>
             membership_supersedes (minted_membership_get g) (Membership (fence_counter_issued c)) \<and>
             map_option fence_counter_issued (s' (pm_id p)) =
               Some (membership_fence (minted_membership_get g))))"
proof (cases "s (pm_id p)")
  case None
  let ?c = "fence_counter_from_fence (membership_fence (pm_membership p))"
  have a: "adopt_or_mint_membership s p = Inr (Adopted, s(pm_id p \<mapsto> ?c))"
    using None by (simp add: adopt_or_mint_membership_def)
  have "mint_membership l (s(pm_id p \<mapsto> ?c)) (pm_id p) = Inr (g, s'', l') \<Longrightarrow>
      membership_supersedes (minted_membership_get g) (pm_membership p)" for l g s'' l'
    by (auto simp: mint_membership_Some membership_supersedes_def fence_supersedes_def
        generation_supersedes_def fence_counter_from_fence_def counter_from_current_def
        dest: counter_successor_less)
  moreover have "fence_counter_issued ?c = membership_fence (pm_membership p)"
    by (simp add: fence_counter_issued_def fence_counter_from_fence_def counter_from_current_def)
  ultimately show ?thesis
    using None a by auto
next
  case (Some c)
  then show ?thesis
    by (auto simp: adopt_or_mint_membership_def run_bind_eq_Inr fence_counter_mint_Inr
        membership_supersedes_def fence_supersedes_def generation_supersedes_def
        fence_counter_issued_def dest: counter_successor_less)
qed

theorem reconcile_membership_witness:
  "membership_supersedes
     (Membership \<lparr>fence_lineage = Lineage 7, fence_generation = Generation 4\<rparr>)
     (Membership \<lparr>fence_lineage = Lineage 7, fence_generation = Generation 3\<rparr>)"
proof -
  let ?s = "[''a'' \<mapsto> \<lparr>fc_lineage = Lineage 7, fc_generations = \<lparr>counter_current = 3\<rparr>\<rparr>]"
  let ?p = "\<lparr>pm_id = ''a'',
    pm_membership = Membership \<lparr>fence_lineage = Lineage 9, fence_generation = Generation 1\<rparr>\<rparr>"
  show ?thesis
    using reconcile_membership [of ?s ?p]
    by (simp add: adopt_or_mint_membership_def identity_eval)
qed

end
