(* ===== verification/Clock.thy ===== *)
theory Clock
  imports Prelude
begin

text \<open>
  Instants, durations and absolute deadlines: \<open>crates/shelterwood-core/src/deadline.rs\<close>
  and the part of \<open>std::time\<close> it uses. Both are counted in nanoseconds. A \<open>Duration\<close>
  holds a 64-bit second count and a nanosecond part below one billion. An \<open>Instant\<close> is
  the monotonic clock of the supported (Unix) targets, a non-negative value whose seconds
  fit a signed 64-bit field; addition past that limit is \<open>None\<close>.
\<close>

type_synonym instant = nat
type_synonym duration = nat

definition NANOS_PER_SEC :: nat where
  "NANOS_PER_SEC = 1000000000"

definition DURATION_MAX :: duration where
  "DURATION_MAX = (2 ^ 64 - 1) * NANOS_PER_SEC + (NANOS_PER_SEC - 1)"

definition INSTANT_MAX :: instant where
  "INSTANT_MAX = (2 ^ 63 - 1) * NANOS_PER_SEC + (NANOS_PER_SEC - 1)"

definition from_secs :: "nat \<Rightarrow> duration" where
  "from_secs n = n * NANOS_PER_SEC"

definition from_millis :: "nat \<Rightarrow> duration" where
  "from_millis n = n * 1000000"

definition instant_checked_add :: "instant \<Rightarrow> duration \<Rightarrow> instant option" where
  "instant_checked_add i d = (if i + d \<le> INSTANT_MAX then Some (i + d) else None)"

definition checked_duration_since :: "instant \<Rightarrow> instant \<Rightarrow> duration option" where
  "checked_duration_since later earlier = (if earlier \<le> later then Some (later - earlier) else None)"

definition saturating_duration_since :: "instant \<Rightarrow> instant \<Rightarrow> duration" where
  "saturating_duration_since later earlier = (if earlier \<le> later then later - earlier else 0)"

section \<open>Deadlines\<close>

text \<open>\<open>None\<close> is a deadline too distant for the clock: it never arrives.\<close>

datatype deadline = Deadline (deadline_instant: "instant option")

definition ARMING_HEADROOM :: duration where
  "ARMING_HEADROOM = from_secs 1"

definition deadline_at :: "instant \<Rightarrow> deadline" where
  "deadline_at i = Deadline (map_option (\<lambda>_. i) (instant_checked_add i ARMING_HEADROOM))"

definition deadline_after :: "instant \<Rightarrow> duration \<Rightarrow> deadline" where
  "deadline_after started_at d =
     (case instant_checked_add started_at d of
        None \<Rightarrow> Deadline None
      | Some i \<Rightarrow> if d = 0 then Deadline (Some i) else deadline_at i)"

definition deadline_is_due :: "deadline \<Rightarrow> instant \<Rightarrow> bool" where
  "deadline_is_due d now = (case deadline_instant d of None \<Rightarrow> False | Some t \<Rightarrow> now \<ge> t)"

definition deadline_is_overdue :: "deadline \<Rightarrow> instant \<Rightarrow> bool" where
  "deadline_is_overdue d now = (case deadline_instant d of None \<Rightarrow> False | Some t \<Rightarrow> now > t)"

text \<open>\<open>DeadlineBudget\<close>, the public wrapper of a duration.\<close>

datatype deadline_budget = Deadline_Budget (budget_duration: duration)

definition budget_is_zero :: "deadline_budget \<Rightarrow> bool" where
  "budget_is_zero b \<longleftrightarrow> budget_duration b = 0"

definition deadline_after_budget :: "instant \<Rightarrow> deadline_budget \<Rightarrow> deadline" where
  "deadline_after_budget started_at b = deadline_after started_at (budget_duration b)"

lemma deadline_at_instant:
  "deadline_instant (deadline_at i) =
     (if i + ARMING_HEADROOM \<le> INSTANT_MAX then Some i else None)"
  by (simp add: deadline_at_def instant_checked_add_def)

lemma deadline_after_instant:
  "deadline_instant (deadline_after s d) =
     (if d = 0 \<and> s \<le> INSTANT_MAX \<or> s + d + ARMING_HEADROOM \<le> INSTANT_MAX
      then Some (s + d) else None)"
  by (auto simp: deadline_after_def deadline_at_instant instant_checked_add_def)

lemma deadline_after_Some: "deadline_instant (deadline_after s d) = Some t \<Longrightarrow> t = s + d"
  by (auto simp: deadline_after_instant split: if_splits)

lemma deadline_is_due_mono: "deadline_is_due d now \<Longrightarrow> now \<le> now' \<Longrightarrow> deadline_is_due d now'"
  by (auto simp: deadline_is_due_def split: option.splits)

section \<open>Properties\<close>

text \<open>
  A deadline is due exactly when the whole budget has elapsed on the clock, never
  earlier; a budget that ends within the arming headroom of the clock limit (or past it)
  never becomes due, except a zero budget, which is due at once. Dueness is stable as time
  passes, and an overdue deadline is due.
\<close>

theorem deadline_due_iff:
  "(deadline_is_due (deadline_after s d) now \<longleftrightarrow>
      s + d \<le> now \<and> (d = 0 \<and> s \<le> INSTANT_MAX \<or> s + d + ARMING_HEADROOM \<le> INSTANT_MAX)) \<and>
   (deadline_is_overdue (deadline_after s d) now \<longrightarrow> deadline_is_due (deadline_after s d) now) \<and>
   (deadline_is_due (deadline_after s d) now \<longrightarrow> deadline_is_due (deadline_after s d) (now + e))"
  by (auto simp: deadline_is_due_def deadline_is_overdue_def deadline_after_instant)

theorem deadline_due_iff_witness:
  "deadline_is_due (deadline_after 5 10) 15 \<and> \<not> deadline_is_due (deadline_after 5 10) 14 \<and>
   \<not> deadline_is_due (deadline_after INSTANT_MAX 1) (INSTANT_MAX + 1)"
  using deadline_due_iff [of 5 10 15 0] deadline_due_iff [of 5 10 14 0]
    deadline_due_iff [of INSTANT_MAX 1 "INSTANT_MAX + 1" 0]
  by (simp add: INSTANT_MAX_def ARMING_HEADROOM_def from_secs_def NANOS_PER_SEC_def)

end
