(* ===== verification/Exit.thy ===== *)
theory Exit
  imports Identity Clock "HOL-Library.Multiset"
begin

text \<open>
  Structured child exits and their classification: \<open>crates/shelterwood-core/src/exit.rs\<close>.
  An \<open>ExitError\<close> is a reference-counted allocation compared by address; the address is a
  component of the value and every constructor that allocates takes the new address.
  A type-erased user error is visible to the framework only through its display text.
\<close>

section \<open>Data\<close>

type_synonym arc = nat

datatype cancellation = NotObserved | Observed

datatype grace_phase = WithinGrace | AfterGrace

record intensity_trip =
  it_max_restarts :: u64
  it_observed_restarts :: u64
  it_within :: duration

datatype app_error = MessageError string | ErasedError string

datatype exit = Exit (exit_kind: exit_kind) (exit_cancellation: cancellation)
and exit_kind =
    Completed
  | Failed exit_error
  | Panicked "string option"
  | ReadinessTimedOut instant
  | Aborted grace_phase
  | ExitNeverStarted
and exit_error = ExitError (exit_error_arc: arc) (exit_error_inner: exit_error_inner)
and exit_error_inner =
    Application app_error
  | StructuredIntensityTrip intensity_trip
  | StructuredStartupFailure startup_failure
and startup_failure = StartupFailure (startup_failure_cause: startup_failure_cause)
and startup_failure_cause =
    ChildFailed child_id membership exit
  | Lowering "child_id list"

datatype stop_reason =
    Finished
  | ShutdownRequested
  | IntensityTripped intensity_trip
  | StartupFailed startup_failure
  | NeverStarted

type_synonym exit_result = "exit_error + unit"

section \<open>Errors\<close>

definition exit_error_message :: "arc \<Rightarrow> string \<Rightarrow> exit_error" where
  "exit_error_message a msg = ExitError a (Application (MessageError msg))"

text \<open>The blanket conversion of a user error, whose display text is \<open>msg\<close>.\<close>

definition exit_error_from :: "arc \<Rightarrow> string \<Rightarrow> exit_error" where
  "exit_error_from a msg = ExitError a (Application (ErasedError msg))"

definition structured_intensity_trip_error :: "arc \<Rightarrow> intensity_trip \<Rightarrow> exit_error" where
  "structured_intensity_trip_error a t = ExitError a (StructuredIntensityTrip t)"

definition structured_startup_failure_error :: "arc \<Rightarrow> startup_failure \<Rightarrow> exit_error" where
  "structured_startup_failure_error a f = ExitError a (StructuredStartupFailure f)"

definition exit_error_intensity_trip :: "exit_error \<Rightarrow> intensity_trip option" where
  "exit_error_intensity_trip e =
     (case exit_error_inner e of
        StructuredIntensityTrip t \<Rightarrow> Some t
      | Application _ \<Rightarrow> None
      | StructuredStartupFailure _ \<Rightarrow> None)"

definition exit_error_startup_failure :: "exit_error \<Rightarrow> startup_failure option" where
  "exit_error_startup_failure e =
     (case exit_error_inner e of
        StructuredStartupFailure f \<Rightarrow> Some f
      | Application _ \<Rightarrow> None
      | StructuredIntensityTrip _ \<Rightarrow> None)"

section \<open>Exits\<close>

definition exit_completed :: "cancellation \<Rightarrow> exit" where
  "exit_completed c = Exit Completed c"

definition exit_failed :: "exit_error \<Rightarrow> cancellation \<Rightarrow> exit" where
  "exit_failed e c = Exit (Failed e) c"

definition exit_panicked :: "string option \<Rightarrow> cancellation \<Rightarrow> exit" where
  "exit_panicked m c = Exit (Panicked m) c"

definition exit_readiness_timed_out :: "instant \<Rightarrow> cancellation \<Rightarrow> exit" where
  "exit_readiness_timed_out d c = Exit (ReadinessTimedOut d) c"

definition exit_aborted :: "grace_phase \<Rightarrow> cancellation \<Rightarrow> exit" where
  "exit_aborted p c = Exit (Aborted p) c"

definition exit_never_started :: exit where
  "exit_never_started = Exit ExitNeverStarted NotObserved"

definition is_failure :: "exit \<Rightarrow> bool" where
  "is_failure e = (case exit_kind e of Completed \<Rightarrow> False | _ \<Rightarrow> True)"

fun exit_kind_eq :: "exit_kind \<Rightarrow> exit_kind \<Rightarrow> bool" where
  "exit_kind_eq Completed Completed = True"
| "exit_kind_eq (Failed l) (Failed r) = (exit_error_arc l = exit_error_arc r)"
| "exit_kind_eq (Panicked l) (Panicked r) = (l = r)"
| "exit_kind_eq (ReadinessTimedOut l) (ReadinessTimedOut r) = (l = r)"
| "exit_kind_eq (Aborted l) (Aborted r) = (l = r)"
| "exit_kind_eq ExitNeverStarted ExitNeverStarted = True"
| "exit_kind_eq _ _ = False"

definition exit_eq :: "exit \<Rightarrow> exit \<Rightarrow> bool" where
  "exit_eq a b \<longleftrightarrow>
     exit_cancellation a = exit_cancellation b \<and> exit_kind_eq (exit_kind a) (exit_kind b)"

section \<open>Stop reasons\<close>

datatype stop_precedence =
    PFinished | PIntensityTripped | PStartupFailed | PShutdownRequested | PNeverStarted

fun stop_precedence_rank :: "stop_precedence \<Rightarrow> nat" where
  "stop_precedence_rank PFinished = 0"
| "stop_precedence_rank PIntensityTripped = 1"
| "stop_precedence_rank PStartupFailed = 2"
| "stop_precedence_rank PShutdownRequested = 3"
| "stop_precedence_rank PNeverStarted = 4"

lemma stop_precedence_rank_inj: "stop_precedence_rank a = stop_precedence_rank b \<Longrightarrow> a = b"
  by (cases a; cases b) simp_all

text \<open>The derived order of the source: the order of the variants.\<close>

instantiation stop_precedence :: linorder
begin

definition less_eq_stop_precedence :: "stop_precedence \<Rightarrow> stop_precedence \<Rightarrow> bool" where
  "less_eq_stop_precedence a b \<longleftrightarrow> stop_precedence_rank a \<le> stop_precedence_rank b"

definition less_stop_precedence :: "stop_precedence \<Rightarrow> stop_precedence \<Rightarrow> bool" where
  "less_stop_precedence a b \<longleftrightarrow> stop_precedence_rank a < stop_precedence_rank b"

instance
  by standard
    (auto simp: less_eq_stop_precedence_def less_stop_precedence_def stop_precedence_rank_inj)

end

fun stop_reason_precedence :: "stop_reason \<Rightarrow> stop_precedence" where
  "stop_reason_precedence Finished = PFinished"
| "stop_reason_precedence (IntensityTripped _) = PIntensityTripped"
| "stop_reason_precedence (StartupFailed _) = PStartupFailed"
| "stop_reason_precedence ShutdownRequested = PShutdownRequested"
| "stop_reason_precedence NeverStarted = PNeverStarted"

fun stop_reason_into_nested_result :: "arc \<Rightarrow> stop_reason \<Rightarrow> exit_result" where
  "stop_reason_into_nested_result a Finished = Inr ()"
| "stop_reason_into_nested_result a ShutdownRequested = Inr ()"
| "stop_reason_into_nested_result a (IntensityTripped t) =
     Inl (structured_intensity_trip_error a t)"
| "stop_reason_into_nested_result a (StartupFailed f) =
     Inl (structured_startup_failure_error a f)"
| "stop_reason_into_nested_result a NeverStarted =
     Inl (exit_error_message a ''nested scope never started'')"

fun stop_reason_root_exit :: "arc \<Rightarrow> stop_reason \<Rightarrow> exit" where
  "stop_reason_root_exit a Finished = exit_completed NotObserved"
| "stop_reason_root_exit a ShutdownRequested = exit_completed Observed"
| "stop_reason_root_exit a (IntensityTripped t) =
     exit_failed (structured_intensity_trip_error a t) NotObserved"
| "stop_reason_root_exit a (StartupFailed f) =
     exit_failed (structured_startup_failure_error a f) NotObserved"
| "stop_reason_root_exit a NeverStarted = exit_never_started"

section \<open>Classification\<close>

datatype 'a join_outcome = JoinOk 'a | JoinPanic "string option" | JoinCancelled

datatype recorded_outcome = RecordedOutcome (into_kind: exit_kind)

definition recorded_returned :: "exit_result \<Rightarrow> recorded_outcome" where
  "recorded_returned r =
     RecordedOutcome (case r of Inr _ \<Rightarrow> Completed | Inl e \<Rightarrow> Failed e)"

definition recorded_readiness_timed_out :: "instant \<Rightarrow> recorded_outcome" where
  "recorded_readiness_timed_out d = RecordedOutcome (ReadinessTimedOut d)"

definition recorded_aborted :: "grace_phase \<Rightarrow> recorded_outcome" where
  "recorded_aborted p = RecordedOutcome (Aborted p)"

definition recorded_is_failed :: "recorded_outcome \<Rightarrow> bool" where
  "recorded_is_failed r = (case into_kind r of Failed _ \<Rightarrow> True | _ \<Rightarrow> False)"

datatype outcome_rank =
    RNeverStarted | RCompleted | RAborted | RFailed | RReadinessTimedOut | RPanicked

fun outcome_rank_index :: "outcome_rank \<Rightarrow> nat" where
  "outcome_rank_index RNeverStarted = 0"
| "outcome_rank_index RCompleted = 1"
| "outcome_rank_index RAborted = 2"
| "outcome_rank_index RFailed = 3"
| "outcome_rank_index RReadinessTimedOut = 4"
| "outcome_rank_index RPanicked = 5"

lemma outcome_rank_index_inj: "outcome_rank_index a = outcome_rank_index b \<Longrightarrow> a = b"
  by (cases a; cases b) simp_all

instantiation outcome_rank :: linorder
begin

definition less_eq_outcome_rank :: "outcome_rank \<Rightarrow> outcome_rank \<Rightarrow> bool" where
  "less_eq_outcome_rank a b \<longleftrightarrow> outcome_rank_index a \<le> outcome_rank_index b"

definition less_outcome_rank :: "outcome_rank \<Rightarrow> outcome_rank \<Rightarrow> bool" where
  "less_outcome_rank a b \<longleftrightarrow> outcome_rank_index a < outcome_rank_index b"

instance
  by standard (auto simp: less_eq_outcome_rank_def less_outcome_rank_def outcome_rank_index_inj)

end

fun kind_rank :: "exit_kind \<Rightarrow> outcome_rank" where
  "kind_rank (Panicked _) = RPanicked"
| "kind_rank (ReadinessTimedOut _) = RReadinessTimedOut"
| "kind_rank (Failed _) = RFailed"
| "kind_rank (Aborted _) = RAborted"
| "kind_rank Completed = RCompleted"
| "kind_rank ExitNeverStarted = RNeverStarted"

definition prefer_earlier :: "exit_kind \<Rightarrow> exit_kind \<Rightarrow> exit_kind \<times> exit_kind" where
  "prefer_earlier earlier later =
     (if kind_rank earlier \<ge> kind_rank later then (earlier, later) else (later, earlier))"

fun reconcile_recorded_outcomes ::
  "recorded_outcome option \<Rightarrow> recorded_outcome option \<Rightarrow>
   recorded_outcome option \<times> recorded_outcome option" where
  "reconcile_recorded_outcomes (Some recorded) (Some forced) =
     (case prefer_earlier (into_kind recorded) (into_kind forced) of
        (selected, discarded) \<Rightarrow> (Some (RecordedOutcome selected), Some (RecordedOutcome discarded)))"
| "reconcile_recorded_outcomes (Some recorded) None = (Some recorded, None)"
| "reconcile_recorded_outcomes None (Some forced) = (Some forced, None)"
| "reconcile_recorded_outcomes None None = (None, None)"

definition join_kind :: "unit join_outcome \<Rightarrow> grace_phase option \<Rightarrow> exit_kind option" where
  "join_kind join hard_abort_phase =
     (case join of
        JoinOk _ \<Rightarrow> None
      | JoinPanic m \<Rightarrow> Some (Panicked m)
      | JoinCancelled \<Rightarrow>
          Some (Aborted (case hard_abort_phase of None \<Rightarrow> WithinGrace | Some p \<Rightarrow> p)))"

definition classify_exit ::
  "recorded_outcome option \<Rightarrow> unit join_outcome \<Rightarrow> grace_phase option \<Rightarrow> cancellation \<Rightarrow>
   exit \<times> exit option" where
  "classify_exit recorded join hard_abort_phase c =
     (case (case (map_option into_kind recorded, join_kind join hard_abort_phase) of
              (Some r, Some j) \<Rightarrow>
                (case prefer_earlier r j of (selected, discarded) \<Rightarrow> (selected, Some discarded))
            | (Some r, None) \<Rightarrow> (r, None)
            | (None, Some j) \<Rightarrow> (j, None)
            | (None, None) \<Rightarrow> (Aborted WithinGrace, None)) of
        (kind, discarded) \<Rightarrow> (Exit kind c, map_option (\<lambda>k. Exit k c) discarded))"

section \<open>The verdict as one rule\<close>

text \<open>
  A reference definition for the two-stage fold: among all evidence, in the order it was
  produced (task, supervisor, join), the first of the strongest.
\<close>

definition strongest :: "exit_kind list \<Rightarrow> exit_kind option" where
  "strongest ks = find (\<lambda>k. \<forall>k' \<in> set ks. kind_rank k' \<le> kind_rank k) ks"

definition evidence ::
  "recorded_outcome option \<Rightarrow> recorded_outcome option \<Rightarrow> unit join_outcome \<Rightarrow>
   grace_phase option \<Rightarrow> exit_kind list" where
  "evidence recorded forced join hard_abort_phase =
     (case recorded of None \<Rightarrow> [] | Some r \<Rightarrow> [into_kind r]) @
     (case forced of None \<Rightarrow> [] | Some f \<Rightarrow> [into_kind f]) @
     (case join_kind join hard_abort_phase of None \<Rightarrow> [] | Some j \<Rightarrow> [j])"

lemma strongest_Nil [simp]: "strongest [] = None"
  by (simp add: strongest_def)

lemma strongest_single [simp]: "strongest [a] = Some a"
  by (simp add: strongest_def)

lemma strongest_pair: "strongest [a, b] = Some (fst (prefer_earlier a b))"
  by (auto simp: strongest_def prefer_earlier_def)

lemma strongest_triple:
  "strongest [a, b, c] = Some (fst (prefer_earlier (fst (prefer_earlier a b)) c))"
  by (auto simp: strongest_def prefer_earlier_def)

definition option_mset :: "'a option \<Rightarrow> 'a multiset" where
  "option_mset x = (case x of None \<Rightarrow> {#} | Some a \<Rightarrow> {#a#})"

section \<open>Properties\<close>

text \<open>
  C14: Whatever the task recorded, the supervisor forced and the join reported, the final
  exit is the first of the strongest evidence in that order, independent of the two-stage
  evaluation, with an abort within grace when there is no evidence at all; the exit carries
  the observed cancellation unchanged.
\<close>

theorem verdict_is_strongest_evidence:
  "fst (classify_exit (fst (reconcile_recorded_outcomes recorded forced)) join phase c) =
     Exit (case strongest (evidence recorded forced join phase) of
             None \<Rightarrow> Aborted WithinGrace | Some k \<Rightarrow> k) c"
  by (cases recorded; cases forced; cases "join_kind join phase")
    (auto simp: classify_exit_def evidence_def strongest_pair strongest_triple split: prod.splits)

text \<open>
  C34: No evidence is lost or invented: the final exit, the exit discarded at the join and the
  outcome discarded at reconciliation are together exactly the evidence that was produced. The one
  exit without evidence behind it is an abort within the grace, given when nothing was recorded,
  nothing was forced and the join told nothing.
\<close>

theorem verdict_conserves_evidence:
  assumes "reconcile_recorded_outcomes recorded forced = (merged, lost)"
    and "classify_exit merged join phase c = (verdict, discarded)"
  shows "{#exit_kind verdict#} + image_mset exit_kind (option_mset discarded) +
           image_mset into_kind (option_mset lost) =
         (if evidence recorded forced join phase = [] then {#Aborted WithinGrace#}
          else mset (evidence recorded forced join phase))"
  using assms
  by (cases recorded; cases forced; cases "join_kind join phase")
    (auto simp: classify_exit_def evidence_def option_mset_def prefer_earlier_def
      split: if_splits)

theorem verdict_conserves_evidence_witness:
  "{#exit_kind (Exit (Panicked None) Observed)#} +
     image_mset exit_kind (option_mset (Some (Exit (ReadinessTimedOut 9) Observed))) +
     image_mset into_kind (option_mset (Some (RecordedOutcome Completed))) =
   mset (evidence (Some (recorded_returned (Inr ()))) (Some (recorded_readiness_timed_out 9))
     (JoinPanic None) None)"
proof -
  note eval = evidence_def join_kind_def recorded_returned_def recorded_readiness_timed_out_def prefer_earlier_def
    less_eq_outcome_rank_def classify_exit_def
  have r: "reconcile_recorded_outcomes (Some (recorded_returned (Inr ()))) (Some (recorded_readiness_timed_out 9)) =
      (Some (RecordedOutcome (ReadinessTimedOut 9)), Some (RecordedOutcome Completed))"
    "classify_exit (Some (RecordedOutcome (ReadinessTimedOut 9))) (JoinPanic None) None Observed =
      (Exit (Panicked None) Observed, Some (Exit (ReadinessTimedOut 9) Observed))"
    by (simp_all add: eval)
  have "evidence (Some (recorded_returned (Inr ()))) (Some (recorded_readiness_timed_out 9)) (JoinPanic None) None \<noteq> []"
    by (simp add: eval)
  with verdict_conserves_evidence [OF r] show ?thesis by presburger
qed

text \<open>
  The equality of exits is an equivalence relation, although failures compare by the
  identity of their error allocation only; and an exit never equals one of another kind.
\<close>

theorem exit_eq_equivalence:
  "exit_eq a a \<and> (exit_eq a b \<longleftrightarrow> exit_eq b a) \<and>
   (exit_eq a b \<longrightarrow> exit_eq b c \<longrightarrow> exit_eq a c) \<and>
   (exit_eq a b \<longrightarrow> kind_rank (exit_kind a) = kind_rank (exit_kind b))"
proof -
  have "exit_kind_eq k k" for k
    by (cases k) simp_all
  moreover have "exit_kind_eq k l \<longleftrightarrow> exit_kind_eq l k" for k l
    by (cases k; cases l) auto
  moreover have "exit_kind_eq k l \<Longrightarrow> exit_kind_eq l m \<Longrightarrow> exit_kind_eq k m" for k l m
    by (cases k; cases l; cases m) auto
  moreover have "exit_kind_eq k l \<Longrightarrow> kind_rank k = kind_rank l" for k l
    by (cases k; cases l) auto
  ultimately show ?thesis
    unfolding exit_eq_def by metis
qed

theorem exit_eq_equivalence_witness:
  "exit_eq (exit_failed (exit_error_message 1 ''x'') Observed)
           (exit_failed (exit_error_from 1 ''y'') Observed) \<and>
   kind_rank (exit_kind (exit_failed (exit_error_message 1 ''x'') Observed)) =
   kind_rank (exit_kind (exit_failed (exit_error_from 1 ''y'') Observed))"
  using exit_eq_equivalence [of "exit_failed (exit_error_message 1 ''x'') Observed"
      "exit_failed (exit_error_from 1 ''y'') Observed"]
  by (simp add: exit_eq_def exit_failed_def exit_error_message_def exit_error_from_def)

end
