(* ===== verification/Policy.thy ===== *)
theory Policy
  imports Exit Float64
begin

text \<open>
  Supervision policy and its resolution against inherited defaults:
  \<open>crates/shelterwood-core/src/policy.rs\<close>. Validating constructors return
  \<open>policy_error + value\<close>; the delay of an exponential backoff is computed in doubles, with
  the unspecified precision of \<open>powi\<close> as a parameter.
\<close>

section \<open>Counters and enumerations\<close>

datatype scope_flavor = Ordered | Dynamic

datatype restart_attempt = RestartAttempt (restart_attempt_get: u64)
datatype restart_count = RestartCount (restart_count_get: u64)
datatype total_restarts = TotalRestarts (total_restarts_get: u64)

definition restart_attempt_bump :: "restart_attempt \<Rightarrow> restart_attempt" where
  "restart_attempt_bump a = RestartAttempt (saturating_add_u64 (restart_attempt_get a) 1)"

definition restart_count_bump :: "restart_count \<Rightarrow> restart_count" where
  "restart_count_bump c = RestartCount (saturating_add_u64 (restart_count_get c) 1)"

definition total_restarts_bump :: "total_restarts \<Rightarrow> total_restarts" where
  "total_restarts_bump t = TotalRestarts (saturating_add_u64 (total_restarts_get t) 1)"

datatype child_mode = Restartable | OneShot

datatype policy_error =
    ZeroDuration | ZeroCapacity | InvalidBackoffFactor | BackoffMaximumBeforeBase
  | UnsupportedReadiness

datatype non_zero_duration = NonZeroDuration (non_zero_get: duration)

definition non_zero_duration_new :: "duration \<Rightarrow> policy_error + non_zero_duration" where
  "non_zero_duration_new d = (if d = 0 then Inl ZeroDuration else Inr (NonZeroDuration d))"

datatype restart_condition = Always | OnFailure | Never

datatype jitter = JitterNone | JitterEqual

section \<open>Backoff\<close>

datatype jitter_sample = JitterSample (jitter_sample_value: f64)

definition jitter_sample_new :: "f64 \<Rightarrow> jitter_sample" where
  "jitter_sample_new value =
     JitterSample
       (if f64_is_finite value
        then f64_clamp value (Fin 0) (f64_add (Fin 1) (f64_neg f64_EPSILON))
        else Fin 0)"

definition jitter_sample_from_u64_ratio :: "u64 \<Rightarrow> u64 \<Rightarrow> jitter_sample" where
  "jitter_sample_from_u64_ratio numerator denominator =
     jitter_sample_new (f64_div (f64_of_nat (unat numerator)) (f64_of_nat (unat denominator)))"

datatype backoff_factor = BackoffFactor (backoff_factor_get: f64)

definition backoff_factor_validate :: "backoff_factor \<Rightarrow> policy_error + unit" where
  "backoff_factor_validate f =
     (if f64_is_finite (backoff_factor_get f) \<and> f64_le (Fin 1) (backoff_factor_get f)
      then Inr () else Inl InvalidBackoffFactor)"

definition backoff_factor_new :: "f64 \<Rightarrow> policy_error + backoff_factor" where
  "backoff_factor_new value =
     (case backoff_factor_validate (BackoffFactor value) of
        Inl e \<Rightarrow> Inl e
      | Inr _ \<Rightarrow> Inr (BackoffFactor value))"

record fixed_backoff =
  fb_delay :: duration
  fb_jitter :: jitter

record exponential_backoff =
  eb_base :: duration
  eb_factor :: backoff_factor
  eb_max :: duration
  eb_jitter :: jitter

datatype backoff = Immediate | Fixed fixed_backoff | Exponential exponential_backoff

definition backoff_fixed :: "duration \<Rightarrow> jitter \<Rightarrow> policy_error + backoff" where
  "backoff_fixed delay j =
     (if delay = 0 then Inl ZeroDuration
      else Inr (Fixed \<lparr>fb_delay = delay, fb_jitter = j\<rparr>))"

definition backoff_exponential ::
  "duration \<Rightarrow> backoff_factor \<Rightarrow> duration \<Rightarrow> jitter \<Rightarrow> policy_error + backoff" where
  "backoff_exponential base factor maximum j =
     (if base = 0 \<or> maximum = 0 then Inl ZeroDuration
      else if maximum < base then Inl BackoffMaximumBeforeBase
      else Inr (Exponential
        \<lparr>eb_base = base, eb_factor = factor, eb_max = maximum, eb_jitter = j\<rparr>))"

definition duration_nanos :: "duration \<Rightarrow> f64" where
  "duration_nanos d = f64_of_nat d"

text \<open>\<open>Duration::new\<close> of a second count converted with \<open>u64::try_from(..).expect(..)\<close>.\<close>

definition duration_from_parts :: "string \<Rightarrow> nat \<Rightarrow> duration run" where
  "duration_from_parts message nanos =
     (let seconds = nanos div NANOS_PER_SEC; subsecond = nanos mod NANOS_PER_SEC
      in if seconds < 2 ^ 64 then Inr (seconds * NANOS_PER_SEC + subsecond)
         else Inl (Panic message))"

definition half_duration :: "duration \<Rightarrow> duration run" where
  "half_duration d =
     duration_from_parts ''a halved delay fits the duration range'' ((d + 1) div 2)"

definition duration_from_nanos :: "f64 \<Rightarrow> duration run" where
  "duration_from_nanos nanos =
     (let rounded = f64_round nanos
      in if \<not> f64_is_finite rounded \<or> f64_le (f64_of_nat DURATION_MAX) rounded
         then Inr DURATION_MAX
         else duration_from_parts ''a bounded nanosecond count fits the duration range''
                (f64_to_u128 (f64_max rounded (Fin 0))))"

text \<open>The exponent \<open>i32::try_from(attempt - 1).unwrap_or(i32::MAX)\<close>.\<close>

definition backoff_exponent :: "nat \<Rightarrow> nat" where
  "backoff_exponent attempt = (if attempt - 1 < 2 ^ 31 then attempt - 1 else 2 ^ 31 - 1)"

definition exponential_delay ::
  "(f64 \<Rightarrow> nat \<Rightarrow> f64) \<Rightarrow> exponential_backoff \<Rightarrow> nat \<Rightarrow> duration run" where
  "exponential_delay powi_f64 e attempt =
     (if attempt = 1 \<or> f64_eq (backoff_factor_get (eb_factor e)) (Fin 1) then Inr (eb_base e)
      else
        let nanos = f64_mul (duration_nanos (eb_base e))
              (powi_f64 (backoff_factor_get (eb_factor e)) (backoff_exponent attempt))
        in if f64_less nanos (duration_nanos (eb_max e)) then duration_from_nanos nanos
           else Inr (eb_max e))"

definition jittered_delay :: "jitter \<Rightarrow> jitter_sample \<Rightarrow> duration \<Rightarrow> duration run" where
  "jittered_delay j sample delay =
     (case j of
        JitterNone \<Rightarrow> Inr delay
      | JitterEqual \<Rightarrow>
          if f64_eq (jitter_sample_value sample) (Fin 0) then half_duration delay
          else
            run_bind
              (duration_from_nanos
                (f64_mul (duration_nanos delay)
                  (f64_add (Fin (1 / 2)) (f64_mul (jitter_sample_value sample) (Fin (1 / 2))))))
              (\<lambda>d. run_bind (half_duration delay) (\<lambda>h. Inr (max d h))))"

definition next_delay ::
  "(f64 \<Rightarrow> nat \<Rightarrow> f64) \<Rightarrow> backoff \<Rightarrow> restart_attempt \<Rightarrow> jitter_sample \<Rightarrow> duration run" where
  "next_delay powi_f64 b attempt sample =
     (let n = max (unat (restart_attempt_get attempt)) 1
      in case b of
           Immediate \<Rightarrow> Inr 0
         | Fixed f \<Rightarrow>
             run_bind (jittered_delay (fb_jitter f) sample (fb_delay f))
               (\<lambda>d. Inr (min d (fb_delay f)))
         | Exponential e \<Rightarrow>
             run_bind (exponential_delay powi_f64 e n)
               (\<lambda>delay. run_bind (jittered_delay (eb_jitter e) sample (min delay (eb_max e)))
                 (\<lambda>d. Inr (min d (eb_max e)))))"

section \<open>Restart, shutdown and readiness\<close>

record restart_policy =
  rp_condition :: restart_condition
  rp_backoff :: backoff

definition restart_policy_default :: restart_policy where
  "restart_policy_default = \<lparr>rp_condition = OnFailure, rp_backoff = Immediate\<rparr>"

definition restart_policy_is_never :: "restart_policy \<Rightarrow> bool" where
  "restart_policy_is_never p \<longleftrightarrow> rp_condition p = Never"

definition should_restart :: "restart_policy \<Rightarrow> exit \<Rightarrow> bool" where
  "should_restart p e =
     (case rp_condition p of Always \<Rightarrow> True | OnFailure \<Rightarrow> is_failure e | Never \<Rightarrow> False)"

datatype shutdown = Graceful non_zero_duration | AbortNow

definition DEFAULT_MAILBOX_CAPACITY :: nat where
  "DEFAULT_MAILBOX_CAPACITY = 64"

definition DEFAULT_SHUTDOWN_GRACE :: duration where
  "DEFAULT_SHUTDOWN_GRACE = from_secs 5"

definition DEFAULT_READINESS_DEADLINE :: duration where
  "DEFAULT_READINESS_DEADLINE = from_secs 30"

definition shutdown_default :: shutdown where
  "shutdown_default = Graceful (NonZeroDuration DEFAULT_SHUTDOWN_GRACE)"

definition shutdown_graceful :: "duration \<Rightarrow> policy_error + shutdown" where
  "shutdown_graceful grace =
     (case non_zero_duration_new grace of Inl e \<Rightarrow> Inl e | Inr g \<Rightarrow> Inr (Graceful g))"

datatype readiness = ReadyImmediate | AfterInit | Manual

datatype readiness_deadline = InheritDeadline | Bounded non_zero_duration | Unbounded

definition readiness_deadline_bounded :: "duration \<Rightarrow> policy_error + readiness_deadline" where
  "readiness_deadline_bounded d =
     (case non_zero_duration_new d of Inl e \<Rightarrow> Inl e | Inr n \<Rightarrow> Inr (Bounded n))"

record intensity =
  in_max_restarts :: u64
  in_within :: duration

definition intensity_new :: "u64 \<Rightarrow> duration \<Rightarrow> policy_error + intensity" where
  "intensity_new max_restarts window =
     (if window = 0 then Inl ZeroDuration
      else Inr \<lparr>in_max_restarts = max_restarts, in_within = window\<rparr>)"

definition intensity_default :: intensity where
  "intensity_default = \<lparr>in_max_restarts = 5, in_within = from_secs 30\<rparr>"

definition tidy_abort_beat :: "duration \<Rightarrow> duration" where
  "tidy_abort_beat grace = max (from_millis 1) (min (from_millis 10) (grace div 10))"

section \<open>Defaults and their resolution\<close>

type_synonym capacity = nat \<comment> \<open>\<open>NonZeroUsize\<close>: positive by construction\<close>

datatype mailbox = Queue "capacity option" | Latest

definition mailbox_queue :: "nat \<Rightarrow> policy_error + mailbox" where
  "mailbox_queue c = (if c = 0 then Inl ZeroCapacity else Inr (Queue (Some c)))"

definition mailbox_default :: mailbox where
  "mailbox_default = Queue (Some DEFAULT_MAILBOX_CAPACITY)"

datatype mailbox_shutdown = Drain | Discard
datatype retention = Retain | Remove
datatype defaults_inheritance = InheritDefaults | ResetDefaults

record scope_defaults =
  sd_child_restart :: "restart_policy option"
  sd_child_shutdown :: "shutdown option"
  sd_mailbox :: "mailbox option"
  sd_mailbox_shutdown :: "mailbox_shutdown option"
  sd_readiness_deadline :: readiness_deadline

record common_options =
  co_restart :: "restart_policy option"
  co_shutdown :: "shutdown option"
  co_mailbox :: "mailbox option"
  co_mailbox_shutdown :: "mailbox_shutdown option"
  co_readiness :: "readiness option"
  co_readiness_deadline :: readiness_deadline
  co_retention :: "retention option"

datatype resolved_mailbox_kind = QueueKind | LatestKind
datatype resolved_mailbox = ResolvedQueue capacity | ResolvedLatest
datatype resolved_readiness_deadline = ResolvedBounded non_zero_duration | ResolvedUnbounded

record resolved_defaults =
  rd_child_restart :: restart_policy
  rd_child_shutdown :: shutdown
  rd_mailbox_kind :: resolved_mailbox_kind
  rd_queue_capacity :: capacity
  rd_mailbox_shutdown :: mailbox_shutdown
  rd_readiness_deadline :: resolved_readiness_deadline

fun resolve_readiness_deadline ::
  "readiness_deadline \<Rightarrow> resolved_readiness_deadline \<Rightarrow> resolved_readiness_deadline" where
  "resolve_readiness_deadline InheritDeadline inherited = inherited"
| "resolve_readiness_deadline (Bounded d) inherited = ResolvedBounded d"
| "resolve_readiness_deadline Unbounded inherited = ResolvedUnbounded"

fun resolved_readiness_duration :: "resolved_readiness_deadline \<Rightarrow> duration option" where
  "resolved_readiness_duration (ResolvedBounded d) = Some (non_zero_get d)"
| "resolved_readiness_duration ResolvedUnbounded = None"

definition resolved_defaults_default :: resolved_defaults where
  "resolved_defaults_default =
     \<lparr>rd_child_restart = restart_policy_default,
      rd_child_shutdown = shutdown_default,
      rd_mailbox_kind = QueueKind,
      rd_queue_capacity = DEFAULT_MAILBOX_CAPACITY,
      rd_mailbox_shutdown = Drain,
      rd_readiness_deadline = ResolvedBounded (NonZeroDuration DEFAULT_READINESS_DEADLINE)\<rparr>"

definition defaults_mailbox :: "resolved_defaults \<Rightarrow> resolved_mailbox" where
  "defaults_mailbox d =
     (case rd_mailbox_kind d of
        QueueKind \<Rightarrow> ResolvedQueue (rd_queue_capacity d)
      | LatestKind \<Rightarrow> ResolvedLatest)"

definition resolve_child_mailbox :: "resolved_defaults \<Rightarrow> mailbox option \<Rightarrow> resolved_mailbox" where
  "resolve_child_mailbox d value =
     (case value of
        None \<Rightarrow> defaults_mailbox d
      | Some (Queue None) \<Rightarrow> ResolvedQueue (rd_queue_capacity d)
      | Some (Queue (Some c)) \<Rightarrow> ResolvedQueue c
      | Some Latest \<Rightarrow> ResolvedLatest)"

definition resolve :: "'a option \<Rightarrow> 'a \<Rightarrow> 'a" where
  "resolve value inherited = (case value of None \<Rightarrow> inherited | Some v \<Rightarrow> v)"

definition overlay :: "resolved_defaults \<Rightarrow> scope_defaults \<Rightarrow> resolved_defaults" where
  "overlay d values =
     (case (case sd_mailbox values of
              None \<Rightarrow> (rd_mailbox_kind d, rd_queue_capacity d)
            | Some (Queue None) \<Rightarrow> (QueueKind, rd_queue_capacity d)
            | Some (Queue (Some c)) \<Rightarrow> (QueueKind, c)
            | Some Latest \<Rightarrow> (LatestKind, rd_queue_capacity d)) of
        (mailbox_kind, queue_capacity) \<Rightarrow>
          \<lparr>rd_child_restart = resolve (sd_child_restart values) (rd_child_restart d),
           rd_child_shutdown = resolve (sd_child_shutdown values) (rd_child_shutdown d),
           rd_mailbox_kind = mailbox_kind,
           rd_queue_capacity = queue_capacity,
           rd_mailbox_shutdown = resolve (sd_mailbox_shutdown values) (rd_mailbox_shutdown d),
           rd_readiness_deadline =
             resolve_readiness_deadline (sd_readiness_deadline values) (rd_readiness_deadline d)\<rparr>)"

record resolved_common_options =
  ro_restart :: restart_policy
  ro_shutdown :: shutdown
  ro_mailbox :: resolved_mailbox
  ro_mailbox_shutdown :: mailbox_shutdown
  ro_readiness :: readiness
  ro_readiness_deadline :: resolved_readiness_deadline
  ro_retention :: retention

definition resolve_common ::
  "common_options \<Rightarrow> resolved_defaults \<Rightarrow> child_mode \<Rightarrow> readiness \<Rightarrow> resolved_common_options" where
  "resolve_common options defaults mode default_readiness =
     \<lparr>ro_restart =
        (if mode = OneShot then \<lparr>rp_condition = Never, rp_backoff = Immediate\<rparr>
         else resolve (co_restart options) (rd_child_restart defaults)),
      ro_shutdown = resolve (co_shutdown options) (rd_child_shutdown defaults),
      ro_mailbox = resolve_child_mailbox defaults (co_mailbox options),
      ro_mailbox_shutdown = resolve (co_mailbox_shutdown options) (rd_mailbox_shutdown defaults),
      ro_readiness = resolve (co_readiness options) default_readiness,
      ro_readiness_deadline =
        resolve_readiness_deadline (co_readiness_deadline options) (rd_readiness_deadline defaults),
      ro_retention =
        resolve (co_retention options) (if mode = OneShot then Remove else Retain)\<rparr>"

definition options_readiness_deadline :: "resolved_common_options \<Rightarrow> duration option" where
  "options_readiness_deadline options = resolved_readiness_duration (ro_readiness_deadline options)"

text \<open>The defaults a nested scope starts from (\<open>driver/spawn.rs\<close>).\<close>

definition edge_defaults ::
  "defaults_inheritance \<Rightarrow> resolved_defaults \<Rightarrow> resolved_defaults" where
  "edge_defaults edge defaults =
     (case edge of InheritDefaults \<Rightarrow> defaults | ResetDefaults \<Rightarrow> resolved_defaults_default)"

section \<open>Backoff delays\<close>

lemma intensity_default_valid: "intensity_new 5 (from_secs 30) = Inr intensity_default"
  by (simp add: intensity_new_def intensity_default_def from_secs_def NANOS_PER_SEC_def)

lemma floor_DURATION_MAX:
  "\<lfloor>18446744073709551615999999999 / 2199023255552 :: rat\<rfloor> = 8388607999999999"
  by (simp add: floor_eq_iff)

lemma f64_of_nat_DURATION_MAX: "f64_of_nat DURATION_MAX = Fin (2 ^ 64 * 10 ^ 9)"
  by (simp add: f64_of_nat_def f64_of_rat_def DURATION_MAX_def NANOS_PER_SEC_def binary_exponent_def
     int_bits.simps pow2_def round_half_even_def Let_def floor_DURATION_MAX)

lemma duration_from_parts_total:
  "n < 2 ^ 64 * 10 ^ 9 \<Longrightarrow> duration_from_parts message n = Inr n"
  by (auto simp: duration_from_parts_def Let_def NANOS_PER_SEC_def div_less_iff_less_mult)

lemma half_duration_total:
  "d \<le> DURATION_MAX \<Longrightarrow> half_duration d = Inr ((d + 1) div 2)"
  unfolding half_duration_def
  by (rule duration_from_parts_total) (simp add: DURATION_MAX_def NANOS_PER_SEC_def)

lemma f64_to_u128_less:
  assumes "f64_less x (Fin b)" "f64_is_finite x" "0 < b" "b = of_nat n"
  shows "f64_to_u128 (f64_max x (Fin 0)) < n"
  using assms by (cases x) (auto simp: nat_less_iff floor_less_iff min_less_iff_disj)

lemma duration_from_nanos_total: "\<exists>d \<le> DURATION_MAX. duration_from_nanos x = Inr d"
proof (cases "\<not> f64_is_finite (f64_round x) \<or> f64_le (f64_of_nat DURATION_MAX) (f64_round x)")
  case True
  then show ?thesis by (auto simp: duration_from_nanos_def Let_def)
next
  case False
  then obtain q where q: "f64_round x = Fin q" "q < 2 ^ 64 * 10 ^ 9"
    by (cases "f64_round x") (auto simp: f64_of_nat_DURATION_MAX f64_le_def)
  then have lt: "f64_to_u128 (f64_max (f64_round x) (Fin 0)) < 2 ^ 64 * 10 ^ 9"
    by (intro f64_to_u128_less [where b = "2 ^ 64 * 10 ^ 9"]) simp_all
  then have "f64_to_u128 (f64_max (f64_round x) (Fin 0)) \<le> DURATION_MAX"
    by (simp add: DURATION_MAX_def NANOS_PER_SEC_def)
  with False lt show ?thesis
    by (auto simp: duration_from_nanos_def Let_def duration_from_parts_total)
qed

text \<open>What the validating constructors promise, and the configured limit of the delay.\<close>

definition backoff_wf :: "backoff \<Rightarrow> bool" where
  "backoff_wf b =
     (case b of
        Immediate \<Rightarrow> True
      | Fixed f \<Rightarrow> 0 < fb_delay f \<and> fb_delay f \<le> DURATION_MAX
      | Exponential e \<Rightarrow>
          0 < eb_base e \<and> eb_base e \<le> eb_max e \<and> eb_max e \<le> DURATION_MAX)"

definition backoff_limit :: "backoff \<Rightarrow> duration" where
  "backoff_limit b =
     (case b of Immediate \<Rightarrow> 0 | Fixed f \<Rightarrow> fb_delay f | Exponential e \<Rightarrow> eb_max e)"

definition with_jitter :: "jitter \<Rightarrow> backoff \<Rightarrow> backoff" where
  "with_jitter j b =
     (case b of
        Immediate \<Rightarrow> Immediate
      | Fixed f \<Rightarrow> Fixed (f\<lparr>fb_jitter := j\<rparr>)
      | Exponential e \<Rightarrow> Exponential (e\<lparr>eb_jitter := j\<rparr>))"

lemma jittered_delay_total:
  assumes "delay \<le> DURATION_MAX"
  shows "\<exists>d. jittered_delay j sample delay = Inr d \<and> (delay + 1) div 2 \<le> d \<and>
             (j = JitterNone \<longrightarrow> d = delay)"
proof (cases j)
  case JitterNone
  then show ?thesis by (simp add: jittered_delay_def)
next
  case JitterEqual
  obtain d where "duration_from_nanos
      (f64_mul (duration_nanos delay)
        (f64_add (Fin (1 / 2)) (f64_mul (jitter_sample_value sample) (Fin (1 / 2))))) = Inr d"
    using duration_from_nanos_total by blast
  with JitterEqual assms show ?thesis
    by (simp add: jittered_delay_def half_duration_total)
qed

lemma exponential_delay_total: "\<exists>d. exponential_delay powi_f64 e n = Inr d"
  using duration_from_nanos_total by (fastforce simp: exponential_delay_def Let_def)

lemma exponential_delay_jitter [simp]:
  "exponential_delay powi_f64 (e\<lparr>eb_jitter := j\<rparr>) n = exponential_delay powi_f64 e n"
  by (simp add: exponential_delay_def Let_def)

lemma min_half: "(min a m + 1) div 2 \<le> d \<Longrightarrow> (min a m + 1) div 2 \<le> min d m" for a m d :: nat
  by (auto simp: min_def)

lemma next_delay_bounds:
  assumes "backoff_wf b"
  shows "\<exists>d0 d. next_delay powi_f64 (with_jitter JitterNone b) a s = Inr d0 \<and>
           next_delay powi_f64 b a s = Inr d \<and>
           d0 \<le> backoff_limit b \<and> (d0 + 1) div 2 \<le> d \<and> d \<le> backoff_limit b"
proof (cases b)
  case Immediate
  then show ?thesis by (simp add: next_delay_def with_jitter_def backoff_limit_def)
next
  case (Fixed f)
  with assms have le: "fb_delay f \<le> DURATION_MAX" by (simp add: backoff_wf_def)
  obtain d where d: "jittered_delay (fb_jitter f) s (fb_delay f) = Inr d" "(fb_delay f + 1) div 2 \<le> d"
    using jittered_delay_total [OF le] by blast
  obtain d0 where d0: "jittered_delay JitterNone s (fb_delay f) = Inr d0" "d0 = fb_delay f"
    using jittered_delay_total [OF le] by blast
  from Fixed d d0 min_half [of "fb_delay f" "fb_delay f" d] show ?thesis
    by (simp add: next_delay_def with_jitter_def backoff_limit_def)
next
  case (Exponential e)
  obtain x where x: "exponential_delay powi_f64 e (max (unat (restart_attempt_get a)) 1) = Inr x"
    using exponential_delay_total by blast
  from assms Exponential have le: "min x (eb_max e) \<le> DURATION_MAX"
    by (simp add: backoff_wf_def min_le_iff_disj)
  obtain d where d: "jittered_delay (eb_jitter e) s (min x (eb_max e)) = Inr d"
      "(min x (eb_max e) + 1) div 2 \<le> d"
    using jittered_delay_total [OF le] by blast
  obtain d0 where d0: "jittered_delay JitterNone s (min x (eb_max e)) = Inr d0" "d0 = min x (eb_max e)"
    using jittered_delay_total [OF le] by blast
  from Exponential x d d0 min_half [of x "eb_max e" d] show ?thesis
    by (simp add: next_delay_def with_jitter_def backoff_limit_def)
qed


lemma backoff_constructors_wf:
  "\<lbrakk>backoff_fixed d j = Inr b; d \<le> DURATION_MAX\<rbrakk> \<Longrightarrow> backoff_wf b"
  "\<lbrakk>backoff_exponential base f maximum j = Inr b; maximum \<le> DURATION_MAX\<rbrakk> \<Longrightarrow> backoff_wf b"
  by (auto simp: backoff_fixed_def backoff_exponential_def backoff_wf_def split: if_splits)

lemma next_delay_exact:
  assumes "backoff_wf b"
  shows "next_delay powi_f64 (with_jitter JitterNone b) a s =
     (case b of
        Immediate \<Rightarrow> Inr 0
      | Fixed f \<Rightarrow> Inr (fb_delay f)
      | Exponential e \<Rightarrow>
          if unat (restart_attempt_get a) \<le> 1 \<or> f64_eq (backoff_factor_get (eb_factor e)) (Fin 1)
          then Inr (eb_base e)
          else run_bind (exponential_delay powi_f64 e (unat (restart_attempt_get a)))
                 (\<lambda>d. Inr (min d (eb_max e))))"
  using assms
  by (cases b)
    (auto simp: next_delay_def with_jitter_def jittered_delay_def backoff_wf_def Let_def
      exponential_delay_def max_def min.absorb1 split: if_splits)

text \<open>
  C26: Whatever \<open>powi\<close> returns, the delay of a validated backoff is computed without a panic and
  never exceeds the configured limit. Without jitter, the first attempt (and every attempt under
  a factor of one) waits exactly the base; with jitter, the delay is at least half of the
  unjittered one.
\<close>

theorem restart_delay_bounded:
  assumes "backoff_wf b"
  shows "\<exists>plain d.
     next_delay powi_f64 (with_jitter JitterNone b) attempt sample = Inr plain \<and>
     next_delay powi_f64 b attempt sample = Inr d \<and>
     plain \<le> backoff_limit b \<and> (plain + 1) div 2 \<le> d \<and> d \<le> backoff_limit b \<and>
     (case b of
        Immediate \<Rightarrow> d = 0
      | Fixed f \<Rightarrow> plain = fb_delay f
      | Exponential e \<Rightarrow>
          unat (restart_attempt_get attempt) \<le> 1 \<or>
          f64_eq (backoff_factor_get (eb_factor e)) (Fin 1) \<longrightarrow> plain = eb_base e)"
  using next_delay_bounds [OF assms, of powi_f64 attempt sample]
    next_delay_exact [OF assms, of powi_f64 attempt sample]
  by (auto simp: backoff_limit_def split: backoff.split)

theorem restart_delay_bounded_witness:
  "\<exists>b plain d.
     backoff_exponential (from_millis 10) (BackoffFactor (Fin 2)) (from_millis 35) JitterEqual = Inr b \<and>
     next_delay (\<lambda>_ _. NaN) (with_jitter JitterNone b) (RestartAttempt 1) (JitterSample (Fin 0)) = Inr plain \<and>
     next_delay (\<lambda>_ _. NaN) b (RestartAttempt 1) (JitterSample (Fin 0)) = Inr d \<and>
     plain = from_millis 10 \<and> from_millis 5 \<le> d \<and> d \<le> from_millis 35"
proof -
  let ?b = "Exponential \<lparr>eb_base = from_millis 10, eb_factor = BackoffFactor (Fin 2),
               eb_max = from_millis 35, eb_jitter = JitterEqual\<rparr>"
  have "backoff_wf ?b"
    by (simp add: backoff_wf_def from_millis_def DURATION_MAX_def NANOS_PER_SEC_def)
  from restart_delay_bounded [OF this, of "\<lambda>_ _. NaN" "RestartAttempt 1" "JitterSample (Fin 0)"]
  show ?thesis
    by (auto simp: backoff_exponential_def from_millis_def backoff_limit_def)
qed

section \<open>Resolution picks the nearest declaration\<close>

text \<open>
  A chain of scopes from the root inwards, each with the inheritance mode of its edge and its own
  defaults. The reference definition looks a field up from the inside out.
\<close>

type_synonym scope_chain = "(defaults_inheritance \<times> scope_defaults) list"

definition chain_defaults :: "scope_chain \<Rightarrow> resolved_defaults" where
  "chain_defaults chain =
     foldl (\<lambda>d (edge, values). overlay (edge_defaults edge d) values)
       resolved_defaults_default chain"

fun visible_scopes :: "scope_chain \<Rightarrow> scope_defaults list" where
  "visible_scopes [] = []"
| "visible_scopes ((InheritDefaults, values) # chain) = values # visible_scopes chain"
| "visible_scopes ((ResetDefaults, values) # chain) = [values]"

definition nearest :: "('s \<Rightarrow> 'a option) \<Rightarrow> 's list \<Rightarrow> 'a \<Rightarrow> 'a" where
  "nearest f scopes library =
     (case List.map_filter f scopes of [] \<Rightarrow> library | v # _ \<Rightarrow> v)"

fun declared_kind :: "mailbox option \<Rightarrow> resolved_mailbox_kind option" where
  "declared_kind None = None"
| "declared_kind (Some (Queue _)) = Some QueueKind"
| "declared_kind (Some Latest) = Some LatestKind"

fun declared_capacity :: "mailbox option \<Rightarrow> capacity option" where
  "declared_capacity (Some (Queue c)) = c"
| "declared_capacity _ = None"

fun declared_deadline :: "readiness_deadline \<Rightarrow> resolved_readiness_deadline option" where
  "declared_deadline InheritDeadline = None"
| "declared_deadline (Bounded d) = Some (ResolvedBounded d)"
| "declared_deadline Unbounded = Some ResolvedUnbounded"

definition nearest_defaults :: "scope_defaults list \<Rightarrow> resolved_defaults" where
  "nearest_defaults scopes =
     (let d = resolved_defaults_default in
      \<lparr>rd_child_restart = nearest sd_child_restart scopes (rd_child_restart d),
       rd_child_shutdown = nearest sd_child_shutdown scopes (rd_child_shutdown d),
       rd_mailbox_kind = nearest (declared_kind \<circ> sd_mailbox) scopes (rd_mailbox_kind d),
       rd_queue_capacity = nearest (declared_capacity \<circ> sd_mailbox) scopes (rd_queue_capacity d),
       rd_mailbox_shutdown = nearest sd_mailbox_shutdown scopes (rd_mailbox_shutdown d),
       rd_readiness_deadline =
         nearest (declared_deadline \<circ> sd_readiness_deadline) scopes (rd_readiness_deadline d)\<rparr>)"

lemma nearest_simps [simp]:
  "nearest f [] d = d"
  "nearest f (s # scopes) d = resolve (f s) (nearest f scopes d)"
  by (simp_all add: nearest_def resolve_def map_filter_simps split: option.split)

lemma resolve_readiness_deadline_declared:
  "resolve_readiness_deadline v inherited = resolve (declared_deadline v) inherited"
  by (cases v) (simp_all add: resolve_def)

lemma overlay_nearest:
  "overlay (nearest_defaults scopes) values = nearest_defaults (values # scopes)"
  by (auto simp: overlay_def nearest_defaults_def Let_def resolve_readiness_deadline_declared
      split: option.split mailbox.split) (simp_all add: resolve_def)

lemma nearest_defaults_Nil: "nearest_defaults [] = resolved_defaults_default"
  by (simp add: nearest_defaults_def Let_def)

lemma overlay_library: "overlay resolved_defaults_default values = nearest_defaults [values]"
  using overlay_nearest [of "[]" "values"] by (simp only: nearest_defaults_Nil)

lemma resolve_child_mailbox_declared:
  "resolve_child_mailbox d v =
     (case resolve (declared_kind v) (rd_mailbox_kind d) of
        QueueKind \<Rightarrow> ResolvedQueue (resolve (declared_capacity v) (rd_queue_capacity d))
      | LatestKind \<Rightarrow> ResolvedLatest)"
  by (auto simp: resolve_child_mailbox_def defaults_mailbox_def resolve_def
      split: option.split mailbox.split resolved_mailbox_kind.split)

lemma chain_defaults_nearest: "chain_defaults chain = nearest_defaults (visible_scopes (rev chain))"
proof (induction chain rule: rev_induct)
  case Nil
  then show ?case
    by (simp add: chain_defaults_def nearest_defaults_Nil)
next
  case (snoc s chain)
  then show ?case
    by (cases s; cases "fst s")
      (simp_all add: chain_defaults_def edge_defaults_def overlay_nearest overlay_library)
qed

text \<open>
  C27: An option of a restartable child takes the nearest explicit declaration, looking first at
  the child's own options, then at the enclosing scopes from the inside out up to and including
  the first one attached with reset defaults, then at the library defaults. A mailbox's kind and
  its queue capacity are looked up separately. A one-shot child never restarts.
\<close>

theorem resolution_nearest_declaration_wins:
  "resolve_common options (chain_defaults chain) mode default_readiness =
     (let scopes = visible_scopes (rev chain); library = resolved_defaults_default;
          capacity = nearest (declared_capacity \<circ> sd_mailbox) scopes (rd_queue_capacity library)
      in \<lparr>ro_restart =
            (if mode = OneShot then \<lparr>rp_condition = Never, rp_backoff = Immediate\<rparr>
             else resolve (co_restart options)
                    (nearest sd_child_restart scopes (rd_child_restart library))),
          ro_shutdown = resolve (co_shutdown options)
            (nearest sd_child_shutdown scopes (rd_child_shutdown library)),
          ro_mailbox =
            (case resolve (declared_kind (co_mailbox options))
                    (nearest (declared_kind \<circ> sd_mailbox) scopes (rd_mailbox_kind library)) of
               QueueKind \<Rightarrow> ResolvedQueue (resolve (declared_capacity (co_mailbox options)) capacity)
             | LatestKind \<Rightarrow> ResolvedLatest),
          ro_mailbox_shutdown = resolve (co_mailbox_shutdown options)
            (nearest sd_mailbox_shutdown scopes (rd_mailbox_shutdown library)),
          ro_readiness = resolve (co_readiness options) default_readiness,
          ro_readiness_deadline = resolve (declared_deadline (co_readiness_deadline options))
            (nearest (declared_deadline \<circ> sd_readiness_deadline) scopes
               (rd_readiness_deadline library)),
          ro_retention = resolve (co_retention options)
            (if mode = OneShot then Remove else Retain)\<rparr>)"
  unfolding chain_defaults_nearest resolve_common_def resolve_readiness_deadline_declared
    resolve_child_mailbox_declared Let_def
  by (simp add: nearest_defaults_def Let_def split: resolved_mailbox_kind.split)

end
