(* ===== verification/Stop_Ladder.thy ===== *)
theory Stop_Ladder
  imports Policy "HOL-Library.Sublist"
begin

text \<open>
  Event arbitration and the per-child shutdown escalation machine of
  \<open>crates/shelterwood-core/src/engine.rs\<close>.
\<close>

section \<open>Arbitration\<close>

datatype arbitration_class =
    ScopeShutdown | MembershipRemoval | ChildExit | ReadinessSignal | ReadinessDeadline
  | BackoffDue | StopDeadline | Admission

fun arbitration_rank :: "arbitration_class \<Rightarrow> nat" where
  "arbitration_rank ScopeShutdown = 0"
| "arbitration_rank MembershipRemoval = 1"
| "arbitration_rank ChildExit = 2"
| "arbitration_rank ReadinessSignal = 3"
| "arbitration_rank ReadinessDeadline = 4"
| "arbitration_rank BackoffDue = 5"
| "arbitration_rank StopDeadline = 6"
| "arbitration_rank Admission = 7"

lemma arbitration_rank_inj: "arbitration_rank a = arbitration_rank b \<Longrightarrow> a = b"
  by (cases a; cases b) simp_all

instantiation arbitration_class :: linorder
begin

definition less_eq_arbitration_class :: "arbitration_class \<Rightarrow> arbitration_class \<Rightarrow> bool" where
  "less_eq_arbitration_class a b \<longleftrightarrow> arbitration_rank a \<le> arbitration_rank b"

definition less_arbitration_class :: "arbitration_class \<Rightarrow> arbitration_class \<Rightarrow> bool" where
  "less_arbitration_class a b \<longleftrightarrow> arbitration_rank a < arbitration_rank b"

instance
  by standard (auto simp: less_eq_arbitration_class_def less_arbitration_class_def
      dest: arbitration_rank_inj)

end

text \<open>The stable sort of the standard library, as the insertion sort it is equivalent to.\<close>

definition arbitrate :: "(arbitration_class \<times> 'a) list \<Rightarrow> (arbitration_class \<times> 'a) list" where
  "arbitrate events = sort_key fst events"

section \<open>The ladder\<close>

datatype stop_action =
    Cancel | Escalate | AbortFramework grace_phase | HardAbort grace_phase

datatype stop_phase =
    LadderIdle | Cooperative | Escalated | AbortingFramework | LadderFinished

record stop_ladder =
  sl_policy :: shutdown
  sl_phase :: stop_phase
  sl_deadline :: "instant option"
  sl_grace_phase :: grace_phase
  sl_force_requested :: bool
  sl_framework_driver :: bool
  sl_framework_abort_acked :: bool

definition with_framework_driver :: "shutdown \<Rightarrow> bool \<Rightarrow> stop_ladder" where
  "with_framework_driver policy framework_driver =
     \<lparr>sl_policy = policy, sl_phase = LadderIdle, sl_deadline = None,
      sl_grace_phase = WithinGrace, sl_force_requested = False,
      sl_framework_driver = framework_driver, sl_framework_abort_acked = False\<rparr>"

definition ladder_new :: "shutdown \<Rightarrow> stop_ladder" where
  "ladder_new policy = with_framework_driver policy False"

definition ladder_for_framework_driver :: "shutdown \<Rightarrow> stop_ladder" where
  "ladder_for_framework_driver policy = with_framework_driver policy True"

fun is_graceful :: "shutdown \<Rightarrow> bool" where
  "is_graceful (Graceful _) = True"
| "is_graceful AbortNow = False"

definition ladder_due :: "stop_ladder \<Rightarrow> instant \<Rightarrow> bool" where
  "ladder_due l now = (case sl_deadline l of None \<Rightarrow> False | Some d \<Rightarrow> d \<le> now)"

definition ladder_force :: "instant \<Rightarrow> stop_ladder \<Rightarrow> stop_ladder" where
  "ladder_force now l =
     (if sl_phase l = LadderFinished then l
      else
        let l1 =
          (if sl_phase l = Cooperative then
             let l2 = (if \<not> sl_force_requested l \<and> is_graceful (sl_policy l) \<and> ladder_due l now
                       then l\<lparr>sl_grace_phase := AfterGrace\<rparr> else l)
             in l2\<lparr>sl_deadline :=
                  Some (case sl_deadline l2 of None \<Rightarrow> now | Some d \<Rightarrow> min d now)\<rparr>
           else l)
        in l1\<lparr>sl_force_requested := True\<rparr>)"

definition acknowledge_framework_abort :: "stop_ladder \<Rightarrow> stop_ladder" where
  "acknowledge_framework_abort l =
     (if sl_phase l = AbortingFramework then l\<lparr>sl_framework_abort_acked := True\<rparr> else l)"

definition ladder_begin :: "instant \<Rightarrow> stop_ladder \<Rightarrow> stop_ladder" where
  "ladder_begin now l =
     l\<lparr>sl_phase := Cooperative,
       sl_deadline :=
         (if sl_force_requested l then Some now
          else case sl_policy l of
                 Graceful grace \<Rightarrow> deadline_instant (deadline_after now (non_zero_get grace))
               | AbortNow \<Rightarrow> Some now)\<rparr>"

definition ladder_escalate :: "instant \<Rightarrow> stop_ladder \<Rightarrow> stop_ladder" where
  "ladder_escalate now l =
     (let l1 = (if is_graceful (sl_policy l) \<and> \<not> sl_force_requested l
                then l\<lparr>sl_grace_phase := AfterGrace\<rparr> else l);
          grace = (case sl_policy l of Graceful grace \<Rightarrow> non_zero_get grace | AbortNow \<Rightarrow> 0);
          beat = (if sl_force_requested l then 0 else grace)
      in l1\<lparr>sl_phase := Escalated,
            sl_deadline := deadline_instant (deadline_after now (tidy_abort_beat beat))\<rparr>)"

definition ladder_advance :: "instant \<Rightarrow> stop_ladder \<Rightarrow> stop_action option \<times> stop_ladder" where
  "ladder_advance now l =
     (case sl_phase l of
        LadderIdle \<Rightarrow> (Some Cancel, ladder_begin now l)
      | Cooperative \<Rightarrow>
          if ladder_due l now then (Some Escalate, ladder_escalate now l) else (None, l)
      | Escalated \<Rightarrow>
          if ladder_due l now then
            if sl_framework_driver l then
              (Some (AbortFramework (sl_grace_phase l)),
               l\<lparr>sl_phase := AbortingFramework,
                 sl_deadline := deadline_instant (deadline_after now (tidy_abort_beat 0))\<rparr>)
            else
              (Some (HardAbort (sl_grace_phase l)),
               l\<lparr>sl_phase := LadderFinished, sl_deadline := None\<rparr>)
          else (None, l)
      | AbortingFramework \<Rightarrow>
          if ladder_due l now then
            (if sl_framework_abort_acked l then None else Some (HardAbort (sl_grace_phase l)),
             l\<lparr>sl_phase := LadderFinished, sl_deadline := None\<rparr>)
          else (None, l)
      | LadderFinished \<Rightarrow> (None, l))"

section \<open>Runs of a ladder\<close>

datatype ladder_event = LForce instant | LAck | LAdvance instant

fun ladder_step :: "stop_ladder \<Rightarrow> ladder_event \<Rightarrow> stop_action option \<times> stop_ladder" where
  "ladder_step l (LForce now) = (None, ladder_force now l)"
| "ladder_step l LAck = (None, acknowledge_framework_abort l)"
| "ladder_step l (LAdvance now) = ladder_advance now l"

fun ladder_run :: "stop_ladder \<Rightarrow> ladder_event list \<Rightarrow> stop_action list \<times> stop_ladder" where
  "ladder_run l [] = ([], l)"
| "ladder_run l (e # es) =
     (let (a, l') = ladder_step l e; (as, l'') = ladder_run l' es
      in (case a of None \<Rightarrow> as | Some x \<Rightarrow> x # as, l''))"

text \<open>The actions a ladder has emitted by the time it is in its current phase.\<close>

definition ladder_emitted :: "stop_ladder \<Rightarrow> stop_action list" where
  "ladder_emitted l =
     (case sl_phase l of
        LadderIdle \<Rightarrow> []
      | Cooperative \<Rightarrow> [Cancel]
      | Escalated \<Rightarrow> [Cancel, Escalate]
      | AbortingFramework \<Rightarrow> [Cancel, Escalate, AbortFramework (sl_grace_phase l)]
      | LadderFinished \<Rightarrow>
          [Cancel, Escalate] @
          (if sl_framework_driver l then [AbortFramework (sl_grace_phase l)] else []) @
          (if sl_framework_abort_acked l then [] else [HardAbort (sl_grace_phase l)]))"

definition ladder_inv :: "stop_ladder \<Rightarrow> bool" where
  "ladder_inv l \<longleftrightarrow>
     (sl_phase l = AbortingFramework \<longrightarrow> sl_framework_driver l) \<and>
     (sl_framework_abort_acked l \<longrightarrow>
        sl_framework_driver l \<and> sl_phase l \<in> {AbortingFramework, LadderFinished})"

lemmas ladder_defs =
  ladder_emitted_def ladder_inv_def ladder_force_def acknowledge_framework_abort_def
  ladder_advance_def ladder_begin_def ladder_escalate_def Let_def

lemma ladder_step_emitted:
  assumes "ladder_inv l" "ladder_step l e = (a, l')"
  shows "ladder_inv l'" "sl_framework_driver l' = sl_framework_driver l" "sl_policy l' = sl_policy l"
    "ladder_emitted l' = ladder_emitted l @ (case a of None \<Rightarrow> [] | Some x \<Rightarrow> [x])"
  using assms by (cases e; auto simp: ladder_defs split: stop_phase.splits if_splits)+

lemma ladder_run_emitted:
  assumes "ladder_inv l" "ladder_run l es = (as, l')"
  shows "ladder_inv l' \<and> sl_framework_driver l' = sl_framework_driver l \<and>
         sl_policy l' = sl_policy l \<and> ladder_emitted l' = ladder_emitted l @ as"
  using assms
proof (induction es arbitrary: l as)
  case (Cons e es)
  obtain a l1 where s: "ladder_step l e = (a, l1)" by force
  then obtain as1 where r: "ladder_run l1 es = (as1, l')"
      and as: "as = (case a of None \<Rightarrow> as1 | Some x \<Rightarrow> x # as1)"
    using Cons.prems(2) by (auto split: prod.splits)
  note st = ladder_step_emitted [OF Cons.prems(1) s]
  from Cons.IH [OF st(1) r] st as show ?case
    by (auto split: option.splits)
qed simp

lemma ladder_initial:
  "ladder_inv (with_framework_driver p fw)" "ladder_emitted (with_framework_driver p fw) = []"
  "sl_framework_driver (with_framework_driver p fw) = fw"
  "sl_policy (with_framework_driver p fw) = p"
  by (simp_all add: ladder_inv_def ladder_emitted_def with_framework_driver_def)

text \<open>
  C16: However a ladder is advanced, forced and acknowledged, the actions it emits are a prefix of
  cancel, escalate, abort the framework driver (only for a framework driver), hard abort: no
  action is repeated, skipped or reordered, and both aborts report the same grace phase. A
  finished ladder has emitted the hard abort unless the framework abort was acknowledged.
\<close>

theorem ladder_actions_ordered:
  assumes "ladder_run (with_framework_driver policy fw) events = (actions, l)"
  shows "\<exists>g. prefix actions
           ([Cancel, Escalate] @ (if fw then [AbortFramework g] else []) @ [HardAbort g]) \<and>
         (sl_phase l = LadderFinished \<longrightarrow>
            (HardAbort g \<in> set actions \<longleftrightarrow> \<not> sl_framework_abort_acked l) \<and>
            (sl_framework_abort_acked l \<longrightarrow> fw \<and> AbortFramework g \<in> set actions))"
proof (intro exI)
  have inv: "ladder_inv l" and fw: "sl_framework_driver l = fw" and act: "actions = ladder_emitted l"
    using ladder_run_emitted [OF ladder_initial(1) assms] by (simp_all add: ladder_initial)
  show "prefix actions ([Cancel, Escalate] @
          (if fw then [AbortFramework (sl_grace_phase l)] else []) @ [HardAbort (sl_grace_phase l)]) \<and>
        (sl_phase l = LadderFinished \<longrightarrow>
            (HardAbort (sl_grace_phase l) \<in> set actions \<longleftrightarrow> \<not> sl_framework_abort_acked l) \<and>
            (sl_framework_abort_acked l \<longrightarrow> fw \<and> AbortFramework (sl_grace_phase l) \<in> set actions))"
    using inv fw unfolding act
    by (cases "sl_phase l") (auto simp: ladder_emitted_def ladder_inv_def)
qed

definition decisive :: "instant option \<Rightarrow> ladder_event \<Rightarrow> bool" where
  "decisive d e =
     (case e of LForce _ \<Rightarrow> True | LAck \<Rightarrow> False
      | LAdvance t \<Rightarrow> (case d of None \<Rightarrow> False | Some x \<Rightarrow> x \<le> t))"

definition expired_at :: "instant option \<Rightarrow> ladder_event \<Rightarrow> bool" where
  "expired_at d e =
     (case (d, e) of (Some x, LForce t) \<Rightarrow> x \<le> t | (Some x, LAdvance t) \<Rightarrow> x \<le> t | _ \<Rightarrow> False)"

lemma ladder_grace_phase_stable:
  assumes "ladder_run l es = (as, l')"
    "sl_force_requested l \<or> \<not> is_graceful (sl_policy l) \<or> sl_phase l \<in> {Escalated, AbortingFramework, LadderFinished}"
  shows "sl_grace_phase l' = sl_grace_phase l"
  using assms
proof (induction es arbitrary: l as)
  case (Cons e es)
  obtain a l1 where s: "ladder_step l e = (a, l1)" by force
  then obtain as1 where r: "ladder_run l1 es = (as1, l')"
    using Cons.prems(1) by (auto split: prod.splits)
  from Cons.prems(2) s
  have "sl_grace_phase l1 = sl_grace_phase l"
    "sl_force_requested l1 \<or> \<not> is_graceful (sl_policy l1) \<or> sl_phase l1 \<in> {Escalated, AbortingFramework, LadderFinished}"
    by (cases e; auto simp: ladder_defs split: stop_phase.splits if_splits)+
  with Cons.IH [OF r] show ?case by simp
qed simp

lemma ladder_grace_phase_cooperative:
  assumes "ladder_run l es = (as, l')"
    "\<not> sl_force_requested l" "is_graceful (sl_policy l)" "sl_phase l = Cooperative"
    "sl_grace_phase l = WithinGrace"
  shows "sl_grace_phase l' = AfterGrace \<longleftrightarrow>
    (case find (decisive (sl_deadline l)) es of None \<Rightarrow> False | Some e \<Rightarrow> expired_at (sl_deadline l) e)"
  using assms
proof (induction es arbitrary: l as)
  case (Cons e es)
  obtain a l1 where s: "ladder_step l e = (a, l1)" by force
  then obtain as1 where r: "ladder_run l1 es = (as1, l')"
    using Cons.prems(1) by (auto split: prod.splits)
  show ?case
  proof (cases "decisive (sl_deadline l) e")
    case True
    with Cons.prems s
    have "sl_force_requested l1 \<or> sl_phase l1 = Escalated"
      and g: "sl_grace_phase l1 = AfterGrace \<longleftrightarrow> expired_at (sl_deadline l) e"
      by (cases e; auto simp: decisive_def expired_at_def ladder_defs ladder_due_def split: option.splits if_splits)+
    then have "sl_grace_phase l' = sl_grace_phase l1"
      using ladder_grace_phase_stable [OF r] by auto
    with True g show ?thesis by simp
  next
    case False
    with Cons.prems(2-5) s have l1: "l1 = l"
      by (cases e) (auto simp: decisive_def ladder_defs ladder_due_def split: option.splits if_splits)
    from False Cons.IH [OF r [unfolded l1]] Cons.prems show ?thesis by simp
  qed
qed simp


text \<open>
  C29: The grace phase a ladder reports says whether the grace really expired. After cancelling a
  graceful child at \<open>t0\<close>, the first force request or due advance decides: \<open>AfterGrace\<close> exactly when
  it comes at or after the grace deadline. An abort policy always reports
  \<open>WithinGrace\<close>.
\<close>

theorem grace_phase_provenance:
  assumes "ladder_run (with_framework_driver policy fw) (LAdvance t0 # events) = (actions, l)"
  shows "sl_grace_phase l = AfterGrace \<longleftrightarrow>
    (case policy of
       AbortNow \<Rightarrow> False
     | Graceful grace \<Rightarrow>
         (let d = deadline_instant (deadline_after t0 (non_zero_get grace))
          in case find (decisive d) events of None \<Rightarrow> False | Some e \<Rightarrow> expired_at d e))"
proof -
  let ?l0 = "with_framework_driver policy fw"
  let ?l1 = "ladder_begin t0 ?l0"
  obtain as1 where r: "ladder_run ?l1 events = (as1, l)"
    using assms by (auto simp: ladder_advance_def with_framework_driver_def split: prod.splits)
  have f: "sl_grace_phase ?l1 = WithinGrace" "sl_phase ?l1 = Cooperative"
    "\<not> sl_force_requested ?l1" "sl_policy ?l1 = policy"
    by (simp_all add: ladder_begin_def with_framework_driver_def)
  show ?thesis
  proof (cases policy)
    case (Graceful grace)
    then have d: "sl_deadline ?l1 = deadline_instant (deadline_after t0 (non_zero_get grace))"
      by (simp add: ladder_begin_def with_framework_driver_def)
    have "is_graceful (sl_policy ?l1)" using f Graceful by simp
    from ladder_grace_phase_cooperative [OF r f(3) this f(2,1), unfolded d] Graceful
    show ?thesis by (simp add: Let_def)
  next
    case AbortNow
    with ladder_grace_phase_stable [OF r] f show ?thesis by simp
  qed
qed

section \<open>The schedule of an unattended ladder\<close>

text \<open>
  An ideal driver of the ladder: it advances at \<open>now\<close> and is next woken exactly at the published deadline,
  with no force and no acknowledgement in between. The real driver may be woken late or early and sees
  other events; \<open>ladder_run\<close> above covers those, and this loop only gives the schedule its meaning. The
  ladder has five phases, so a fuel of four covers every run.
\<close>

fun ladder_drive :: "nat \<Rightarrow> instant \<Rightarrow> stop_ladder \<Rightarrow> (instant \<times> stop_action) list" where
  "ladder_drive 0 now l = []"
| "ladder_drive (Suc n) now l =
     (case ladder_advance now l of
        (a, l') \<Rightarrow>
          (case a of None \<Rightarrow> [] | Some x \<Rightarrow> [(now, x)]) @
          (case sl_deadline l' of None \<Rightarrow> [] | Some d \<Rightarrow> ladder_drive n (max now d) l'))"

definition abort_tail :: "bool \<Rightarrow> instant \<Rightarrow> grace_phase \<Rightarrow> (instant \<times> stop_action) list" where
  "abort_tail fw t g =
     (if fw then [(t, AbortFramework g), (t + from_millis 1, HardAbort g)] else [(t, HardAbort g)])"

lemma tidy_abort_beat_bounds: "from_millis 1 \<le> tidy_abort_beat g" "tidy_abort_beat g \<le> from_millis 10"
  by (simp_all add: tidy_abort_beat_def from_millis_def)

lemma tidy_abort_beat_0: "tidy_abort_beat 0 = from_millis 1"
  by (simp add: tidy_abort_beat_def)

lemma ladder_drive_escalated:
  assumes "sl_phase l = Escalated" "sl_deadline l = Some t" "\<not> sl_framework_abort_acked l"
    "t + from_millis 1 + ARMING_HEADROOM \<le> INSTANT_MAX"
  shows "ladder_drive (Suc (Suc n)) t l = abort_tail (sl_framework_driver l) t (sl_grace_phase l)"
proof -
  have "(0::nat) < from_millis 1" by (simp add: from_millis_def)
  with assms show ?thesis
    by (simp add: ladder_advance_def ladder_due_def abort_tail_def deadline_after_instant
        tidy_abort_beat_0 ac_simps)
qed

lemma ladder_drive_cooperative:
  assumes "sl_phase l = Cooperative" "ladder_due l now" "\<not> sl_framework_abort_acked l"
    "now + from_millis 11 + ARMING_HEADROOM \<le> INSTANT_MAX"
  shows "ladder_drive (Suc (Suc (Suc n))) now l =
    (let beat = tidy_abort_beat (if sl_force_requested l then 0 else
                  case sl_policy l of Graceful g \<Rightarrow> non_zero_get g | AbortNow \<Rightarrow> 0)
     in (now, Escalate) # abort_tail (sl_framework_driver l) (now + beat)
          (if is_graceful (sl_policy l) \<and> \<not> sl_force_requested l then AfterGrace
           else sl_grace_phase l))"
proof -
  let ?beat = "tidy_abort_beat (if sl_force_requested l then 0 else
                  case sl_policy l of Graceful g \<Rightarrow> non_zero_get g | AbortNow \<Rightarrow> 0)"
  let ?l = "ladder_escalate now l"
  have adv: "ladder_advance now l = (Some Escalate, ?l)"
    using assms by (simp add: ladder_advance_def)
  have le: "now + ?beat + from_millis 1 + ARMING_HEADROOM \<le> INSTANT_MAX" and pos: "0 < ?beat"
    using assms(4) tidy_abort_beat_bounds [of "if sl_force_requested l then 0 else
                  case sl_policy l of Graceful g \<Rightarrow> non_zero_get g | AbortNow \<Rightarrow> 0"]
    unfolding from_millis_def by linarith+
  have d: "sl_deadline ?l = Some (now + ?beat)"
    using le by (simp add: ladder_escalate_def Let_def deadline_after_instant)
  have f: "sl_phase ?l = Escalated" "sl_framework_driver ?l = sl_framework_driver l"
    "\<not> sl_framework_abort_acked ?l"
    "sl_grace_phase ?l = (if is_graceful (sl_policy l) \<and> \<not> sl_force_requested l then AfterGrace
           else sl_grace_phase l)"
    using assms by (simp_all add: ladder_escalate_def Let_def)
  from ladder_drive_escalated [OF f(1) d f(3) le, of n] d
  show ?thesis
    unfolding ladder_drive.simps(2) [of "Suc (Suc n)"] adv
    by (simp add: f Let_def)
qed

text \<open>
  C15: A stop that nobody interferes with follows a fixed schedule. When the clock can represent the end of
  the ladder (the grace, eleven milliseconds and the arming headroom after the stop), a graceful child is
  cancelled at once, escalated when its grace ends and hard-aborted one tidy beat later; an abort policy
  escalates at once. A framework driver is asked to abort first and gets one more millisecond. So
  the ladder ends within the grace plus eleven milliseconds. A grace too long for the clock is
  never armed: the child is cancelled, and until someone forces the stop no later advance does anything.
\<close>

theorem stop_schedule_exact:
  "(t + (case policy of Graceful g \<Rightarrow> non_zero_get g | AbortNow \<Rightarrow> 0) + from_millis 11 + ARMING_HEADROOM \<le> INSTANT_MAX \<longrightarrow>
     ladder_drive (4 + n) t (with_framework_driver policy fw) =
       (t, Cancel) #
       (case policy of
          Graceful g \<Rightarrow>
            (t + non_zero_get g, Escalate) #
            abort_tail fw (t + non_zero_get g + tidy_abort_beat (non_zero_get g)) AfterGrace
        | AbortNow \<Rightarrow> (t, Escalate) # abort_tail fw (t + from_millis 1) WithinGrace)) \<and>
   (\<forall>g. policy = Graceful g \<and> 0 < non_zero_get g \<and> INSTANT_MAX < t + non_zero_get g + ARMING_HEADROOM \<longrightarrow>
     ladder_drive (Suc n) t (with_framework_driver policy fw) = [(t, Cancel)] \<and>
     (\<forall>now. ladder_advance now (snd (ladder_advance t (with_framework_driver policy fw))) =
        (None, snd (ladder_advance t (with_framework_driver policy fw)))))"
  (is "(?armed \<longrightarrow> ?schedule) \<and> ?parked")
proof (intro conjI impI)
  assume assms: ?armed
  show ?schedule
  proof -
    let ?g = "case policy of Graceful g \<Rightarrow> non_zero_get g | AbortNow \<Rightarrow> 0"
    let ?l = "ladder_begin t (with_framework_driver policy fw)"
    have d: "sl_deadline ?l = Some (t + ?g)"
      using assms
      by (cases policy) (auto simp: ladder_begin_def with_framework_driver_def deadline_after_instant)
    have f: "sl_phase ?l = Cooperative" "ladder_due ?l (t + ?g)" "\<not> sl_framework_abort_acked ?l"
      "sl_framework_driver ?l = fw" "sl_policy ?l = policy" "\<not> sl_force_requested ?l"
      "sl_grace_phase ?l = WithinGrace"
      using d by (simp_all add: ladder_begin_def with_framework_driver_def ladder_due_def)
    have adv: "ladder_advance t (with_framework_driver policy fw) = (Some Cancel, ?l)"
      by (simp add: ladder_advance_def with_framework_driver_def)
    have n: "4 + n = Suc (Suc (Suc (Suc n)))" by simp
    from ladder_drive_cooperative [OF f(1-3) assms, of n] d f
    show ?thesis
      unfolding n ladder_drive.simps(2) [of "Suc (Suc (Suc n))"] adv
      by (simp add: Let_def tidy_abort_beat_0 split: shutdown.splits)
  qed
next
  show ?parked
    by (auto simp: ladder_advance_def ladder_begin_def ladder_due_def with_framework_driver_def deadline_after_instant)
qed


text \<open>
  C30: A force request during the grace cuts it short without rewinding the ladder: whatever the
  grace (even one too long for the clock), a child forced at \<open>f\<close> before the grace ends is escalated
  at \<open>f\<close> and hard-aborted one millisecond later, reported as within its grace. Repeating
  the request does not rewind it: advanced at the repeat, it escalates there.
\<close>

theorem forced_stop_schedule:
  assumes "t \<le> f" "f \<le> f'" "f' + from_millis 11 + ARMING_HEADROOM \<le> INSTANT_MAX"
    "case policy of Graceful g \<Rightarrow> f < t + non_zero_get g | AbortNow \<Rightarrow> True"
    "ladder_advance t (with_framework_driver policy fw) = (a, l)"
  shows "ladder_drive (3 + n) f (ladder_force f l) =
           (f, Escalate) # abort_tail fw (f + from_millis 1) WithinGrace \<and>
         ladder_drive (3 + n) f' (ladder_force f' (ladder_force f l)) =
           (f', Escalate) # abort_tail fw (f' + from_millis 1) WithinGrace"
proof -
  let ?l = "ladder_begin t (with_framework_driver policy fw)"
  have l: "l = ?l" using assms(5) by (simp add: ladder_advance_def with_framework_driver_def)
  have b: "sl_phase ?l = Cooperative" "\<not> sl_framework_abort_acked ?l" "sl_framework_driver ?l = fw"
    "sl_policy ?l = policy" "\<not> sl_force_requested ?l" "sl_grace_phase ?l = WithinGrace"
    by (simp_all add: ladder_begin_def with_framework_driver_def)
  have notdue: "is_graceful policy \<Longrightarrow> \<not> ladder_due ?l f"
    using assms(4) by (cases policy) (auto simp: ladder_begin_def with_framework_driver_def
        ladder_due_def deadline_after_instant)
  have n: "3 + n = Suc (Suc (Suc n))" by simp
  have forced: "ladder_drive (3 + n) x m = (x, Escalate) # abort_tail fw (x + from_millis 1) WithinGrace"
    if "sl_phase m = Cooperative" "\<not> sl_framework_abort_acked m" "sl_framework_driver m = fw"
      "sl_force_requested m" "sl_grace_phase m = WithinGrace" "ladder_due m x" "x \<le> f'" for x m
    using ladder_drive_cooperative [of m x n] that assms(3) unfolding n
    by (simp add: Let_def tidy_abort_beat_0)
  let ?m = "ladder_force f ?l" and ?m' = "ladder_force f' (ladder_force f ?l)"
  have m: "sl_phase ?m = Cooperative" "\<not> sl_framework_abort_acked ?m" "sl_framework_driver ?m = fw"
      "sl_force_requested ?m" "sl_grace_phase ?m = WithinGrace" "ladder_due ?m f"
    using b notdue by (auto simp: ladder_force_def Let_def ladder_due_def split: option.splits)
  have m': "sl_phase ?m' = Cooperative" "\<not> sl_framework_abort_acked ?m'" "sl_framework_driver ?m' = fw"
      "sl_force_requested ?m'" "sl_grace_phase ?m' = WithinGrace" "ladder_due ?m' f'"
    using m by (auto simp: ladder_force_def [of f'] Let_def ladder_due_def split: option.splits)
  show ?thesis unfolding l using forced [OF m] forced [OF m'] assms(2) by simp
qed

section \<open>Witnesses\<close>

definition demo_policy :: shutdown where
  "demo_policy = Graceful (NonZeroDuration (from_millis 5))"

lemmas ladder_eval = ladder_defs demo_policy_def with_framework_driver_def deadline_after_instant
  tidy_abort_beat_def from_millis_def from_secs_def NANOS_PER_SEC_def INSTANT_MAX_def ARMING_HEADROOM_def
  ladder_due_def

theorem ladder_actions_ordered_witness:
  "\<exists>l g. ladder_run (with_framework_driver demo_policy True)
          [LAdvance 0, LForce 1, LAdvance 1, LAdvance 2000000, LAck, LAdvance 3000001] =
            ([Cancel, Escalate, AbortFramework WithinGrace], l) \<and>
        prefix [Cancel, Escalate, AbortFramework WithinGrace]
          ([Cancel, Escalate] @ [AbortFramework g] @ [HardAbort g]) \<and> sl_phase l = LadderFinished"
proof -
  let ?es = "[LAdvance 0, LForce 1, LAdvance 1, LAdvance 2000000, LAck, LAdvance 3000001]"
  obtain l where r: "ladder_run (with_framework_driver demo_policy True) ?es =
      ([Cancel, Escalate, AbortFramework WithinGrace], l)" and f: "sl_phase l = LadderFinished"
    by (simp add: ladder_eval)
  from ladder_actions_ordered [OF r] r f show ?thesis by auto
qed

theorem grace_phase_provenance_witness:
  "\<exists>actions l. ladder_run (with_framework_driver demo_policy False)
      [LAdvance 0, LAdvance 4000000, LForce 5000000] = (actions, l) \<and> sl_grace_phase l = AfterGrace"
proof -
  obtain actions l where r: "ladder_run (with_framework_driver demo_policy False)
      (LAdvance 0 # [LAdvance 4000000, LForce 5000000]) = (actions, l)"
    by force
  from grace_phase_provenance [OF r] have "sl_grace_phase l = AfterGrace"
    by (simp add: demo_policy_def decisive_def expired_at_def deadline_after_instant
        from_millis_def from_secs_def NANOS_PER_SEC_def INSTANT_MAX_def ARMING_HEADROOM_def)
  with r show ?thesis by blast
qed

theorem stop_schedule_exact_witness:
  "ladder_drive 4 7 (with_framework_driver demo_policy False) =
     [(7, Cancel), (5000007, Escalate), (6000007, HardAbort AfterGrace)] \<and>
   ladder_drive 4 7 (with_framework_driver (Graceful (NonZeroDuration INSTANT_MAX)) False) = [(7, Cancel)]"
  using stop_schedule_exact [THEN conjunct1, of 7 demo_policy 0 False]
    stop_schedule_exact [THEN conjunct2, of "Graceful (NonZeroDuration INSTANT_MAX)" 7 3 False]
  by (simp add: demo_policy_def abort_tail_def tidy_abort_beat_def from_millis_def from_secs_def
      NANOS_PER_SEC_def INSTANT_MAX_def ARMING_HEADROOM_def)

theorem forced_stop_schedule_witness:
  "ladder_drive 3 10 (ladder_force 10 (snd (ladder_advance 7 (with_framework_driver demo_policy False)))) =
     [(10, Escalate), (1000010, HardAbort WithinGrace)]"
  using forced_stop_schedule [of 7 10 10 demo_policy False _ _ 0, OF _ _ _ _ surjective_pairing]
  by (simp add: demo_policy_def abort_tail_def from_millis_def from_secs_def
      NANOS_PER_SEC_def INSTANT_MAX_def ARMING_HEADROOM_def)

end
