(* ===== verification/Readiness.thy ===== *)
theory Readiness
  imports Policy
begin

text \<open>
  The per-incarnation readiness gate of
  \<open>crates/shelterwood-core/src/engine/readiness.rs\<close>.
\<close>

datatype readiness_state = Waiting "instant option" | GateReady | GateDisarmed

datatype readiness_gate = ReadinessGate (gate_state: readiness_state)

datatype readiness_event =
    Signal
  | DeadlineEvent instant bool \<comment> \<open>\<open>now\<close>, \<open>signal_seen\<close>\<close>
  | ShutdownEvent
  | ExitEvent bool \<comment> \<open>\<open>signal_seen\<close>\<close>

datatype readiness_effect =
    BecameReady | ArmDeadline instant | TimedOut instant | Disarmed

definition gate_configure ::
  "readiness \<Rightarrow> instant option \<Rightarrow> readiness_gate \<times> readiness_effect option" where
  "gate_configure r d =
     (case r of
        ReadyImmediate \<Rightarrow> (ReadinessGate GateReady, Some BecameReady)
      | _ \<Rightarrow> (ReadinessGate (Waiting d), map_option ArmDeadline d))"

definition needs_signal_watch :: "readiness_gate \<Rightarrow> bool" where
  "needs_signal_watch g = (case gate_state g of Waiting _ \<Rightarrow> True | _ \<Rightarrow> False)"

fun gate_step :: "readiness_gate \<Rightarrow> readiness_event \<Rightarrow> readiness_effect option \<times> readiness_gate" where
  "gate_step (ReadinessGate (Waiting d)) Signal = (Some BecameReady, ReadinessGate GateReady)"
| "gate_step (ReadinessGate (Waiting d)) (DeadlineEvent now seen) =
     (if seen then (Some BecameReady, ReadinessGate GateReady)
      else case d of
             Some deadline \<Rightarrow>
               if deadline \<le> now then (Some (TimedOut deadline), ReadinessGate GateDisarmed)
               else (None, ReadinessGate (Waiting d))
           | None \<Rightarrow> (None, ReadinessGate (Waiting d)))"
| "gate_step (ReadinessGate (Waiting d)) ShutdownEvent =
     (Some Disarmed, ReadinessGate GateDisarmed)"
| "gate_step (ReadinessGate (Waiting d)) (ExitEvent seen) =
     (if seen then (Some BecameReady, ReadinessGate GateReady)
      else (Some Disarmed, ReadinessGate GateDisarmed))"
| "gate_step (ReadinessGate GateReady) event = (None, ReadinessGate GateReady)"
| "gate_step (ReadinessGate GateDisarmed) event = (None, ReadinessGate GateDisarmed)"

section \<open>Runs of a gate\<close>

fun gate_run :: "readiness_gate \<Rightarrow> readiness_event list \<Rightarrow> readiness_effect list \<times> readiness_gate" where
  "gate_run g [] = ([], g)"
| "gate_run g (e # es) =
     (let (x, g') = gate_step g e; (xs, g'') = gate_run g' es
      in (case x of None \<Rightarrow> xs | Some y \<Rightarrow> y # xs, g''))"

text \<open>The verdict a waiting gate reaches on one event, if the event decides it.\<close>

fun gate_verdict :: "instant option \<Rightarrow> readiness_event \<Rightarrow> readiness_effect option" where
  "gate_verdict d Signal = Some BecameReady"
| "gate_verdict d (DeadlineEvent now seen) =
     (if seen then Some BecameReady
      else case d of None \<Rightarrow> None | Some t \<Rightarrow> if t \<le> now then Some (TimedOut t) else None)"
| "gate_verdict d ShutdownEvent = Some Disarmed"
| "gate_verdict d (ExitEvent seen) = Some (if seen then BecameReady else Disarmed)"

definition first_verdict :: "instant option \<Rightarrow> readiness_event list \<Rightarrow> readiness_effect option" where
  "first_verdict d es = (case List.map_filter (gate_verdict d) es of [] \<Rightarrow> None | v # _ \<Rightarrow> Some v)"

lemma gate_run_settled:
  "gate_run (ReadinessGate GateReady) es = ([], ReadinessGate GateReady)"
  "gate_run (ReadinessGate GateDisarmed) es = ([], ReadinessGate GateDisarmed)"
  by (induction es) simp_all

lemma gate_step_waiting:
  "gate_step (ReadinessGate (Waiting d)) e =
     (case gate_verdict d e of
        None \<Rightarrow> (None, ReadinessGate (Waiting d))
      | Some BecameReady \<Rightarrow> (Some BecameReady, ReadinessGate GateReady)
      | Some v \<Rightarrow> (Some v, ReadinessGate GateDisarmed))"
  by (cases e) (auto split: option.split)

lemma gate_verdict_not_arm: "gate_verdict d e \<noteq> Some (ArmDeadline t)"
  by (cases e) (auto split: option.split)

lemma gate_run_waiting:
  "gate_run (ReadinessGate (Waiting d)) es =
     (case first_verdict d es of
        None \<Rightarrow> ([], ReadinessGate (Waiting d))
      | Some BecameReady \<Rightarrow> ([BecameReady], ReadinessGate GateReady)
      | Some v \<Rightarrow> ([v], ReadinessGate GateDisarmed))"
proof (induction es)
  case Nil
  then show ?case by (simp add: first_verdict_def map_filter_simps)
next
  case (Cons e es)
  then show ?case
    by (cases "gate_verdict d e")
      (auto simp: first_verdict_def map_filter_simps gate_step_waiting gate_run_settled
        split: readiness_effect.split)
qed

text \<open>
  C31: A configured gate reports at most one verdict for its incarnation, the one of the first
  event that decides it: a signal (or a signal seen by the exit or at the deadline) makes it
  ready, an unsignalled deadline event at or after the deadline times out, and shutdown or an
  unsignalled exit disarms it. A gate without a deadline never times out.
\<close>

theorem readiness_first_verdict_wins:
  "case gate_configure r d of
     (gate, configured) \<Rightarrow>
       fst (gate_run gate events) =
         (if r = ReadyImmediate then [] else
            case first_verdict d events of None \<Rightarrow> [] | Some v \<Rightarrow> [v]) \<and>
       configured = (if r = ReadyImmediate then Some BecameReady else map_option ArmDeadline d) \<and>
       (snd (gate_run gate events) = ReadinessGate GateReady \<longleftrightarrow>
          r = ReadyImmediate \<or> first_verdict d events = Some BecameReady)"
  by (cases r)
    (auto simp: gate_configure_def gate_run_waiting gate_run_settled
      split: option.split readiness_effect.split)

end
