(* ===== verification/Restart.thy ===== *)
theory Restart
  imports Policy
begin

text \<open>
  Exit dispatch, restart counting and restart intensity:
  \<open>crates/shelterwood-core/src/engine.rs\<close>, from \<open>MembershipStatus\<close> to \<open>schedule_restart\<close>.
\<close>

section \<open>Exit dispatch\<close>

datatype membership_status = Active | Removing

datatype exit_dispatch = Terminal | ScheduleRestart

definition dispatch_exit ::
  "exit \<Rightarrow> restart_policy \<Rightarrow> bool \<Rightarrow> membership_status \<Rightarrow> exit_dispatch run" where
  "dispatch_exit e restart scope_draining membership =
     (if exit_kind e = ExitNeverStarted
      then Inl (Panic ''NeverStarted is a membership outcome outside incarnation dispatch'')
      else if scope_draining \<or> membership = Removing then Inr Terminal
      else if should_restart restart e then Inr ScheduleRestart
      else Inr Terminal)"

section \<open>Intensity\<close>

record intensity_state =
  is_charges :: "instant list"
  is_total_restarts :: total_restarts

definition intensity_state_default :: intensity_state where
  "intensity_state_default = \<lparr>is_charges = [], is_total_restarts = TotalRestarts 0\<rparr>"

record intensity_charge =
  ic_policy :: intensity
  ic_in_window :: u64
  ic_total_restarts :: total_restarts
  ic_tripped :: bool

definition intensity_trip_new :: "intensity_charge \<Rightarrow> intensity_trip" where
  "intensity_trip_new c =
     \<lparr>it_max_restarts = in_max_restarts (ic_policy c), it_observed_restarts = ic_in_window c,
      it_within = in_within (ic_policy c)\<rparr>"

definition charge_expired :: "intensity \<Rightarrow> instant \<Rightarrow> instant \<Rightarrow> bool" where
  "charge_expired policy now c =
     (case checked_duration_since now c of None \<Rightarrow> False | Some age \<Rightarrow> in_within policy < age)"

text \<open>\<open>u64::try_from(len).unwrap_or(u64::MAX)\<close>.\<close>

definition u64_of_len :: "nat \<Rightarrow> u64" where
  "u64_of_len n = (if n < 2 ^ 64 then of_nat n else - 1)"

definition charge ::
  "intensity_state \<Rightarrow> intensity \<Rightarrow> instant \<Rightarrow> intensity_charge \<times> intensity_state" where
  "charge s policy now =
     (let charges = dropWhile (charge_expired policy now) (is_charges s) @ [now];
          total = total_restarts_bump (is_total_restarts s);
          in_window = u64_of_len (length charges)
      in (\<lparr>ic_policy = policy, ic_in_window = in_window, ic_total_restarts = total,
           ic_tripped = in_max_restarts policy < in_window\<rparr>,
          \<lparr>is_charges = charges, is_total_restarts = total\<rparr>))"

section \<open>Restart state\<close>

record restart_state =
  rs_attempt :: restart_attempt
  rs_cumulative :: restart_count

record incarnation_run =
  ir_started_at :: instant
  ir_stopped_at :: instant

definition restart_state_new :: restart_state where
  "restart_state_new = \<lparr>rs_attempt = RestartAttempt 0, rs_cumulative = RestartCount 0\<rparr>"

definition schedule :: "restart_state \<Rightarrow> (restart_attempt \<times> restart_count) \<times> restart_state" where
  "schedule s =
     (let s' = \<lparr>rs_attempt = restart_attempt_bump (rs_attempt s),
                rs_cumulative = restart_count_bump (rs_cumulative s)\<rparr>
      in ((rs_attempt s', rs_cumulative s'), s'))"

definition settled :: "restart_state \<Rightarrow> restart_state" where
  "settled s = s\<lparr>rs_attempt := RestartAttempt 0\<rparr>"

definition settle_if_stable ::
  "restart_state \<Rightarrow> incarnation_run \<Rightarrow> duration \<Rightarrow> bool \<times> restart_state" where
  "settle_if_stable s r stable_for =
     (if saturating_duration_since (ir_stopped_at r) (ir_started_at r) < stable_for
      then (False, s) else (True, settled s))"

record restart_decision =
  rd_attempt :: restart_attempt
  rd_restart_count :: restart_count
  rd_delay :: duration
  rd_restart_at :: "instant option"
  rd_charge :: intensity_charge

definition decision_total_restarts :: "restart_decision \<Rightarrow> total_restarts" where
  "decision_total_restarts d = ic_total_restarts (rd_charge d)"

definition decision_intensity_trip :: "restart_decision \<Rightarrow> intensity_trip option" where
  "decision_intensity_trip d =
     (if ic_tripped (rd_charge d) then Some (intensity_trip_new (rd_charge d)) else None)"

definition schedule_restart ::
  "(f64 \<Rightarrow> nat \<Rightarrow> f64) \<Rightarrow> restart_state \<Rightarrow> intensity_state \<Rightarrow> intensity \<Rightarrow> restart_policy \<Rightarrow>
   instant \<Rightarrow> jitter_sample \<Rightarrow> (restart_decision \<times> restart_state \<times> intensity_state) run" where
  "schedule_restart powi_f64 restarts intensity intensity_policy restart_policy now sample =
     (let ((attempt, restart_count), restarts') = schedule restarts
      in run_bind (next_delay powi_f64 (rp_backoff restart_policy) attempt sample)
           (\<lambda>delay.
              let restart_at = deadline_instant (deadline_after now delay);
                  (c, intensity') = charge intensity intensity_policy now
              in Inr (\<lparr>rd_attempt = attempt, rd_restart_count = restart_count, rd_delay = delay,
                       rd_restart_at = restart_at, rd_charge = c\<rparr>, restarts', intensity')))"

section \<open>The window of a monotone clock\<close>

fun charge_all :: "intensity \<Rightarrow> intensity_state \<Rightarrow> instant list \<Rightarrow> intensity_state" where
  "charge_all policy s [] = s"
| "charge_all policy s (t # ts) = charge_all policy (snd (charge s policy t)) ts"

definition in_window :: "intensity \<Rightarrow> instant \<Rightarrow> instant list \<Rightarrow> instant list" where
  "in_window policy now ts = filter (\<lambda>t. now - t \<le> in_within policy) ts"

lemma charge_all_append: "charge_all policy s (xs @ ys) = charge_all policy (charge_all policy s xs) ys"
  by (induction xs arbitrary: s) simp_all

lemma sorted_dropWhile_filter:
  assumes "sorted ts" "\<And>x y. x \<le> y \<Longrightarrow> P y \<Longrightarrow> P x"
  shows "dropWhile P ts = filter (\<lambda>x. \<not> P x) ts"
  using assms(1)
proof (induction ts)
  case (Cons t ts)
  show ?case
  proof (cases "P t")
    case False
    with Cons.prems assms(2) have "\<forall>x \<in> set ts. \<not> P x" by fastforce
    with False show ?thesis by simp
  qed (use Cons in simp)
qed simp

lemma charge_expired_iff: "c \<le> now \<Longrightarrow> charge_expired policy now c \<longleftrightarrow> \<not> now - c \<le> in_within policy"
  by (auto simp: charge_expired_def checked_duration_since_def)

lemma charge_window:
  assumes "sorted (ts @ [now])"
  shows "dropWhile (charge_expired policy now) ts = in_window policy now ts"
proof -
  have le: "\<forall>t \<in> set ts. t \<le> now" and s: "sorted ts" using assms by (auto simp: sorted_append)
  have "dropWhile (charge_expired policy now) ts = filter (\<lambda>t. \<not> charge_expired policy now t) ts"
    by (rule sorted_dropWhile_filter [OF s])
      (auto simp: charge_expired_def checked_duration_since_def split: if_splits)
  also have "\<dots> = in_window policy now ts"
    unfolding in_window_def using le by (intro filter_cong) (auto simp: charge_expired_iff)
  finally show ?thesis .
qed

lemma in_window_shrinks:
  "t \<le> now \<Longrightarrow> \<forall>x \<in> set ts. x \<le> t \<Longrightarrow> in_window policy now (in_window policy t ts) = in_window policy now ts"
  unfolding in_window_def filter_filter by (intro filter_cong) auto

lemma charge_all_window:
  assumes "sorted (ts @ [now])"
  shows "is_charges (charge_all policy intensity_state_default (ts @ [now])) =
         in_window policy now (ts @ [now])"
  using assms
proof (induction ts arbitrary: now rule: rev_induct)
  case Nil
  then show ?case
    by (simp add: charge_def intensity_state_default_def in_window_def Let_def)
next
  case (snoc t ts)
  let ?s = "charge_all policy intensity_state_default (ts @ [t])"
  have srt: "sorted (ts @ [t])" and le: "t \<le> now" "\<forall>x \<in> set (ts @ [t]). x \<le> t"
    using snoc.prems by (auto simp: sorted_append)
  have c: "is_charges ?s = in_window policy t (ts @ [t])" by (rule snoc.IH [OF srt])
  have "sorted (is_charges ?s @ [now])"
    using snoc.prems unfolding c in_window_def by (auto simp: sorted_append sorted_wrt_filter)
  then have "dropWhile (charge_expired policy now) (is_charges ?s) = in_window policy now (ts @ [t])"
    unfolding c using charge_window in_window_shrinks [OF le] by simp
  then show ?case
    by (simp add: charge_all_append charge_def Let_def in_window_def del: filter_append)
      (simp add: in_window_def)
qed

lemma charge_all_total:
  "unat (total_restarts_get (is_total_restarts (charge_all policy s ts))) =
     min (unat (total_restarts_get (is_total_restarts s)) + length ts) (2 ^ 64 - 1)"
proof (induction ts arbitrary: s)
  case Nil
  then show ?case using unat_u64_less [of "total_restarts_get (is_total_restarts s)"] by simp
next
  case (Cons t ts)
  show ?case
    by (simp add: Cons.IH charge_def Let_def total_restarts_bump_def saturating_add_u64_unat)
qed

lemma unat_u64_of_len: "n < 2 ^ 64 \<Longrightarrow> unat (u64_of_len n) = n"
  by (simp add: u64_of_len_def unsigned_of_nat take_bit_nat_eq_self_iff)

lemma length_in_window: "length (in_window policy now ts) \<le> length ts"
  by (simp add: in_window_def)

section \<open>Restart counters\<close>

datatype restart_event = Scheduled | Ran incarnation_run duration

fun restart_event_step :: "restart_state \<Rightarrow> restart_event \<Rightarrow> restart_state" where
  "restart_event_step s Scheduled = snd (schedule s)"
| "restart_event_step s (Ran r stable_for) = snd (settle_if_stable s r stable_for)"

fun resets_attempts :: "restart_event \<Rightarrow> bool" where
  "resets_attempts Scheduled = False"
| "resets_attempts (Ran r stable_for) \<longleftrightarrow> stable_for \<le> ir_stopped_at r - ir_started_at r"

definition consecutive_restarts :: "restart_event list \<Rightarrow> nat" where
  "consecutive_restarts es =
     count_list (takeWhile (\<lambda>e. \<not> resets_attempts e) (rev es)) Scheduled"

lemma restart_event_step_counters:
  "unat (restart_attempt_get (rs_attempt (restart_event_step s e))) =
     (if resets_attempts e then 0
      else min (unat (restart_attempt_get (rs_attempt s)) + (if e = Scheduled then 1 else 0)) (2 ^ 64 - 1))"
  "unat (restart_count_get (rs_cumulative (restart_event_step s e))) =
     min (unat (restart_count_get (rs_cumulative s)) + (if e = Scheduled then 1 else 0)) (2 ^ 64 - 1)"
  using unat_u64_less [of "restart_attempt_get (rs_attempt s)"]
    unat_u64_less [of "restart_count_get (rs_cumulative s)"]
  by (cases e; auto simp: schedule_def settle_if_stable_def settled_def Let_def restart_attempt_bump_def
      restart_count_bump_def saturating_add_u64_unat saturating_duration_since_def)+

lemma restart_attempts:
  "unat (restart_attempt_get (rs_attempt (foldl restart_event_step restart_state_new es))) =
     min (consecutive_restarts es) (2 ^ 64 - 1)"
  by (induction es rule: rev_induct)
    (auto simp: restart_event_step_counters consecutive_restarts_def min_def restart_state_new_def)

lemma restart_totals:
  "unat (restart_count_get (rs_cumulative (foldl restart_event_step restart_state_new es))) =
     min (count_list es Scheduled) (2 ^ 64 - 1)"
  by (induction es rule: rev_induct)
    (auto simp: restart_event_step_counters min_def restart_state_new_def)

section \<open>Properties\<close>

text \<open>
  C17: On a monotone clock the restart budget is an exact sliding window. After charges at \<open>ts\<close>, a
  charge at \<open>now\<close> observes exactly the charges (itself included) no older than the policy's window,
  and trips the scope exactly when they outnumber the allowed restarts; the scope total counts
  every charge. Fewer than \<open>2 ^ 64\<close> charges are assumed, so that the counts are exact.
\<close>

theorem intensity_window_exact:
  assumes "sorted (ts @ [now])" "length ts + 1 < 2 ^ 64"
  shows "let c = fst (charge (charge_all policy intensity_state_default ts) policy now);
             window = in_window policy now (ts @ [now])
         in unat (ic_in_window c) = length window \<and>
            (ic_tripped c \<longleftrightarrow> unat (in_max_restarts policy) < length window) \<and>
            unat (total_restarts_get (ic_total_restarts c)) = length ts + 1"
proof -
  let ?s = "charge_all policy intensity_state_default ts"
  have w: "dropWhile (charge_expired policy now) (is_charges ?s) @ [now] = in_window policy now (ts @ [now])"
    using charge_all_window [OF assms(1), of policy] by (simp add: charge_all_append charge_def Let_def)
  have len: "length (in_window policy now (ts @ [now])) < 2 ^ 64"
    using assms(2) length_in_window [of policy now "ts @ [now]"] by simp
  have total: "unat (total_restarts_get (is_total_restarts (charge_all policy intensity_state_default (ts @ [now]))))
      = length ts + 1"
    unfolding charge_all_total using assms(2) by (simp add: intensity_state_default_def)
  show ?thesis
    using total len unfolding charge_all_append
    by (simp add: charge_def Let_def w unat_u64_of_len word_less_nat_alt)
qed

theorem intensity_window_exact_witness:
  "let c = fst (charge (charge_all \<lparr>in_max_restarts = 2, in_within = 10\<rparr> intensity_state_default [1, 5, 12])
              \<lparr>in_max_restarts = 2, in_within = 10\<rparr> 14)
   in unat (ic_in_window c) = 3 \<and> ic_tripped c \<and> unat (total_restarts_get (ic_total_restarts c)) = 4"
  using intensity_window_exact [of "[1, 5, 12]" 14 "\<lparr>in_max_restarts = 2, in_within = 10\<rparr>"]
  by (simp add: Let_def in_window_def)

text \<open>
  C28: A scheduled restart carries the number of restarts since the last stable incarnation as its
  attempt (so backoff resets exactly there) and the number of restarts of the membership as its
  count, both saturating at the largest 64-bit value for histories of any length; its wake-up point is the decision instant plus the bounded delay whenever
  the clock can arm it, and it is reported as an intensity trip exactly when its charge tripped.
\<close>

theorem restart_decision_correct:
  assumes "backoff_wf (rp_backoff policy)"
  shows "\<exists>d restarts intensity'.
    schedule_restart powi_f64 (foldl restart_event_step restart_state_new history)
      intensity budget policy now sample = Inr (d, restarts, intensity') \<and>
    unat (restart_attempt_get (rd_attempt d)) = min (consecutive_restarts history + 1) (2 ^ 64 - 1) \<and>
    unat (restart_count_get (rd_restart_count d)) = min (count_list history Scheduled + 1) (2 ^ 64 - 1) \<and>
    restarts = foldl restart_event_step restart_state_new (history @ [Scheduled]) \<and>
    rd_delay d \<le> backoff_limit (rp_backoff policy) \<and>
    (case rd_restart_at d of
       Some t \<Rightarrow> t = now + rd_delay d
     | None \<Rightarrow> INSTANT_MAX < now + rd_delay d + ARMING_HEADROOM) \<and>
    (rd_charge d, intensity') = charge intensity budget now \<and>
    (decision_intensity_trip d = None \<longleftrightarrow> \<not> ic_tripped (rd_charge d))"
proof -
  let ?s = "foldl restart_event_step restart_state_new history"
  let ?s' = "foldl restart_event_step restart_state_new (history @ [Scheduled])"
  have sch: "schedule ?s = ((rs_attempt ?s', rs_cumulative ?s'), ?s')"
    by (simp add: schedule_def Let_def)
  obtain delay where d: "next_delay powi_f64 (rp_backoff policy) (rs_attempt ?s') sample = Inr delay"
      "delay \<le> backoff_limit (rp_backoff policy)"
    using next_delay_bounds [OF assms(1)] by blast
  have n: "unat (restart_attempt_get (rs_attempt ?s')) = min (consecutive_restarts history + 1) (2 ^ 64 - 1)"
    "unat (restart_count_get (rs_cumulative ?s')) = min (count_list history Scheduled + 1) (2 ^ 64 - 1)"
    unfolding restart_attempts restart_totals by (simp_all add: consecutive_restarts_def)
  show ?thesis
    unfolding schedule_restart_def sch
    using d n by (auto simp: Let_def deadline_after_instant decision_intensity_trip_def
        split: prod.split)
qed

theorem restart_decision_correct_witness:
  "\<exists>d restarts intensity'.
     schedule_restart (\<lambda>_ _. NaN)
       (foldl restart_event_step restart_state_new
          [Scheduled, Ran \<lparr>ir_started_at = 0, ir_stopped_at = 9\<rparr> 5, Scheduled])
       intensity_state_default \<lparr>in_max_restarts = 0, in_within = 1\<rparr> restart_policy_default 9
       (JitterSample (Fin 0)) = Inr (d, restarts, intensity') \<and>
     unat (restart_attempt_get (rd_attempt d)) = 2 \<and>
     unat (restart_count_get (rd_restart_count d)) = 3 \<and> rd_delay d = 0"
proof -
  have "backoff_wf (rp_backoff restart_policy_default)"
    by (simp add: backoff_wf_def restart_policy_default_def)
  from restart_decision_correct [OF this, of "\<lambda>_ _. NaN"
      "[Scheduled, Ran \<lparr>ir_started_at = 0, ir_stopped_at = 9\<rparr> 5, Scheduled]"
      intensity_state_default "\<lparr>in_max_restarts = 0, in_within = 1\<rparr>" 9 "JitterSample (Fin 0)"]
  show ?thesis
    by (auto simp: consecutive_restarts_def backoff_limit_def restart_policy_default_def min_def)
qed

end
