(* ===== verification/Lifecycle.thy ===== *)
theory Lifecycle
  imports Policy
begin

text \<open>
  The lifecycle machine of one scope incarnation, from
  \<open>crates/shelterwood-core/src/engine.rs\<close>.
\<close>

datatype scope_state =
    Scope_Unstarted | Scope_Starting | Scope_Running | Scope_StartupFailed | Scope_Draining
  | Scope_Stopped stop_reason

definition scope_state_is_stopped :: "scope_state \<Rightarrow> bool" where
  "scope_state_is_stopped s = (case s of Scope_Stopped _ \<Rightarrow> True | _ \<Rightarrow> False)"

datatype startup_phase = StartupPending | StartupComplete | StartupPhaseFailed

record scope_drain =
  dr_reason :: stop_reason
  dr_startup :: startup_phase

record child_completion_state =
  cc_has_children :: bool
  cc_all_terminal :: bool

datatype scope_lifecycle_state = LcStarting | LcRunning | LcStartupFailed | LcDraining scope_drain

datatype scope_lifecycle = ScopeLifecycle (lc_state: scope_lifecycle_state)

definition lifecycle_starting :: scope_lifecycle where
  "lifecycle_starting = ScopeLifecycle LcStarting"

definition lifecycle_state :: "scope_lifecycle \<Rightarrow> scope_state" where
  "lifecycle_state l =
     (case lc_state l of
        LcStarting \<Rightarrow> Scope_Starting
      | LcRunning \<Rightarrow> Scope_Running
      | LcStartupFailed \<Rightarrow> Scope_StartupFailed
      | LcDraining _ \<Rightarrow> Scope_Draining)"

definition is_starting :: "scope_lifecycle \<Rightarrow> bool" where
  "is_starting l \<longleftrightarrow> lc_state l = LcStarting"

definition startup_complete :: "scope_lifecycle \<Rightarrow> bool" where
  "startup_complete l =
     (case lc_state l of
        LcRunning \<Rightarrow> True
      | LcDraining d \<Rightarrow> dr_startup d = StartupComplete
      | _ \<Rightarrow> False)"

definition startup_failed :: "scope_lifecycle \<Rightarrow> bool" where
  "startup_failed l =
     (case lc_state l of
        LcStartupFailed \<Rightarrow> True
      | LcDraining d \<Rightarrow> dr_startup d = StartupPhaseFailed
      | _ \<Rightarrow> False)"

definition is_draining :: "scope_lifecycle \<Rightarrow> bool" where
  "is_draining l = (case lc_state l of LcDraining _ \<Rightarrow> True | _ \<Rightarrow> False)"

definition draining_reason :: "scope_lifecycle \<Rightarrow> stop_reason option" where
  "draining_reason l = (case lc_state l of LcDraining d \<Rightarrow> Some (dr_reason d) | _ \<Rightarrow> None)"

definition complete_startup :: "scope_lifecycle \<Rightarrow> scope_state option \<times> scope_lifecycle" where
  "complete_startup l =
     (if lc_state l = LcStarting
      then let l' = ScopeLifecycle LcRunning in (Some (lifecycle_state l'), l')
      else (None, l))"

definition fail_startup :: "scope_lifecycle \<Rightarrow> scope_state option \<times> scope_lifecycle" where
  "fail_startup l =
     (if lc_state l = LcStarting
      then let l' = ScopeLifecycle LcStartupFailed in (Some (lifecycle_state l'), l')
      else (None, l))"

definition drain_with ::
  "startup_phase \<Rightarrow> stop_reason \<Rightarrow> (bool \<times> scope_state) option \<times> scope_lifecycle" where
  "drain_with startup reason =
     (let l' = ScopeLifecycle (LcDraining \<lparr>dr_reason = reason, dr_startup = startup\<rparr>)
      in (Some (startup = StartupPending, lifecycle_state l'), l'))"

definition begin_drain ::
  "scope_lifecycle \<Rightarrow> stop_reason \<Rightarrow> ((bool \<times> scope_state) option \<times> scope_lifecycle) run" where
  "begin_drain l reason =
     (if reason = NeverStarted
      then Inl (Panic ''NeverStarted is not a live-incarnation drain reason'')
      else
        Inr (case lc_state l of
               LcStarting \<Rightarrow> drain_with StartupPending reason
             | LcRunning \<Rightarrow> drain_with StartupComplete reason
             | LcStartupFailed \<Rightarrow> drain_with StartupPhaseFailed reason
             | LcDraining d \<Rightarrow>
                 (None,
                  if stop_reason_precedence (dr_reason d) < stop_reason_precedence reason
                  then ScopeLifecycle (LcDraining (d\<lparr>dr_reason := reason\<rparr>)) else l)))"

definition finish_if_ready ::
  "scope_lifecycle \<Rightarrow> scope_flavor \<Rightarrow> child_completion_state \<Rightarrow> stop_reason option" where
  "finish_if_ready l flavor children =
     (case draining_reason l of
        Some reason \<Rightarrow> if cc_all_terminal children then Some reason else None
      | None \<Rightarrow>
          if startup_complete l \<and> flavor = Ordered \<and> cc_has_children children \<and>
             cc_all_terminal children
          then Some Finished else None)"

section \<open>Competing stop reasons\<close>

text \<open>Repeated drain requests, with the transitions they report.\<close>

fun drain_all ::
  "scope_lifecycle \<Rightarrow> stop_reason list \<Rightarrow> ((bool \<times> scope_state) option list \<times> scope_lifecycle) run" where
  "drain_all l [] = Inr ([], l)"
| "drain_all l (r # rs) =
     run_bind (begin_drain l r)
       (\<lambda>(x, l'). run_bind (drain_all l' rs) (\<lambda>(xs, l''). Inr (x # xs, l'')))"

text \<open>The first reason of greatest precedence.\<close>

fun strongest_reason :: "stop_reason \<Rightarrow> stop_reason list \<Rightarrow> stop_reason" where
  "strongest_reason best [] = best"
| "strongest_reason best (r # rs) =
     strongest_reason (if stop_reason_precedence best < stop_reason_precedence r then r else best) rs"

definition startup_at_drain :: "scope_lifecycle \<Rightarrow> startup_phase" where
  "startup_at_drain l =
     (case lc_state l of
        LcStarting \<Rightarrow> StartupPending
      | LcRunning \<Rightarrow> StartupComplete
      | LcStartupFailed \<Rightarrow> StartupPhaseFailed
      | LcDraining d \<Rightarrow> dr_startup d)"

lemma drain_all_draining:
  assumes "NeverStarted \<notin> set rs"
  shows "drain_all (ScopeLifecycle (LcDraining d)) rs =
    Inr (replicate (length rs) None,
         ScopeLifecycle (LcDraining (d\<lparr>dr_reason := strongest_reason (dr_reason d) rs\<rparr>)))"
  using assms
proof (induction rs arbitrary: d)
  case (Cons r rs)
  then show ?case by (cases d) (auto simp: begin_drain_def)
qed simp

lemma strongest_reason_in: "strongest_reason r rs \<in> set (r # rs)"
  by (induction rs arbitrary: r) (auto split: if_splits)

lemma strongest_reason_max:
  "\<forall>x \<in> set (r # rs). stop_reason_precedence x \<le> stop_reason_precedence (strongest_reason r rs)"
proof (induction rs arbitrary: r)
  case (Cons a rs)
  from Cons [of "if stop_reason_precedence r < stop_reason_precedence a then a else r"]
  show ?case by (auto split: if_splits intro: order.trans)
qed simp

text \<open>
  C35: When several reasons to stop compete for one scope incarnation, the published verdict is a
  requested reason of the greatest precedence; only the first request reports the transition
  into draining (with whether startup was still pending), so teardown is never repeated, and the
  startup outcome is frozen at that point. With every child terminal the scope finishes with
  exactly that verdict.
\<close>

theorem drain_verdict_strongest:
  assumes "\<not> is_draining l" "NeverStarted \<notin> set (r # rs)"
  shows "\<exists>l'. drain_all l (r # rs) =
      Inr (Some (is_starting l, Scope_Draining) # replicate (length rs) None, l') \<and>
    draining_reason l' = Some (strongest_reason r rs) \<and>
    startup_at_drain l' = startup_at_drain l \<and>
    strongest_reason r rs \<in> set (r # rs) \<and>
    (\<forall>x \<in> set (r # rs). stop_reason_precedence x \<le> stop_reason_precedence (strongest_reason r rs)) \<and>
    (\<forall>flavor children. finish_if_ready l' flavor children =
       (if cc_all_terminal children then Some (strongest_reason r rs) else None))"
proof -
  let ?d = "\<lparr>dr_reason = r, dr_startup = startup_at_drain l\<rparr>"
  let ?l = "ScopeLifecycle (LcDraining (?d\<lparr>dr_reason := strongest_reason r rs\<rparr>))"
  have "begin_drain l r = Inr (Some (is_starting l, Scope_Draining), ScopeLifecycle (LcDraining ?d))"
    using assms by (auto simp: begin_drain_def drain_with_def is_draining_def is_starting_def
        lifecycle_state_def startup_at_drain_def Let_def split: scope_lifecycle_state.splits)
  then have "drain_all l (r # rs) =
      Inr (Some (is_starting l, Scope_Draining) # replicate (length rs) None, ?l)"
    using assms(2) by (simp add: drain_all_draining)
  then show ?thesis
    using strongest_reason_in [of r rs] strongest_reason_max [of r rs]
    by (auto simp: draining_reason_def startup_at_drain_def finish_if_ready_def)
qed

theorem drain_verdict_strongest_witness:
  "\<exists>l'. drain_all lifecycle_starting [Finished, ShutdownRequested, Finished] =
      Inr ([Some (True, Scope_Draining), None, None], l') \<and>
    draining_reason l' = Some ShutdownRequested"
  using drain_verdict_strongest [of lifecycle_starting Finished "[ShutdownRequested, Finished]"]
  by (auto simp: lifecycle_starting_def is_draining_def is_starting_def less_stop_precedence_def)

end
