(* ===== verification/Epochs.thy ===== *)
theory Epochs
  imports Identity
begin

text \<open>
  Scope epochs, the ownership tokens of a scope's incarnations:
  \<open>crates/shelterwood-core/src/engine/epochs.rs\<close>.
\<close>

datatype epoch = Epoch (epoch_get: u64)

instantiation epoch :: linorder
begin

definition less_eq_epoch :: "epoch \<Rightarrow> epoch \<Rightarrow> bool" where
  "less_eq_epoch a b \<longleftrightarrow> epoch_get a \<le> epoch_get b"

definition less_epoch :: "epoch \<Rightarrow> epoch \<Rightarrow> bool" where
  "less_epoch a b \<longleftrightarrow> epoch_get a < epoch_get b"

instance
  by standard (auto simp: less_eq_epoch_def less_epoch_def epoch.expand)

end

definition epoch_FIRST :: epoch where
  "epoch_FIRST = Epoch 1"

definition epoch_successor :: "epoch \<Rightarrow> epoch run" where
  "epoch_successor e = run_bind (counter_successor (epoch_get e)) (\<lambda>n. Inr (Epoch n))"

definition epoch_after :: "epoch option \<Rightarrow> epoch run" where
  "epoch_after previous = (case previous of None \<Rightarrow> Inr epoch_FIRST | Some e \<Rightarrow> epoch_successor e)"

record request_target =
  rt_epoch :: epoch
  rt_pending_incarnation :: bool

datatype scope_epochs =
    EpochsIdle "epoch option" \<comment> \<open>\<open>last_stopped\<close>\<close>
  | EpochsLive epoch "epoch option" \<comment> \<open>\<open>current\<close>, \<open>last_stopped\<close>\<close>

definition scope_epochs_default :: scope_epochs where
  "scope_epochs_default = EpochsIdle None"

definition epochs_finished :: "scope_epochs \<Rightarrow> epoch \<Rightarrow> bool" where
  "epochs_finished s e =
     (case (case s of EpochsIdle l \<Rightarrow> l | EpochsLive _ l \<Rightarrow> l) of
        None \<Rightarrow> False
      | Some last_stopped \<Rightarrow> e \<le> last_stopped)"

definition epochs_begin :: "scope_epochs \<Rightarrow> (epoch option \<times> scope_epochs) run" where
  "epochs_begin s =
     (case s of
        EpochsIdle last_stopped \<Rightarrow>
          run_bind (epoch_after last_stopped)
            (\<lambda>current. Inr (Some current, EpochsLive current last_stopped))
      | EpochsLive _ _ \<Rightarrow> Inr (None, s))"

definition live_epoch :: "scope_epochs \<Rightarrow> epoch option" where
  "live_epoch s = (case s of EpochsIdle _ \<Rightarrow> None | EpochsLive c _ \<Rightarrow> Some c)"

definition epochs_request_target :: "scope_epochs \<Rightarrow> request_target run" where
  "epochs_request_target s =
     (case s of
        EpochsLive c _ \<Rightarrow> Inr \<lparr>rt_epoch = c, rt_pending_incarnation = False\<rparr>
      | EpochsIdle l \<Rightarrow>
          run_bind (epoch_after l) (\<lambda>e. Inr \<lparr>rt_epoch = e, rt_pending_incarnation = True\<rparr>))"

definition epochs_finish :: "scope_epochs \<Rightarrow> epoch \<Rightarrow> bool \<times> scope_epochs" where
  "epochs_finish s e =
     (case s of
        EpochsLive c _ \<Rightarrow> if c = e then (True, EpochsIdle (Some e)) else (False, s)
      | EpochsIdle _ \<Rightarrow> (False, s))"

definition epochs_vacate :: "scope_epochs \<Rightarrow> epoch \<Rightarrow> (bool \<times> scope_epochs) run" where
  "epochs_vacate s e =
     (case s of
        EpochsIdle l \<Rightarrow>
          run_bind (epoch_after l)
            (\<lambda>n. Inr (if n = e then (True, EpochsIdle (Some e)) else (False, s)))
      | EpochsLive _ _ \<Rightarrow> Inr (False, s))"

definition epochs_is_current :: "scope_epochs \<Rightarrow> epoch \<Rightarrow> bool" where
  "epochs_is_current s e \<longleftrightarrow> live_epoch s = Some e"

text \<open>\<open>Some(epoch) > last_stopped\<close>, with \<open>None\<close> below every \<open>Some\<close>.\<close>

definition request_is_pending :: "scope_epochs \<Rightarrow> epoch \<Rightarrow> bool" where
  "request_is_pending s e =
     (case s of
        EpochsIdle l \<Rightarrow> (case l of None \<Rightarrow> True | Some x \<Rightarrow> x < e)
      | EpochsLive _ _ \<Rightarrow> False)"

section \<open>Invariant and runs\<close>

definition epochs_inv :: "scope_epochs \<Rightarrow> bool" where
  "epochs_inv s =
     (case s of
        EpochsLive c (Some l) \<Rightarrow> l < c
      | _ \<Rightarrow> True)"

lemma epoch_after_greater:
  "epoch_after (Some p) = Inr e \<Longrightarrow> p < e"
  by (auto simp: epoch_after_def epoch_successor_def less_epoch_def run_bind_eq_Inr
      dest: counter_successor_less)

lemma epochs_default_inv [simp]: "epochs_inv scope_epochs_default"
  by (simp add: epochs_inv_def scope_epochs_default_def)

lemma epochs_begin_inv:
  "epochs_begin s = Inr (x, s') \<Longrightarrow> epochs_inv s \<Longrightarrow> epochs_inv s'"
  by (auto simp: epochs_begin_def epochs_inv_def run_bind_eq_Inr dest: epoch_after_greater
      split: scope_epochs.splits option.splits)

lemma epochs_finish_inv: "epochs_inv s \<Longrightarrow> epochs_inv (snd (epochs_finish s e))"
  by (auto simp: epochs_finish_def epochs_inv_def split: scope_epochs.splits)

lemma epochs_vacate_inv: "epochs_vacate s e = Inr (x, s') \<Longrightarrow> epochs_inv s \<Longrightarrow> epochs_inv s'"
  by (auto simp: epochs_vacate_def epochs_inv_def run_bind_eq_Inr split: scope_epochs.splits if_splits)

datatype epoch_event = EBegin | EFinish epoch | EVacate epoch

text \<open>One operation, with the epoch it mints.\<close>

fun epoch_step :: "scope_epochs \<Rightarrow> epoch_event \<Rightarrow> (epoch option \<times> scope_epochs) run" where
  "epoch_step s EBegin = epochs_begin s"
| "epoch_step s (EFinish e) = Inr (None, snd (epochs_finish s e))"
| "epoch_step s (EVacate e) = run_bind (epochs_vacate s e) (\<lambda>(_, s'). Inr (None, s'))"

fun epoch_run :: "scope_epochs \<Rightarrow> epoch_event list \<Rightarrow> (epoch list \<times> scope_epochs) run" where
  "epoch_run s [] = Inr ([], s)"
| "epoch_run s (e # es) =
     run_bind (epoch_step s e)
       (\<lambda>(m, s'). run_bind (epoch_run s' es)
         (\<lambda>(ms, s''). Inr ((case m of None \<Rightarrow> ms | Some x \<Rightarrow> x # ms), s'')))"

text \<open>Every epoch that an operation can still mint lies above the known ones.\<close>

definition epoch_known :: "scope_epochs \<Rightarrow> epoch \<Rightarrow> bool" where
  "epoch_known s e \<longleftrightarrow> epochs_finished s e \<or> live_epoch s = Some e"

lemma epoch_step_facts:
  assumes "epochs_inv s" "epoch_step s ev = Inr (m, s')"
  shows "epochs_inv s'"
    and "epochs_finished s e \<Longrightarrow> epochs_finished s' e"
    and "epoch_known s e \<Longrightarrow> epoch_known s' e"
    and "m = Some x \<Longrightarrow> epoch_known s e \<Longrightarrow> e < x"
    and "m = Some x \<Longrightarrow> \<not> epochs_finished s' x \<and> epoch_known s' x"
  using assms
  by (cases ev; auto simp: epochs_begin_def epochs_finish_def epochs_vacate_def epochs_inv_def
      epochs_finished_def epoch_known_def live_epoch_def run_bind_eq_Inr
      dest!: epoch_after_greater
      split: scope_epochs.splits option.splits if_splits)+

lemma epoch_run_facts:
  assumes "epochs_inv s" "epoch_run s evs = Inr (ms, s')"
  shows "epochs_inv s' \<and> (\<forall>e. epochs_finished s e \<longrightarrow> epochs_finished s' e) \<and>
         (\<forall>e. epoch_known s e \<longrightarrow> epoch_known s' e) \<and>
         (\<forall>x \<in> set ms. epoch_known s' x \<and> (\<forall>e. epoch_known s e \<longrightarrow> e < x)) \<and>
         sorted_wrt (<) ms"
  using assms
proof (induction evs arbitrary: s ms)
  case (Cons ev evs)
  then obtain m s1 ms1 where st: "epoch_step s ev = Inr (m, s1)"
      and r: "epoch_run s1 evs = Inr (ms1, s')"
      and ms: "ms = (case m of None \<Rightarrow> ms1 | Some x \<Rightarrow> x # ms1)"
    by (auto simp: run_bind_eq_Inr)
  note f = epoch_step_facts [OF Cons.prems(1) st]
  from Cons.IH [OF f(1) r] f ms show ?case
    by (cases m) auto
qed simp

lemma epoch_run_append:
  assumes "epoch_run s (xs @ ys) = Inr (ms, s')"
  shows "\<exists>m1 s1 m2. epoch_run s xs = Inr (m1, s1) \<and> epoch_run s1 ys = Inr (m2, s')"
  using assms
proof (induction xs arbitrary: s ms)
  case (Cons x xs)
  then show ?case by (fastforce simp: run_bind_eq_Inr split: option.splits)
qed auto

lemma epochs_live_not_finished:
  "epochs_inv s \<Longrightarrow> live_epoch s = Some e \<Longrightarrow> \<not> epochs_finished s e"
  by (auto simp: epochs_inv_def live_epoch_def epochs_finished_def split: scope_epochs.splits option.splits)

section \<open>Properties\<close>

text \<open>
  C33: Over any sequence of begin, finish and vacate operations a scope mints strictly increasing
  epochs, at most one of them live at a time: every minted epoch but the live one has finished.
  A finished epoch stays finished.
\<close>

theorem epochs_minted_increasing:
  assumes "epoch_run scope_epochs_default (before @ after) = Inr (minted, s)"
  shows "sorted_wrt (<) minted \<and>
    (\<forall>e \<in> set minted. epochs_finished s e \<longleftrightarrow> live_epoch s \<noteq> Some e) \<and>
    (\<exists>m s1. epoch_run scope_epochs_default before = Inr (m, s1) \<and>
       (\<forall>e. epochs_finished s1 e \<longrightarrow> epochs_finished s e))"
proof -
  obtain m s1 m' where r1: "epoch_run scope_epochs_default before = Inr (m, s1)"
      and r2: "epoch_run s1 after = Inr (m', s)"
    using epoch_run_append [OF assms] by blast
  note f1 = epoch_run_facts [OF epochs_default_inv r1]
  note f2 = epoch_run_facts [OF f1 [THEN conjunct1] r2]
  note f = epoch_run_facts [OF epochs_default_inv assms]
  have "epochs_finished s e \<longleftrightarrow> live_epoch s \<noteq> Some e" if "e \<in> set minted" for e
    using f that epochs_live_not_finished [of s e] by (auto simp: epoch_known_def)
  with f r1 f2 show ?thesis by blast
qed

theorem epochs_minted_increasing_witness:
  "\<exists>s. epoch_run scope_epochs_default ([EBegin, EFinish (Epoch 1)] @ [EVacate (Epoch 2), EBegin]) =
        Inr ([Epoch 1, Epoch 3], s) \<and>
      epochs_finished s (Epoch 1) \<and> \<not> epochs_finished s (Epoch 3)"
proof -
  obtain s where r: "epoch_run scope_epochs_default
      ([EBegin, EFinish (Epoch 1)] @ [EVacate (Epoch 2), EBegin]) = Inr ([Epoch 1, Epoch 3], s)"
      and l: "live_epoch s = Some (Epoch 3)"
    by (simp add: epochs_begin_def epochs_finish_def epochs_vacate_def epoch_after_def epoch_FIRST_def
        epoch_successor_def counter_successor_def checked_add_u64_def scope_epochs_default_def
        live_epoch_def)
  from epochs_minted_increasing [OF r] r l show ?thesis by auto
qed

text \<open>
  C32: A shutdown request always lands on an epoch that has not finished, and that epoch is the one
  to wait for: a live target is current and its owner can finish it; a pending target is exactly
  the epoch the next begin mints, and vacating it settles the wait without running it. Once
  settled, the next request lands on a later epoch.
\<close>

theorem request_target_settles:
  assumes "epochs_inv s" "epochs_request_target s = Inr t"
  shows "\<not> epochs_finished s (rt_epoch t) \<and>
    (if rt_pending_incarnation t
     then request_is_pending s (rt_epoch t) \<and>
          (\<exists>s'. epochs_begin s = Inr (Some (rt_epoch t), s') \<and> epochs_is_current s' (rt_epoch t)) \<and>
          (\<exists>s'. epochs_vacate s (rt_epoch t) = Inr (True, s') \<and> epochs_finished s' (rt_epoch t) \<and>
             (\<forall>t'. epochs_request_target s' = Inr t' \<longrightarrow> rt_epoch t < rt_epoch t'))
     else epochs_is_current s (rt_epoch t) \<and>
          (\<exists>s'. epochs_finish s (rt_epoch t) = (True, s') \<and> epochs_finished s' (rt_epoch t) \<and>
             (\<forall>t'. epochs_request_target s' = Inr t' \<longrightarrow> rt_epoch t < rt_epoch t')))"
proof (cases s)
  case (EpochsIdle l)
  then obtain e where e: "epoch_after l = Inr e" "t = \<lparr>rt_epoch = e, rt_pending_incarnation = True\<rparr>"
    using assms(2) by (auto simp: epochs_request_target_def run_bind_eq_Inr)
  have "\<forall>x. l = Some x \<longrightarrow> x < e" using e(1) epoch_after_greater by auto
  then show ?thesis
    using EpochsIdle e
    by (auto simp: epochs_finished_def request_is_pending_def epochs_begin_def epochs_vacate_def
        epochs_is_current_def live_epoch_def epochs_request_target_def run_bind_eq_Inr
        dest: epoch_after_greater split: option.splits)
next
  case (EpochsLive c l)
  then show ?thesis
    using assms
    by (auto simp: epochs_finished_def epochs_finish_def epochs_inv_def epochs_is_current_def
        live_epoch_def epochs_request_target_def run_bind_eq_Inr
        dest: epoch_after_greater split: option.splits)
qed

theorem request_target_settles_witness:
  "\<exists>s' t. epochs_begin scope_epochs_default = Inr (Some (Epoch 1), s') \<and>
     epochs_request_target scope_epochs_default = Inr t \<and> rt_epoch t = Epoch 1 \<and>
     epochs_is_current s' (Epoch 1)"
proof -
  let ?t = "\<lparr>rt_epoch = Epoch 1, rt_pending_incarnation = True\<rparr>"
  have "epochs_request_target scope_epochs_default = Inr ?t"
    by (simp add: epochs_request_target_def scope_epochs_default_def epoch_after_def epoch_FIRST_def)
  with request_target_settles [OF epochs_default_inv this] show ?thesis by auto
qed

end
