(* ===== verification/Deadline_Queue.thy ===== *)
theory Deadline_Queue
  imports Identity Clock
begin

text \<open>
  The engine's deadline priority queue: \<open>crates/shelterwood-core/src/engine/deadline_queue.rs\<close>.
  \<open>std::collections::BinaryHeap\<close> is a max-heap whose internal layout no caller observes; it is
  modelled by the list of its elements from the greatest down, which is the order \<open>pop\<close> yields
  them in.
\<close>

section \<open>The standard heap\<close>

fun heap_push :: "'a::linorder \<Rightarrow> 'a list \<Rightarrow> 'a list" where
  "heap_push x [] = [x]"
| "heap_push x (y # ys) = (if x \<le> y then y # heap_push x ys else x # y # ys)"

definition heap_peek :: "'a list \<Rightarrow> 'a option" where
  "heap_peek h = (case h of [] \<Rightarrow> None | x # _ \<Rightarrow> Some x)"

definition heap_pop :: "'a list \<Rightarrow> 'a option \<times> 'a list" where
  "heap_pop h = (case h of [] \<Rightarrow> (None, []) | x # xs \<Rightarrow> (Some x, xs))"

definition heap_retain :: "('a \<Rightarrow> bool) \<Rightarrow> 'a list \<Rightarrow> 'a list" where
  "heap_retain P h = filter P h"

section \<open>Entries and handles\<close>

datatype deadline_handle = DeadlineHandle (handle_get: u64)

instantiation deadline_handle :: linorder
begin

definition less_eq_deadline_handle :: "deadline_handle \<Rightarrow> deadline_handle \<Rightarrow> bool" where
  "less_eq_deadline_handle a b \<longleftrightarrow> handle_get a \<le> handle_get b"

definition less_deadline_handle :: "deadline_handle \<Rightarrow> deadline_handle \<Rightarrow> bool" where
  "less_deadline_handle a b \<longleftrightarrow> handle_get a < handle_get b"

instance
  by standard
    (auto simp: less_eq_deadline_handle_def less_deadline_handle_def deadline_handle.expand)

end

datatype deadline_entry = DeadlineEntry (entry_at: instant) (entry_handle: deadline_handle)

text \<open>\<open>impl Ord for DeadlineEntry\<close>: reversed, so that the greatest entry is the earliest.\<close>

instantiation deadline_entry :: linorder
begin

definition less_eq_deadline_entry :: "deadline_entry \<Rightarrow> deadline_entry \<Rightarrow> bool" where
  "less_eq_deadline_entry a b \<longleftrightarrow>
     entry_at b < entry_at a \<or> entry_at b = entry_at a \<and> entry_handle b \<le> entry_handle a"

definition less_deadline_entry :: "deadline_entry \<Rightarrow> deadline_entry \<Rightarrow> bool" where
  "less_deadline_entry a b \<longleftrightarrow>
     entry_at b < entry_at a \<or> entry_at b = entry_at a \<and> entry_handle b < entry_handle a"

instance
  by standard (auto simp: less_eq_deadline_entry_def less_deadline_entry_def deadline_entry.expand)

end

section \<open>The queue\<close>

record 'k deadline_queue =
  dq_registration_ids :: monotonic_counter
  dq_entries :: "deadline_entry list"
  dq_registrations :: "(deadline_handle, 'k) btree"

definition deadline_queue_default :: "'k deadline_queue" where
  "deadline_queue_default =
     \<lparr>dq_registration_ids = counter_new, dq_entries = [], dq_registrations = []\<rparr>"

definition next_handle :: "'k deadline_queue \<Rightarrow> (deadline_handle \<times> 'k deadline_queue) run" where
  "next_handle q =
     run_bind (counter_mint (dq_registration_ids q))
       (\<lambda>(n, c). Inr (DeadlineHandle n, q\<lparr>dq_registration_ids := c\<rparr>))"

definition dq_take ::
  "'k deadline_queue \<Rightarrow> deadline_handle \<Rightarrow> 'k option \<times> 'k deadline_queue" where
  "dq_take q h =
     (bt_get (dq_registrations q) h,
      q\<lparr>dq_registrations := bt_remove h (dq_registrations q)\<rparr>)"

definition dq_is_active :: "'k deadline_queue \<Rightarrow> deadline_handle \<Rightarrow> bool" where
  "dq_is_active q h \<longleftrightarrow> bt_get (dq_registrations q) h \<noteq> None"

definition prune_stale_head :: "'k deadline_queue \<Rightarrow> 'k deadline_queue" where
  "prune_stale_head q =
     q\<lparr>dq_entries := dropWhile (\<lambda>e. \<not> dq_is_active q (entry_handle e)) (dq_entries q)\<rparr>"

definition compact_if_sparse :: "'k deadline_queue \<Rightarrow> 'k deadline_queue" where
  "compact_if_sparse q =
     (if length (dq_registrations q) * 2 < length (dq_entries q)
      then q\<lparr>dq_entries := heap_retain (\<lambda>e. dq_is_active q (entry_handle e)) (dq_entries q)\<rparr>
      else q)"

definition dq_push ::
  "'k deadline_queue \<Rightarrow> instant \<Rightarrow> 'k \<Rightarrow> (deadline_handle \<times> 'k deadline_queue) run" where
  "dq_push q at key =
     run_bind (next_handle q)
       (\<lambda>(h, q'). Inr (h, q'\<lparr>dq_registrations := bt_insert h key (dq_registrations q'),
                           dq_entries := heap_push (DeadlineEntry at h) (dq_entries q')\<rparr>))"

definition dq_cancel :: "'k deadline_queue \<Rightarrow> deadline_handle \<Rightarrow> bool \<times> 'k deadline_queue" where
  "dq_cancel q h =
     (case dq_take q h of
        (taken, q') \<Rightarrow> if taken \<noteq> None then (True, compact_if_sparse q') else (False, q'))"

definition dq_next_deadline :: "'k deadline_queue \<Rightarrow> instant option \<times> 'k deadline_queue" where
  "dq_next_deadline q =
     (let q' = prune_stale_head q in (map_option entry_at (heap_peek (dq_entries q')), q'))"

definition dq_pop_due :: "'k deadline_queue \<Rightarrow> instant \<Rightarrow> ('k option \<times> 'k deadline_queue) run" where
  "dq_pop_due q now =
     (let q' = prune_stale_head q
      in if (case heap_peek (dq_entries q') of None \<Rightarrow> False | Some e \<Rightarrow> entry_at e \<le> now)
         then case heap_pop (dq_entries q') of
                (None, _) \<Rightarrow> Inl (Panic ''the due entry was just observed'')
              | (Some e, es) \<Rightarrow> Inr (dq_take (q'\<lparr>dq_entries := es\<rparr>) (entry_handle e))
         else Inr (None, q'))"

text \<open>
  The driver's \<open>while let Some(deadline) = deadlines.pop_due(now)\<close> collection loop
  (\<open>driver/incarnation.rs\<close>). Every round but the last takes a registration, so one more than the
  number of registrations is enough fuel.
\<close>

fun while_some :: "nat \<Rightarrow> ('q \<Rightarrow> ('k option \<times> 'q) run) \<Rightarrow> 'q \<Rightarrow> ('k list \<times> 'q) option run" where
  "while_some 0 step q = Inr None"
| "while_some (Suc n) step q =
     run_bind (step q)
       (\<lambda>(x, q'). case x of
          None \<Rightarrow> Inr (Some ([], q'))
        | Some k \<Rightarrow>
            run_bind (while_some n step q')
              (\<lambda>r. Inr (map_option (\<lambda>(ks, q''). (k # ks, q'')) r)))"

definition collect_due :: "'k deadline_queue \<Rightarrow> instant \<Rightarrow> ('k list \<times> 'k deadline_queue) option run" where
  "collect_due q now = while_some (Suc (length (dq_registrations q))) (\<lambda>q. dq_pop_due q now) q"

section \<open>The contract of an alarm queue\<close>

text \<open>
  What the driver relies on, stated over the alarms still pending, listed in firing order with
  their handles and keys.
\<close>

type_synonym ('h, 'k) alarm = "instant \<times> 'h \<times> 'k"

locale alarm_queue =
  fixes invar :: "'q \<Rightarrow> bool"
    and pending :: "'q \<Rightarrow> ('h, 'k) alarm list"
    and empty :: 'q
    and push :: "'q \<Rightarrow> instant \<Rightarrow> 'k \<Rightarrow> ('h \<times> 'q) run"
    and cancel :: "'q \<Rightarrow> 'h \<Rightarrow> bool \<times> 'q"
    and next_deadline :: "'q \<Rightarrow> instant option \<times> 'q"
    and pop_due :: "'q \<Rightarrow> instant \<Rightarrow> ('k option \<times> 'q) run"
  assumes empty: "invar empty" "pending empty = []"
    and push: "invar q \<Longrightarrow> push q at k = Inr (h, q') \<Longrightarrow>
      invar q' \<and> h \<notin> (\<lambda>a. fst (snd a)) ` set (pending q) \<and>
      pending q' = filter (\<lambda>a. fst a \<le> at) (pending q) @ [(at, h, k)] @
                   filter (\<lambda>a. at < fst a) (pending q)"
    and cancel: "invar q \<Longrightarrow> cancel q h = (removed, q') \<Longrightarrow>
      invar q' \<and> (removed \<longleftrightarrow> h \<in> (\<lambda>a. fst (snd a)) ` set (pending q)) \<and>
      pending q' = filter (\<lambda>a. fst (snd a) \<noteq> h) (pending q)"
    and next_deadline: "invar q \<Longrightarrow> next_deadline q = (d, q') \<Longrightarrow>
      invar q' \<and> pending q' = pending q \<and>
      d = (case pending q of [] \<Rightarrow> None | a # _ \<Rightarrow> Some (fst a))"
    and pop_due: "invar q \<Longrightarrow> \<exists>k q'. pop_due q now = Inr (k, q') \<and> invar q' \<and>
      (case pending q of
         a # rest \<Rightarrow>
           if fst a \<le> now then k = Some (snd (snd a)) \<and> pending q' = rest
           else k = None \<and> pending q' = pending q
       | [] \<Rightarrow> k = None \<and> pending q' = [])"
    and sorted_pending: "invar q \<Longrightarrow> sorted (map fst (pending q))"
begin

lemma while_some_pop_due:
  assumes "invar q" "length (pending q) < n"
  shows "\<exists>q'. while_some n (\<lambda>q. pop_due q now) q =
      Inr (Some (map (\<lambda>a. snd (snd a)) (takeWhile (\<lambda>a. fst a \<le> now) (pending q)), q')) \<and>
    invar q' \<and> pending q' = dropWhile (\<lambda>a. fst a \<le> now) (pending q)"
  using assms
proof (induction n arbitrary: q)
  case (Suc n)
  obtain k q1 where p: "pop_due q now = Inr (k, q1)" "invar q1"
      and c: "case pending q of
         a # rest \<Rightarrow>
           if fst a \<le> now then k = Some (snd (snd a)) \<and> pending q1 = rest
           else k = None \<and> pending q1 = pending q
       | [] \<Rightarrow> k = None \<and> pending q1 = []"
    using pop_due [OF Suc.prems(1), of now] by blast
  show ?case
  proof (cases "pending q")
    case Nil
    with p c show ?thesis by simp
  next
    case (Cons a rest)
    show ?thesis
    proof (cases "fst a \<le> now")
      case True
      with Cons c have k: "k = Some (snd (snd a))" "pending q1 = rest" by simp_all
      with Suc.prems(2) Cons have "length (pending q1) < n" by simp
      from Suc.IH [OF p(2) this] obtain q' where
        "while_some n (\<lambda>q. pop_due q now) q1 =
           Inr (Some (map (\<lambda>a. snd (snd a)) (takeWhile (\<lambda>a. fst a \<le> now) rest), q'))"
        "invar q'" "pending q' = dropWhile (\<lambda>a. fst a \<le> now) rest"
        unfolding k by blast
      with p k True Cons show ?thesis by simp
    qed (use p c Cons in simp)
  qed
qed simp

lemma takeWhile_due:
  assumes "invar q"
  shows "takeWhile (\<lambda>a. fst a \<le> now) (pending q) = filter (\<lambda>a. fst a \<le> now) (pending q)"
    and "dropWhile (\<lambda>a. fst a \<le> now) (pending q) = filter (\<lambda>a. now < fst a) (pending q)"
proof -
  have s: "sorted (map fst xs) \<Longrightarrow> takeWhile (\<lambda>a. fst a \<le> now) xs = filter (\<lambda>a. fst a \<le> now) xs \<and>
      dropWhile (\<lambda>a. fst a \<le> now) xs = filter (\<lambda>a. now < fst a) xs" for xs :: "('h, 'k) alarm list"
  proof (induction xs)
    case (Cons x xs)
    then show ?case
      by (cases "fst x \<le> now") (auto simp: filter_empty_conv intro!: filter_True [symmetric] filter_False [symmetric])
  qed simp
  from s [OF sorted_pending [OF assms]]
  show "takeWhile (\<lambda>a. fst a \<le> now) (pending q) = filter (\<lambda>a. fst a \<le> now) (pending q)"
    "dropWhile (\<lambda>a. fst a \<le> now) (pending q) = filter (\<lambda>a. now < fst a) (pending q)"
    by simp_all
qed

lemma collect_due_exact:
  assumes "invar q" "length (pending q) < n"
  shows "\<exists>q'. while_some n (\<lambda>q. pop_due q now) q =
      Inr (Some (map (\<lambda>a. snd (snd a)) (filter (\<lambda>a. fst a \<le> now) (pending q)), q')) \<and>
    invar q' \<and> pending q' = filter (\<lambda>a. now < fst a) (pending q)"
  using while_some_pop_due [OF assms] takeWhile_due [OF assms(1)] by simp

end

section \<open>Invariant and refinement\<close>

definition dq_handles :: "'k deadline_queue \<Rightarrow> deadline_handle set" where
  "dq_handles q = entry_handle ` set (dq_entries q)"

definition dq_inv :: "'k deadline_queue \<Rightarrow> bool" where
  "dq_inv q \<longleftrightarrow>
     sorted_wrt (>) (dq_entries q) \<and> distinct (map entry_handle (dq_entries q)) \<and>
     bt_wf (dq_registrations q) \<and> set (bt_keys (dq_registrations q)) \<subseteq> dq_handles q \<and>
     (\<forall>h \<in> dq_handles q. handle_get h \<le> counter_current (dq_registration_ids q))"

definition live_entry :: "(deadline_handle, 'k) btree \<Rightarrow> deadline_entry \<Rightarrow> (deadline_handle, 'k) alarm option" where
  "live_entry m e = map_option (\<lambda>k. (entry_at e, entry_handle e, k)) (bt_get m (entry_handle e))"

definition dq_pending :: "'k deadline_queue \<Rightarrow> (deadline_handle, 'k) alarm list" where
  "dq_pending q = List.map_filter (live_entry (dq_registrations q)) (dq_entries q)"

lemma live_entry_None: "live_entry m e = None \<longleftrightarrow> bt_get m (entry_handle e) = None"
  by (simp add: live_entry_def)

lemma dq_pending_handles:
  assumes "set (bt_keys (dq_registrations q)) \<subseteq> dq_handles q"
  shows "(\<lambda>a. fst (snd a)) ` set (dq_pending q) = set (bt_keys (dq_registrations q))"
proof (intro equalityI subsetI)
  fix h assume "h \<in> set (bt_keys (dq_registrations q))"
  moreover from this obtain e where e: "e \<in> set (dq_entries q)" "entry_handle e = h"
    using assms by (auto simp: dq_handles_def)
  moreover from calculation obtain k where "bt_get (dq_registrations q) h = Some k"
    using bt_get_None_iff by fastforce
  ultimately have "(entry_at e, h, k) \<in> set (dq_pending q)"
    by (auto simp: dq_pending_def set_map_filter live_entry_def intro!: bexI [of _ e])
  then show "h \<in> (\<lambda>a. fst (snd a)) ` set (dq_pending q)"
    by (rule rev_image_eqI) simp
qed (auto simp: dq_pending_def set_map_filter live_entry_def dest: bt_get_SomeD)

lemma heap_push_split:
  "heap_push x h = takeWhile (\<lambda>y. x \<le> y) h @ x # dropWhile (\<lambda>y. x \<le> y) h"
  by (induction h) auto

lemma heap_push_set [simp]: "set (heap_push x h) = insert x (set h)"
  by (induction h) auto

lemma heap_push_distinct: "distinct (map f (heap_push x h)) \<longleftrightarrow> f x \<notin> f ` set h \<and> distinct (map f h)"
  by (induction h) auto

lemma heap_push_sorted: "sorted_wrt (>) h \<Longrightarrow> x \<notin> set h \<Longrightarrow> sorted_wrt (>) (heap_push x h)"
  by (induction h) (auto simp: not_le intro: less_trans)

lemma sorted_takeWhile_filter:
  "sorted_wrt (>) h \<Longrightarrow> takeWhile (\<lambda>y. x \<le> y) h = filter (\<lambda>y. x \<le> y) h \<and>
   dropWhile (\<lambda>y. x \<le> y) h = filter (\<lambda>y. y < x) h" for x :: "'a::linorder"
proof (induction h)
  case (Cons y h)
  show ?case
  proof (cases "x \<le> y")
    case False
    with Cons.prems have "\<forall>z \<in> set h. z < x" by (auto simp: not_le intro: less_trans)
    then have "filter (\<lambda>y. x \<le> y) h = []" "filter (\<lambda>y. y < x) h = h"
      by (auto simp: filter_empty_conv filter_id_conv not_le)
    with False show ?thesis by simp
  qed (use Cons in simp)
qed simp

lemma dq_pending_sorted: "sorted_wrt (>) es \<Longrightarrow> sorted (map fst (List.map_filter (live_entry m) es))"
proof (induction es)
  case (Cons e es)
  then show ?case
    by (force simp: map_filter_simps live_entry_def set_map_filter less_deadline_entry_def
        split: option.splits)
qed (simp add: map_filter_simps)

subsection \<open>Operations\<close>

lemma prune_stale_head_refines:
  assumes "dq_inv q"
  shows "dq_inv (prune_stale_head q)" "dq_pending (prune_stale_head q) = dq_pending q"
proof -
  let ?P = "\<lambda>e. \<not> dq_is_active q (entry_handle e)"
  let ?es = "dq_entries q"
  have d: "dropWhile ?P ?es = dropWhile (\<lambda>e. live_entry (dq_registrations q) e = None) ?es"
    by (simp add: dq_is_active_def live_entry_None)
  have s: "\<exists>xs. ?es = xs @ dropWhile ?P ?es \<and> (\<forall>e \<in> set xs. ?P e)"
    by (rule exI [of _ "takeWhile ?P ?es"]) (auto dest: set_takeWhileD)
  then obtain xs where xs: "?es = xs @ dropWhile ?P ?es" "\<forall>e \<in> set xs. ?P e" by blast
  have "set (bt_keys (dq_registrations q)) \<subseteq> entry_handle ` set (dropWhile ?P ?es)"
  proof
    fix h assume h: "h \<in> set (bt_keys (dq_registrations q))"
    then obtain e where e: "e \<in> set ?es" "entry_handle e = h"
      using assms by (auto simp: dq_inv_def dq_handles_def)
    have "\<not> ?P e" using h e by (simp add: dq_is_active_def bt_get_None_iff)
    then show "h \<in> entry_handle ` set (dropWhile ?P ?es)"
      using e xs by (metis Un_iff image_eqI set_append)
  qed
  moreover have "sorted_wrt (>) (dropWhile ?P ?es)" "distinct (map entry_handle (dropWhile ?P ?es))"
    using assms xs(1) unfolding dq_inv_def
    by (metis sorted_wrt_append, metis distinct_append map_append)
  moreover have "set (dropWhile ?P ?es) \<subseteq> set ?es" by (auto dest: set_dropWhileD)
  ultimately show "dq_inv (prune_stale_head q)"
    using assms unfolding dq_inv_def prune_stale_head_def dq_handles_def by auto
  show "dq_pending (prune_stale_head q) = dq_pending q"
    unfolding dq_pending_def prune_stale_head_def
    by (simp add: d map_filter_dropWhile_None)
qed

lemma compact_refines:
  assumes "dq_inv q"
  shows "dq_inv (compact_if_sparse q)" "dq_pending (compact_if_sparse q) = dq_pending q"
proof -
  let ?P = "\<lambda>e. dq_is_active q (entry_handle e)"
  have f: "filter ?P (dq_entries q) = filter (\<lambda>e. live_entry (dq_registrations q) e \<noteq> None) (dq_entries q)"
    by (simp add: dq_is_active_def live_entry_None)
  show "dq_pending (compact_if_sparse q) = dq_pending q"
    using f map_filter_filter_Some [of "live_entry (dq_registrations q)" "dq_entries q"]
    by (simp add: dq_pending_def compact_if_sparse_def heap_retain_def)
  show "dq_inv (compact_if_sparse q)"
    using assms
    by (auto simp: dq_inv_def compact_if_sparse_def heap_retain_def dq_handles_def sorted_wrt_filter
        distinct_map_filter dq_is_active_def bt_get_None_iff image_iff subset_iff)
qed

lemma map_filter_remove:
  "List.map_filter (live_entry m) (filter (\<lambda>e. entry_handle e \<noteq> h) es) =
   List.map_filter (live_entry (bt_remove h m)) es"
  by (induction es) (auto simp: map_filter_simps live_entry_def split: option.splits)

lemma dq_take_refines:
  assumes "dq_inv q" "dq_take q h = (k, q')"
  shows "dq_inv q'" "dq_pending q' = filter (\<lambda>a. fst (snd a) \<noteq> h) (dq_pending q)"
    "k = bt_get (dq_registrations q) h"
proof -
  show "dq_inv q'" "k = bt_get (dq_registrations q) h"
    using assms by (auto simp: dq_take_def dq_inv_def dq_handles_def)
  have "filter (\<lambda>a. fst (snd a) \<noteq> h) (dq_pending q) =
      List.map_filter (live_entry (dq_registrations q)) (filter (\<lambda>e. entry_handle e \<noteq> h) (dq_entries q))"
    unfolding dq_pending_def by (rule filter_map_filter) (auto simp: live_entry_def)
  also have "\<dots> = List.map_filter (live_entry (bt_remove h (dq_registrations q))) (dq_entries q)"
    by (rule map_filter_remove)
  finally show "dq_pending q' = filter (\<lambda>a. fst (snd a) \<noteq> h) (dq_pending q)"
    using assms(2) by (auto simp: dq_take_def dq_pending_def)
qed

lemma dq_push_refines:
  assumes inv: "dq_inv q" and p: "dq_push q at k = Inr (h, q')"
  shows "dq_inv q'" "h \<notin> (\<lambda>a. fst (snd a)) ` set (dq_pending q)"
    "dq_pending q' = filter (\<lambda>a. fst a \<le> at) (dq_pending q) @ [(at, h, k)] @
                     filter (\<lambda>a. at < fst a) (dq_pending q)"
proof -
  let ?m = "bt_insert h k (dq_registrations q)" and ?e = "DeadlineEntry at h"
  obtain n c where m: "counter_mint (dq_registration_ids q) = Inr (n, c)"
      and h: "h = DeadlineHandle n"
      and q': "q' = q\<lparr>dq_registration_ids := c, dq_registrations := ?m,
                      dq_entries := heap_push ?e (dq_entries q)\<rparr>"
    using p by (auto simp: dq_push_def next_handle_def run_bind_eq_Inr)
  have new: "x < h" if "x \<in> dq_handles q" for x
    using inv that counter_mint_less [OF m]
    by (force simp: dq_inv_def less_deadline_handle_def h)
  then have notin: "h \<notin> dq_handles q" by blast
  have notin': "?e \<notin> set (dq_entries q)"
  proof
    assume "?e \<in> set (dq_entries q)"
    then have "entry_handle ?e \<in> dq_handles q" unfolding dq_handles_def by (rule imageI)
    with notin show False by simp
  qed
  have le: "?e \<le> e \<longleftrightarrow> entry_at e \<le> at" "e < ?e \<longleftrightarrow> at < entry_at e" if "e \<in> set (dq_entries q)" for e
    using new [of "entry_handle e"] that
    by (auto simp: less_eq_deadline_entry_def less_deadline_entry_def dq_handles_def)
  have srt: "sorted_wrt (>) (dq_entries q)" and sub: "set (bt_keys (dq_registrations q)) \<subseteq> dq_handles q"
    using inv by (simp_all add: dq_inv_def)
  show "dq_inv q'"
    unfolding dq_inv_def
  proof (intro conjI)
    show "sorted_wrt (>) (dq_entries q')"
      using srt notin' by (simp add: q' heap_push_sorted)
    show "distinct (map entry_handle (dq_entries q'))"
      using inv notin by (simp add: q' heap_push_distinct dq_inv_def dq_handles_def)
    show "bt_wf (dq_registrations q')" using inv by (simp add: q' dq_inv_def)
    show "set (bt_keys (dq_registrations q')) \<subseteq> dq_handles q'"
      using sub by (auto simp: q' dq_handles_def)
    show "\<forall>h \<in> dq_handles q'. handle_get h \<le> counter_current (dq_registration_ids q')"
      using inv counter_mint_less [OF m] counter_mint_current [OF m]
      by (force simp: q' h dq_inv_def dq_handles_def)
  qed
  show "h \<notin> (\<lambda>a. fst (snd a)) ` set (dq_pending q)"
    unfolding dq_pending_handles [OF sub] using sub notin by blast
  have live: "live_entry ?m e = live_entry (dq_registrations q) e" if "e \<in> set (dq_entries q)" for e
    using that notin by (auto simp: live_entry_def dq_handles_def)
  have "dq_pending q' =
      List.map_filter (live_entry ?m) (filter (\<lambda>e. ?e \<le> e) (dq_entries q)) @ [(at, h, k)] @
      List.map_filter (live_entry ?m) (filter (\<lambda>e. e < ?e) (dq_entries q))"
    by (simp add: q' dq_pending_def heap_push_split sorted_takeWhile_filter [OF srt] map_filter_simps
        live_entry_def)
  also have "List.map_filter (live_entry ?m) (filter (\<lambda>e. ?e \<le> e) (dq_entries q)) =
      filter (\<lambda>a. fst a \<le> at) (dq_pending q)"
    unfolding dq_pending_def
    by (subst filter_map_filter [where Q = "\<lambda>e. ?e \<le> e"]; (rule map_filter_cong)?)
      (auto simp: le live_entry_def [of "dq_registrations q"] live)
  also have "List.map_filter (live_entry ?m) (filter (\<lambda>e. e < ?e) (dq_entries q)) =
      filter (\<lambda>a. at < fst a) (dq_pending q)"
    unfolding dq_pending_def
    by (subst filter_map_filter [where Q = "\<lambda>e. e < ?e"]; (rule map_filter_cong)?)
      (auto simp: le live_entry_def [of "dq_registrations q"] live)
  finally show "dq_pending q' = filter (\<lambda>a. fst a \<le> at) (dq_pending q) @ [(at, h, k)] @
                     filter (\<lambda>a. at < fst a) (dq_pending q)" .
qed

lemma dq_cancel_refines:
  assumes inv: "dq_inv q" and c: "dq_cancel q h = (removed, q')"
  shows "dq_inv q' \<and> (removed \<longleftrightarrow> h \<in> (\<lambda>a. fst (snd a)) ` set (dq_pending q)) \<and>
         dq_pending q' = filter (\<lambda>a. fst (snd a) \<noteq> h) (dq_pending q)"
proof -
  obtain k q1 where t: "dq_take q h = (k, q1)" by force
  note r = dq_take_refines [OF inv t]
  have "set (bt_keys (dq_registrations q)) \<subseteq> dq_handles q" using inv by (simp add: dq_inv_def)
  then have "k \<noteq> None \<longleftrightarrow> h \<in> (\<lambda>a. fst (snd a)) ` set (dq_pending q)"
    by (simp only: r(3) dq_pending_handles bt_get_None_iff not_not)
  then show ?thesis
    using c t r compact_refines [OF r(1)] by (auto simp: dq_cancel_def split: if_splits)
qed

lemma pruned_head:
  assumes "dq_inv q"
  shows "case dq_entries (prune_stale_head q) of
           [] \<Rightarrow> dq_pending q = []
         | e # es \<Rightarrow> \<exists>k rest. dq_pending q = (entry_at e, entry_handle e, k) # rest \<and>
             bt_get (dq_registrations q) (entry_handle e) = Some k \<and>
             entry_handle e \<notin> (\<lambda>a. fst (snd a)) ` set rest"
proof (cases "dq_entries (prune_stale_head q)")
  case Nil
  then have "dq_pending (prune_stale_head q) = []" by (simp add: dq_pending_def map_filter_simps)
  with Nil prune_stale_head_refines [OF assms] show ?thesis by simp
next
  case (Cons e es)
  have "dq_is_active q (entry_handle e)"
    using Cons hd_dropWhile [of "\<lambda>e. \<not> dq_is_active q (entry_handle e)" "dq_entries q"]
    by (simp add: prune_stale_head_def)
  then obtain k where k: "bt_get (dq_registrations q) (entry_handle e) = Some k"
    by (auto simp: dq_is_active_def)
  have "dq_pending q = dq_pending (prune_stale_head q)" using prune_stale_head_refines [OF assms] by simp
  also have "\<dots> = (entry_at e, entry_handle e, k) # List.map_filter (live_entry (dq_registrations q)) es"
    using k Cons by (simp add: dq_pending_def map_filter_simps live_entry_def prune_stale_head_def)
  finally have p: "dq_pending q =
      (entry_at e, entry_handle e, k) # List.map_filter (live_entry (dq_registrations q)) es" .
  have "distinct (map entry_handle (e # es))"
    using prune_stale_head_refines(1) [OF assms] Cons by (simp add: dq_inv_def)
  then have "entry_handle e \<notin> (\<lambda>a. fst (snd a)) ` set (List.map_filter (live_entry (dq_registrations q)) es)"
    by (auto simp: set_map_filter live_entry_def)
  with p k Cons show ?thesis by auto
qed

lemma dq_next_deadline_refines:
  assumes inv: "dq_inv q" and n: "dq_next_deadline q = (d, q')"
  shows "dq_inv q' \<and> dq_pending q' = dq_pending q \<and>
         d = (case dq_pending q of [] \<Rightarrow> None | a # _ \<Rightarrow> Some (fst a))"
  using n prune_stale_head_refines [OF inv] pruned_head [OF inv]
  by (auto simp: dq_next_deadline_def Let_def heap_peek_def split: list.splits)

lemma dq_pop_due_refines:
  assumes inv: "dq_inv q"
  shows "\<exists>k q'. dq_pop_due q now = Inr (k, q') \<and> dq_inv q' \<and>
      (case dq_pending q of
         a # rest \<Rightarrow>
           if fst a \<le> now then k = Some (snd (snd a)) \<and> dq_pending q' = rest
           else k = None \<and> dq_pending q' = dq_pending q
       | [] \<Rightarrow> k = None \<and> dq_pending q' = [])"
proof -
  let ?q = "prune_stale_head q"
  note p = prune_stale_head_refines [OF inv] and h = pruned_head [OF inv]
  show ?thesis
  proof (cases "dq_entries ?q")
    case Nil
    with p h show ?thesis by (simp add: dq_pop_due_def Let_def heap_peek_def)
  next
    case (Cons e es)
    with h obtain k rest where pend: "dq_pending q = (entry_at e, entry_handle e, k) # rest"
        and k: "bt_get (dq_registrations q) (entry_handle e) = Some k"
        and rest: "entry_handle e \<notin> (\<lambda>a. fst (snd a)) ` set rest"
      by auto
    show ?thesis
    proof (cases "entry_at e \<le> now")
      case False
      with Cons p pend show ?thesis by (simp add: dq_pop_due_def Let_def heap_peek_def)
    next
      case True
      obtain q' where t: "dq_take ?q (entry_handle e) = (Some k, q')"
        using k by (simp add: dq_take_def prune_stale_head_def)
      let ?q' = "snd (dq_take (?q\<lparr>dq_entries := es\<rparr>) (entry_handle e))"
      have q': "?q' = q'\<lparr>dq_entries := es\<rparr>" and e': "dq_entries q' = e # es"
        and r': "dq_registrations q' = bt_remove (entry_handle e) (dq_registrations q)"
        using t Cons by (auto simp: dq_take_def prune_stale_head_def)
      note tr = dq_take_refines [OF p(1) t]
      have "dq_inv (q'\<lparr>dq_entries := es\<rparr>)"
        using tr(1) e' r' by (auto simp: dq_inv_def dq_handles_def)
      moreover have "dq_pending (q'\<lparr>dq_entries := es\<rparr>) = dq_pending q'"
        using e' r' by (simp add: dq_pending_def map_filter_simps live_entry_def)
      moreover have "filter (\<lambda>a. fst (snd a) \<noteq> entry_handle e) rest = rest"
        using rest by (force simp: filter_id_conv)
      ultimately show ?thesis
        using True Cons k pend tr(2) p(2) q'
        by (auto simp: dq_pop_due_def Let_def heap_peek_def heap_pop_def dq_take_def prune_stale_head_def)
    qed
  qed
qed

lemma dq_default: "dq_inv deadline_queue_default" "dq_pending deadline_queue_default = []"
  by (simp_all add: dq_inv_def deadline_queue_default_def dq_handles_def dq_pending_def map_filter_simps)

interpretation dlq: alarm_queue dq_inv dq_pending deadline_queue_default dq_push dq_cancel
  dq_next_deadline dq_pop_due
proof unfold_locales
  fix q q' :: "'k deadline_queue" and at now :: instant and k :: 'k and h :: deadline_handle
    and removed :: bool and d :: "instant option"
  assume inv: "dq_inv q"
  show "sorted (map fst (dq_pending q))"
    using inv unfolding dq_inv_def dq_pending_def by (intro dq_pending_sorted) simp
  show "dq_inv q' \<and> h \<notin> (\<lambda>a. fst (snd a)) ` set (dq_pending q) \<and>
      dq_pending q' = filter (\<lambda>a. fst a \<le> at) (dq_pending q) @ [(at, h, k)] @
                      filter (\<lambda>a. at < fst a) (dq_pending q)" if "dq_push q at k = Inr (h, q')"
    using dq_push_refines [OF inv that] by (intro conjI)
qed (rule dq_default dq_cancel_refines dq_next_deadline_refines dq_pop_due_refines; assumption)+

section \<open>Runs against a reference alarm list\<close>

datatype 'k dq_op =
    OpPush instant 'k | OpCancel deadline_handle | OpNext | OpPop instant

datatype 'k dq_out =
    OutHandle deadline_handle | OutCancelled bool | OutNext "instant option" | OutKey "'k option"

fun dq_step :: "'k deadline_queue \<Rightarrow> 'k dq_op \<Rightarrow> ('k dq_out \<times> 'k deadline_queue) run" where
  "dq_step q (OpPush at k) = run_bind (dq_push q at k) (\<lambda>(h, q'). Inr (OutHandle h, q'))"
| "dq_step q (OpCancel h) = (case dq_cancel q h of (b, q') \<Rightarrow> Inr (OutCancelled b, q'))"
| "dq_step q OpNext = (case dq_next_deadline q of (d, q') \<Rightarrow> Inr (OutNext d, q'))"
| "dq_step q (OpPop now) = run_bind (dq_pop_due q now) (\<lambda>(k, q'). Inr (OutKey k, q'))"

text \<open>The reference: the pending alarms alone, in firing order, and the last handle issued.\<close>

fun alarms_step ::
  "(deadline_handle, 'k) alarm list \<times> u64 \<Rightarrow> 'k dq_op \<Rightarrow>
   ('k dq_out \<times> (deadline_handle, 'k) alarm list \<times> u64) run" where
  "alarms_step (as, n) (OpPush at k) =
     run_bind (counter_successor n)
       (\<lambda>n'. Inr (OutHandle (DeadlineHandle n'),
          filter (\<lambda>a. fst a \<le> at) as @ (at, DeadlineHandle n', k) # filter (\<lambda>a. at < fst a) as, n'))"
| "alarms_step (as, n) (OpCancel h) =
     Inr (OutCancelled (\<exists>a \<in> set as. fst (snd a) = h), filter (\<lambda>a. fst (snd a) \<noteq> h) as, n)"
| "alarms_step (as, n) OpNext =
     Inr (OutNext (case as of [] \<Rightarrow> None | a # _ \<Rightarrow> Some (fst a)), as, n)"
| "alarms_step (as, n) (OpPop now) =
     Inr (case as of
            [] \<Rightarrow> (OutKey None, [], n)
          | a # rest \<Rightarrow>
              if fst a \<le> now then (OutKey (Some (snd (snd a))), rest, n) else (OutKey None, as, n))"

definition alarms_of :: "'k deadline_queue \<Rightarrow> (deadline_handle, 'k) alarm list \<times> u64" where
  "alarms_of q = (dq_pending q, counter_current (dq_registration_ids q))"

lemma alarms_of_default: "alarms_of deadline_queue_default = ([], 0)"
proof -
  have "counter_current (dq_registration_ids (deadline_queue_default :: 'a deadline_queue)) = 0"
    by (simp add: deadline_queue_default_def counter_new_def)
  then show ?thesis by (simp add: alarms_of_def dq_default(2))
qed

lemma dq_ids:
  "dq_cancel q h = (b, q') \<Longrightarrow> dq_registration_ids q' = dq_registration_ids q"
  "dq_next_deadline q = (d, q') \<Longrightarrow> dq_registration_ids q' = dq_registration_ids q"
  "dq_pop_due q now = Inr (k, q') \<Longrightarrow> dq_registration_ids q' = dq_registration_ids q"
  by (auto simp: dq_cancel_def dq_take_def compact_if_sparse_def dq_next_deadline_def Let_def
      prune_stale_head_def dq_pop_due_def split: if_splits prod.splits option.splits)

lemma dq_step_refines:
  assumes inv: "dq_inv q"
  shows "run_bind (dq_step q p) (\<lambda>(x, q'). Inr (x, alarms_of q')) = alarms_step (alarms_of q) p"
    and "dq_step q p = Inr (x, q') \<Longrightarrow> dq_inv q'"
proof -
  show "run_bind (dq_step q p) (\<lambda>(x, q'). Inr (x, alarms_of q')) = alarms_step (alarms_of q) p"
  proof (cases p)
    case (OpPush at k)
    show ?thesis
    proof (cases "dq_push q at k")
      case (Inl f)
      then have "counter_successor (counter_current (dq_registration_ids q)) = Inl f"
        by (auto simp: dq_push_def next_handle_def counter_mint_def run_bind_eq_Inl)
      with Inl OpPush show ?thesis by (simp add: alarms_of_def)
    next
      case (Inr r)
      then obtain h q' where r: "dq_push q at k = Inr (h, q')" by (cases r) auto
      obtain n where n: "counter_successor (counter_current (dq_registration_ids q)) = Inr n"
          "h = DeadlineHandle n" "counter_current (dq_registration_ids q') = n"
        using r by (auto simp: dq_push_def next_handle_def run_bind_eq_Inr counter_mint_Inr)
      from dlq.push [OF inv r] n r OpPush show ?thesis by (simp add: alarms_of_def)
    qed
  next
    case (OpCancel h)
    obtain b q' where c: "dq_cancel q h = (b, q')" by force
    from dlq.cancel [OF inv c] c dq_ids(1) [OF c] OpCancel show ?thesis
      by (auto simp: alarms_of_def)
  next
    case OpNext
    obtain d q' where c: "dq_next_deadline q = (d, q')" by force
    from dlq.next_deadline [OF inv c] c dq_ids(2) [OF c] OpNext show ?thesis
      by (auto simp: alarms_of_def)
  next
    case (OpPop now)
    obtain k q' where c: "dq_pop_due q now = Inr (k, q')"
        and r: "case dq_pending q of
         a # rest \<Rightarrow>
           if fst a \<le> now then k = Some (snd (snd a)) \<and> dq_pending q' = rest
           else k = None \<and> dq_pending q' = dq_pending q
       | [] \<Rightarrow> k = None \<and> dq_pending q' = []"
      using dlq.pop_due [OF inv] by blast
    from r c dq_ids(3) [OF c] OpPop show ?thesis
      by (auto simp: alarms_of_def split: list.splits if_splits)
  qed
  show "dq_inv q'" if "dq_step q p = Inr (x, q')"
  proof (cases p)
    case (OpPop now)
    with that show ?thesis using dlq.pop_due [OF inv, of now] by (auto simp: run_bind_eq_Inr)
  qed (use that in \<open>auto simp: run_bind_eq_Inr split: prod.splits
        dest: dlq.push [OF inv] dlq.cancel [OF inv] dlq.next_deadline [OF inv]\<close>)
qed

lemma run_ops_refines:
  assumes "dq_inv q"
  shows "run_bind (run_ops dq_step q ps) (\<lambda>(xs, q'). Inr (xs, alarms_of q')) =
         run_ops alarms_step (alarms_of q) ps"
  using assms
proof (induction ps arbitrary: q)
  case (Cons p ps)
  show ?case
  proof (cases "dq_step q p")
    case (Inl f)
    with dq_step_refines(1) [OF Cons.prems, of p] have "alarms_step (alarms_of q) p = Inl f" by simp
    with Inl show ?thesis by simp
  next
    case (Inr r)
    then obtain x q1 where r: "dq_step q p = Inr (x, q1)" by (cases r) auto
    from dq_step_refines(1) [OF Cons.prems, of p] r
    have a: "alarms_step (alarms_of q) p = Inr (x, alarms_of q1)" by simp
    note ih = Cons.IH [OF dq_step_refines(2) [OF Cons.prems r], symmetric]
    show ?thesis
      by (cases "run_ops dq_step q1 ps") (auto simp: r a ih)
  qed
qed simp

lemma dq_pending_distinct:
  assumes "dq_inv q"
  shows "distinct (map (\<lambda>a. fst (snd a)) (dq_pending q))"
proof -
  have "distinct (map entry_handle es) \<Longrightarrow>
      distinct (map (\<lambda>a. fst (snd a)) (List.map_filter (live_entry m) es))"
    for es and m :: "(deadline_handle, 'a) btree"
    by (induction es) (auto simp: map_filter_simps live_entry_def set_map_filter split: option.splits)
  with assms show ?thesis by (simp add: dq_inv_def dq_pending_def)
qed

lemma dq_pending_length:
  assumes "dq_inv q"
  shows "length (dq_pending q) = length (dq_registrations q)"
proof -
  have sub: "set (bt_keys (dq_registrations q)) \<subseteq> dq_handles q" and wf: "bt_wf (dq_registrations q)"
    using assms by (simp_all add: dq_inv_def)
  have "length (dq_pending q) = card (set (map (\<lambda>a. fst (snd a)) (dq_pending q)))"
    using distinct_card [OF dq_pending_distinct [OF assms]] by simp
  also have "\<dots> = card (set (bt_keys (dq_registrations q)))"
    using dq_pending_handles [OF sub] by simp
  also have "\<dots> = length (dq_registrations q)"
    using distinct_card [OF btm.keys_distinct [OF wf]] by (simp add: bt_keys_def)
  finally show ?thesis .
qed

lemma run_ops_inv: "dq_inv q \<Longrightarrow> run_ops dq_step q ps = Inr (xs, q') \<Longrightarrow> dq_inv q'"
proof (induction ps arbitrary: q xs)
  case (Cons p ps)
  then show ?case using dq_step_refines(2) by (fastforce simp: run_bind_eq_Inr)
qed simp

lemma run_alarms_issued:
  assumes "run_ops alarms_step (as, n) ps = Inr (xs, as', n')"
  shows "n \<le> n' \<and> (\<forall>h. OutHandle h \<in> set xs \<longrightarrow> handle_get h \<le> n')"
  using assms
proof (induction ps arbitrary: as n xs)
  case (Cons p ps)
  then obtain x as1 n1 xs1 where st: "alarms_step (as, n) p = Inr (x, as1, n1)"
      and r: "run_ops alarms_step (as1, n1) ps = Inr (xs1, as', n')" and xs: "xs = x # xs1"
    by (auto simp: run_bind_eq_Inr)
  have "n \<le> n1 \<and> (\<forall>h. x = OutHandle h \<longrightarrow> handle_get h \<le> n1)"
    using st by (cases p)
      (auto simp: run_bind_eq_Inr dest!: counter_successor_less split: list.splits if_splits)
  with Cons.IH [OF r] xs show ?case by auto
qed simp

lemma run_ops_issued:
  assumes "run_ops dq_step deadline_queue_default ps = Inr (xs, q)" "OutHandle h \<in> set xs"
  shows "handle_get h \<le> counter_current (dq_registration_ids q)"
proof -
  have "run_ops alarms_step (alarms_of (deadline_queue_default :: 'a deadline_queue)) ps = Inr (xs, alarms_of q)"
    using run_ops_refines [OF dq_default(1), of ps] assms(1) by simp
  from run_alarms_issued [OF this [unfolded alarms_of_def]] assms(2) show ?thesis by blast
qed

lemma alarms_step_stale:
  assumes st: "alarms_step (as, n) p = Inr (x, as', n')" and le: "handle_get h \<le> n"
    and notin: "\<forall>a \<in> set as. fst (snd a) \<noteq> h"
  shows "handle_get h \<le> n' \<and> (\<forall>a \<in> set as'. fst (snd a) \<noteq> h) \<and> x \<noteq> OutHandle h \<and>
         (p = OpCancel h \<longrightarrow> x = OutCancelled False)"
proof (cases p)
  case (OpPush at k)
  with st have "counter_successor n = Inr n'" by (auto simp: run_bind_eq_Inr)
  then have "handle_get h < n'" using counter_successor_less le by fastforce
  with OpPush st notin show ?thesis by (cases h) (auto simp: run_bind_eq_Inr)
qed (use assms in \<open>auto split: list.splits if_splits\<close>)

lemma run_alarms_stale:
  assumes "run_ops alarms_step (as, n) ps = Inr (xs, s)" "handle_get h \<le> n"
    "\<forall>a \<in> set as. fst (snd a) \<noteq> h"
  shows "OutHandle h \<notin> set xs \<and>
         (\<forall>i < length ps. ps ! i = OpCancel h \<longrightarrow> xs ! i = OutCancelled False)"
  using assms
proof (induction ps arbitrary: as n xs)
  case (Cons p ps)
  then obtain x as1 n1 xs1 where st: "alarms_step (as, n) p = Inr (x, as1, n1)"
      and r: "run_ops alarms_step (as1, n1) ps = Inr (xs1, s)" and xs: "xs = x # xs1"
    by (auto simp: run_bind_eq_Inr)
  note f = alarms_step_stale [OF st Cons.prems(2,3)]
  from Cons.IH [OF r] f xs show ?case
    by (auto simp: nth_Cons split: nat.splits)
qed simp

text \<open>Alarms fire by deadline, and at one deadline by handle, which is the order in which they were armed.\<close>

definition fires_before :: "(deadline_handle, 'k) alarm \<Rightarrow> (deadline_handle, 'k) alarm \<Rightarrow> bool" where
  "fires_before a b \<longleftrightarrow> fst a < fst b \<or> fst a = fst b \<and> fst (snd a) < fst (snd b)"

definition armed_before :: "'k dq_out \<Rightarrow> 'k dq_out \<Rightarrow> bool" where
  "armed_before x y \<longleftrightarrow> (\<forall>h g. x = OutHandle h \<and> y = OutHandle g \<longrightarrow> h < g)"

lemma dq_pending_fires:
  assumes "dq_inv q"
  shows "sorted_wrt fires_before (dq_pending q)"
proof -
  have "sorted_wrt (>) es \<Longrightarrow> sorted_wrt fires_before (List.map_filter (live_entry m) es)"
    for es and m :: "(deadline_handle, 'a) btree"
    by (induction es) (auto simp: map_filter_simps live_entry_def set_map_filter less_deadline_entry_def fires_before_def
        split: option.splits)
  with assms show ?thesis by (simp add: dq_inv_def dq_pending_def)
qed

lemma run_alarms_armed:
  assumes "run_ops alarms_step (as, n) ps = Inr (xs, as', n')"
  shows "sorted_wrt armed_before xs \<and> (\<forall>h. OutHandle h \<in> set xs \<longrightarrow> n < handle_get h) \<and>
    (\<forall>a \<in> set as'. a \<in> set as \<or> OutHandle (fst (snd a)) \<in> set xs)"
  using assms
proof (induction ps arbitrary: as n xs)
  case (Cons p ps)
  then obtain x as1 n1 xs1 where st: "alarms_step (as, n) p = Inr (x, as1, n1)"
      and r: "run_ops alarms_step (as1, n1) ps = Inr (xs1, as', n')" and xs: "xs = x # xs1"
    by (auto simp: run_bind_eq_Inr)
  have step: "n \<le> n1" "x = OutHandle h \<Longrightarrow> handle_get h = n1 \<and> n < n1"
    "a \<in> set as1 \<Longrightarrow> a \<in> set as \<or> x = OutHandle (fst (snd a))" for h a
    using st by (cases p; auto simp: run_bind_eq_Inr dest!: counter_successor_less split: list.splits if_splits)+
  note ih = Cons.IH [OF r]
  have "armed_before x y" if "y \<in> set xs1" for y
    using step(2) ih that by (auto simp: armed_before_def less_deadline_handle_def)
  moreover have "n < handle_get h" if "OutHandle h \<in> set xs" for h
    using that step ih xs by (cases "x = OutHandle h") (auto intro: le_less_trans)
  moreover have "a \<in> set as \<or> OutHandle (fst (snd a)) \<in> set xs" if "a \<in> set as'" for a
    using ih that step(3) [of a] by (auto simp: xs)
  ultimately show ?case using ih by (simp add: xs)
qed simp

lemma run_ops_armed:
  assumes "run_ops dq_step deadline_queue_default ps = Inr (xs, q)"
  shows "sorted_wrt armed_before xs" "a \<in> set (dq_pending q) \<Longrightarrow> OutHandle (fst (snd a)) \<in> set xs"
proof -
  have "run_ops alarms_step ([], 0) ps = Inr (xs, alarms_of q)"
    using run_ops_refines [OF dq_default(1), of ps] assms by (simp add: alarms_of_default)
  from run_alarms_armed [OF this [unfolded alarms_of_def]]
  show "sorted_wrt armed_before xs" "a \<in> set (dq_pending q) \<Longrightarrow> OutHandle (fst (snd a)) \<in> set xs" by auto
qed

section \<open>Properties\<close>

text \<open>
  C6: The lazily pruned, lazily compacted heap behaves exactly like a sorted list of the live
  alarms: over any sequence of arming, cancelling, peeking and popping, every result (handles,
  cancellation verdicts, next deadlines, fired keys) and every abort on handle exhaustion agrees
  with the reference. Alarms armed for the same instant fire in arming order.
\<close>

theorem deadline_queue_refines_alarms:
  "run_bind (run_ops dq_step deadline_queue_default ops) (\<lambda>(xs, q). Inr (xs, alarms_of q)) =
   run_ops alarms_step ([], 0) ops"
  using run_ops_refines [OF dq_default(1), of ops] by (simp only: alarms_of_default)

lemmas dq_eval = dq_push_def next_handle_def counter_mint_def counter_successor_def checked_add_u64_def
  deadline_queue_default_def counter_new_def dq_cancel_def dq_take_def bt_remove_def
  compact_if_sparse_def heap_retain_def dq_is_active_def bt_get_def
  less_deadline_handle_def less_eq_deadline_entry_def less_eq_deadline_handle_def

text \<open>
  C37: The driver's collection loop terminates without a panic and collects exactly the keys of the
  alarms due at \<open>now\<close>, earliest first, leaving the others armed. Alarms with one deadline are collected in
  the order of their handles, and every armed alarm has the handle its push returned, each larger than
  the ones returned before it: ties are broken in arming order.
\<close>

theorem due_alarms_collected_in_order:
  assumes "run_ops dq_step deadline_queue_default ops = Inr (xs, q)"
  shows "\<exists>q'. collect_due q now =
      Inr (Some (map (\<lambda>a. snd (snd a)) (filter (\<lambda>a. fst a \<le> now) (dq_pending q)), q')) \<and>
    dq_pending q' = filter (\<lambda>a. now < fst a) (dq_pending q) \<and>
    sorted_wrt (\<lambda>a b. fst a < fst b \<or> fst a = fst b \<and> fst (snd a) < fst (snd b)) (dq_pending q) \<and>
    (\<forall>a \<in> set (dq_pending q). OutHandle (fst (snd a)) \<in> set xs) \<and>
    (\<forall>i j h g. i < j \<and> j < length xs \<and> xs ! i = OutHandle h \<and> xs ! j = OutHandle g \<longrightarrow> h < g)"
proof -
  have inv: "dq_inv q" by (rule run_ops_inv [OF dq_default(1) assms])
  have "h < g" if "i < j" "j < length xs" "xs ! i = OutHandle h" "xs ! j = OutHandle g" for i j h g
    using sorted_wrt_nth_less [OF run_ops_armed(1) [OF assms] that(1,2)] that(3,4) by (simp add: armed_before_def)
  moreover have "sorted_wrt (\<lambda>a b. fst a < fst b \<or> fst a = fst b \<and> fst (snd a) < fst (snd b)) (dq_pending q)"
    using dq_pending_fires [OF inv] unfolding fires_before_def .
  moreover have "\<exists>q'. collect_due q now =
      Inr (Some (map (\<lambda>a. snd (snd a)) (filter (\<lambda>a. fst a \<le> now) (dq_pending q)), q')) \<and>
    dq_pending q' = filter (\<lambda>a. now < fst a) (dq_pending q)"
    unfolding collect_due_def
    using dlq.collect_due_exact [OF inv, of "Suc (length (dq_registrations q))" now]
      dq_pending_length [OF inv] by auto
  ultimately show ?thesis using run_ops_armed(2) [OF assms] by blast
qed

theorem due_alarms_collected_in_order_witness:
  "\<exists>q q'. run_ops dq_step deadline_queue_default [OpPush 9 ''c'', OpPush 5 ''a'', OpPush 5 ''b''] =
       Inr ([OutHandle (DeadlineHandle 1), OutHandle (DeadlineHandle 2), OutHandle (DeadlineHandle 3)], q) \<and>
     collect_due q 7 = Inr (Some ([''a'', ''b''], q')) \<and> dq_pending q' = [(9, DeadlineHandle 1, ''c'')]"
proof -
  let ?ops = "[OpPush 9 ''c'', OpPush 5 ''a'', OpPush 5 ''b'']"
  let ?q = "\<lparr>dq_registration_ids = \<lparr>counter_current = 3\<rparr>,
      dq_entries = [DeadlineEntry 5 (DeadlineHandle 2), DeadlineEntry 5 (DeadlineHandle 3),
                    DeadlineEntry 9 (DeadlineHandle 1)],
      dq_registrations = [(DeadlineHandle 1, ''c''), (DeadlineHandle 2, ''a''), (DeadlineHandle 3, ''b'')]\<rparr>"
  have r: "run_ops dq_step deadline_queue_default ?ops =
      Inr ([OutHandle (DeadlineHandle 1), OutHandle (DeadlineHandle 2), OutHandle (DeadlineHandle 3)], ?q)"
    by (simp add: dq_eval)
  have p: "dq_pending ?q =
      [(5, DeadlineHandle 2, ''a''), (5, DeadlineHandle 3, ''b''), (9, DeadlineHandle 1, ''c'')]"
    by (simp add: dq_pending_def live_entry_def map_filter_simps bt_get_def)
  from due_alarms_collected_in_order [OF r, of 7] obtain q' where "collect_due ?q 7 =
      Inr (Some (map (\<lambda>a. snd (snd a)) (filter (\<lambda>a. fst a \<le> 7) (dq_pending ?q)), q'))"
      "dq_pending q' = filter (\<lambda>a. 7 < fst a) (dq_pending ?q)" by blast
  then have "collect_due ?q 7 = Inr (Some ([''a'', ''b''], q')) \<and> dq_pending q' = [(9, DeadlineHandle 1, ''c'')]"
    unfolding p by simp
  with r show ?thesis by blast
qed

text \<open>
  C40: Handles are never reused. Once an issued handle is no longer armed, no later operation issues
  it again and every later cancellation of it misses.
\<close>

theorem stale_handle_misses:
  assumes "run_ops dq_step deadline_queue_default before = Inr (xs, q)"
    "OutHandle h \<in> set xs" "h \<notin> (\<lambda>a. fst (snd a)) ` set (dq_pending q)"
    "run_ops dq_step q after = Inr (ys, q')"
  shows "OutHandle h \<notin> set ys \<and>
    (\<forall>i < length after. after ! i = OpCancel h \<longrightarrow> ys ! i = OutCancelled False)"
proof -
  have inv: "dq_inv q" by (rule run_ops_inv [OF dq_default(1) assms(1)])
  have "handle_get h \<le> counter_current (dq_registration_ids q)"
    using run_ops_issued [OF assms(1,2)] .
  moreover have "run_ops alarms_step (alarms_of q) after = Inr (ys, alarms_of q')"
    using run_ops_refines [OF inv, of after] assms(4) by simp
  moreover have "\<forall>a \<in> set (dq_pending q). fst (snd a) \<noteq> h"
    using assms(3) by auto
  ultimately show ?thesis
    unfolding alarms_of_def by (intro run_alarms_stale)
qed

theorem stale_handle_misses_witness:
  "\<exists>ys q'. run_ops dq_step
      (snd (projr (run_ops dq_step deadline_queue_default [OpPush 9 ''c'', OpCancel (DeadlineHandle 1)])))
      [OpPush 9 ''d'', OpCancel (DeadlineHandle 1)] = Inr (ys, q') \<and> ys ! 1 = OutCancelled False"
proof -
  let ?b = "[OpPush 9 ''c'', OpCancel (DeadlineHandle 1)]"
  let ?a = "[OpPush 9 ''d'', OpCancel (DeadlineHandle 1)]"
  let ?q = "\<lparr>dq_registration_ids = \<lparr>counter_current = 1\<rparr>, dq_entries = [],
              dq_registrations = []\<rparr> :: string deadline_queue"
  have r: "run_ops dq_step deadline_queue_default ?b =
      Inr ([OutHandle (DeadlineHandle 1), OutCancelled True], ?q)"
    by (simp add: dq_eval)
  have p: "dq_pending ?q = []"
    by (simp add: dq_pending_def map_filter_simps)
  obtain ys q' where r': "run_ops dq_step ?q ?a = Inr (ys, q')"
    by (simp add: dq_eval)
  from stale_handle_misses [OF r _ _ r', of "DeadlineHandle 1"] p
  have "ys ! 1 = OutCancelled False" by auto
  moreover have "snd (projr (run_ops dq_step deadline_queue_default ?b)) = ?q" unfolding r by simp
  ultimately show ?thesis using r' by (simp only:) blast
qed

text \<open>
  Cancelled deadlines do not accumulate: after any successful cancellation the heap holds at
  most twice as many entries as there are armed deadlines.
\<close>

theorem cancel_bounds_storage:
  assumes "run_ops dq_step deadline_queue_default ops = Inr (xs, q)" "dq_cancel q h = (True, q')"
  shows "length (dq_entries q') \<le> 2 * length (dq_registrations q')"
proof -
  have inv: "dq_inv q" by (rule run_ops_inv [OF dq_default(1) assms(1)])
  obtain k q1 where t: "dq_take q h = (k, q1)" by force
  have q': "q' = compact_if_sparse q1"
    using assms(2) t by (auto simp: dq_cancel_def split: if_splits)
  have inv': "dq_inv q'"
    using dq_take_refines(1) [OF inv t] compact_refines(1) unfolding q' by blast
  show ?thesis
  proof (cases "length (dq_registrations q1) * 2 < length (dq_entries q1)")
    case True
    have "length (dq_entries q') = length (dq_pending q')"
      using True unfolding q' dq_pending_def map_filter_length_filter
      by (simp add: compact_if_sparse_def heap_retain_def dq_is_active_def live_entry_None)
    then show ?thesis using dq_pending_length [OF inv'] by simp
  qed (simp add: q' compact_if_sparse_def)
qed

theorem cancel_bounds_storage_witness:
  "\<exists>q q'. run_ops dq_step deadline_queue_default [OpPush 9 ''c''] = Inr ([OutHandle (DeadlineHandle 1)], q) \<and>
     dq_cancel q (DeadlineHandle 1) = (True, q') \<and> length (dq_entries q') \<le> 2 * length (dq_registrations q')"
proof -
  let ?q = "\<lparr>dq_registration_ids = \<lparr>counter_current = 1\<rparr>,
      dq_entries = [DeadlineEntry 9 (DeadlineHandle 1)],
      dq_registrations = [(DeadlineHandle 1, ''c'')]\<rparr>"
  have r: "run_ops dq_step deadline_queue_default [OpPush 9 ''c''] = Inr ([OutHandle (DeadlineHandle 1)], ?q)"
    by (simp add: dq_eval)
  obtain q' where "dq_cancel ?q (DeadlineHandle 1) = (True, q')"
    by (simp add: dq_eval)
  with cancel_bounds_storage [OF r] r show ?thesis by blast
qed

end
