(* ===== verification/Supervisor.thy ===== *)
theory Supervisor
  imports Restart Lifecycle
begin

text \<open>
  The pure structural supervision reducer: \<open>crates/shelterwood-core/src/supervisor.rs\<close>. Every
  transition returns the effects it appends together with the new state. The test-only inspection
  counter is left out.
\<close>

section \<open>Keys, child states and records\<close>

datatype child_key = ChildKey (child_key_get: u64)

instantiation child_key :: linorder
begin

definition less_eq_child_key :: "child_key \<Rightarrow> child_key \<Rightarrow> bool" where
  "less_eq_child_key a b \<longleftrightarrow> child_key_get a \<le> child_key_get b"

definition less_child_key :: "child_key \<Rightarrow> child_key \<Rightarrow> bool" where
  "less_child_key a b \<longleftrightarrow> child_key_get a < child_key_get b"

instance
  by standard (auto simp: less_eq_child_key_def less_child_key_def child_key.expand)

end

datatype incarnation_state =
    InUnstarted | InActive | InStopping | InComplete | InRestartPending | InDisposing | InJoined

datatype child_state =
    Resident incarnation_state
  | SampledState incarnation_state
  | RemovingState incarnation_state

fun child_incarnation :: "child_state \<Rightarrow> incarnation_state" where
  "child_incarnation (Resident i) = i"
| "child_incarnation (SampledState i) = i"
| "child_incarnation (RemovingState i) = i"

fun with_incarnation :: "child_state \<Rightarrow> incarnation_state \<Rightarrow> child_state" where
  "with_incarnation (Resident _) i = Resident i"
| "with_incarnation (SampledState _) i = SampledState i"
| "with_incarnation (RemovingState _) i = RemovingState i"

fun removal_sampled :: "child_state \<Rightarrow> child_state" where
  "removal_sampled (Resident i) = SampledState i"
| "removal_sampled s = s"

definition state_joined :: "child_state \<Rightarrow> bool" where
  "state_joined s \<longleftrightarrow> child_incarnation s = InJoined"

fun state_membership_status :: "child_state \<Rightarrow> membership_status" where
  "state_membership_status (Resident _) = Active"
| "state_membership_status _ = Removing"

datatype startup_membership = Initial bool | Runtime

record child_record =
  cr_membership :: membership
  cr_state :: child_state
  cr_startup :: startup_membership
  cr_spawned_once :: bool

definition startable :: "child_record \<Rightarrow> bool" where
  "startable r \<longleftrightarrow> cr_state r = Resident InUnstarted \<or> cr_state r = Resident InRestartPending"

section \<open>Events, effects and the state\<close>

datatype event =
    EvSpawned child_key
  | EvReady child_key
  | EvIncarnationComplete child_key
  | EvRestartPending child_key
  | EvStopStarted child_key
  | EvDisposalStarted child_key
  | EvTerminalized child_key
  | EvRemovalSampled child_key
  | EvRemovalLatched child_key
  | EvReclaim child_key
  | EvSettle

datatype effect =
    StartChild child_key
  | StopChild child_key
  | ForceChild child_key
  | FinalizeRemoval child_key
  | StartupCompleted scope_state
  | FinishedWith stop_reason

type_synonym children = "(child_key, child_record) btree"

record supervisor_state =
  ss_flavor :: scope_flavor
  ss_lifecycle :: scope_lifecycle
  ss_children :: children
  ss_child_keys :: "membership \<rightharpoonup> child_key"
  ss_keys :: monotonic_counter
  ss_next_ordered_start :: "child_key option"
  ss_ordered_stop_cursor :: "child_key option"
  ss_ordered_stop_waiting :: "child_key option"
  ss_hard_forced :: bool
  ss_finish_emitted :: bool

definition supervisor_new :: "scope_flavor \<Rightarrow> scope_lifecycle \<Rightarrow> supervisor_state" where
  "supervisor_new flavor lifecycle =
     \<lparr>ss_flavor = flavor, ss_lifecycle = lifecycle, ss_children = [], ss_child_keys = Map.empty,
      ss_keys = counter_new, ss_next_ordered_start = None, ss_ordered_stop_cursor = None,
      ss_ordered_stop_waiting = None, ss_hard_forced = False, ss_finish_emitted = False\<rparr>"

section \<open>Queries\<close>

definition key_for :: "supervisor_state \<Rightarrow> membership \<Rightarrow> child_key option" where
  "key_for s m = ss_child_keys s m"

definition contains :: "supervisor_state \<Rightarrow> child_key \<Rightarrow> bool" where
  "contains s c \<longleftrightarrow> bt_get (ss_children s) c \<noteq> None"

definition child_state_of :: "supervisor_state \<Rightarrow> child_key \<Rightarrow> child_state option" where
  "child_state_of s c = map_option cr_state (bt_get (ss_children s) c)"

definition sup_membership_status :: "supervisor_state \<Rightarrow> child_key \<Rightarrow> membership_status" where
  "sup_membership_status s c =
     (case child_state_of s c of None \<Rightarrow> Removing | Some st \<Rightarrow> state_membership_status st)"

definition is_initial :: "supervisor_state \<Rightarrow> child_key \<Rightarrow> bool" where
  "is_initial s c =
     (case bt_get (ss_children s) c of
        None \<Rightarrow> False
      | Some r \<Rightarrow> (case cr_startup r of Initial _ \<Rightarrow> True | Runtime \<Rightarrow> False))"

definition initial_ready :: "supervisor_state \<Rightarrow> child_key \<Rightarrow> bool" where
  "initial_ready s c =
     (case bt_get (ss_children s) c of None \<Rightarrow> False | Some r \<Rightarrow> cr_startup r = Initial True)"

definition spawned_once :: "supervisor_state \<Rightarrow> child_key \<Rightarrow> bool" where
  "spawned_once s c =
     (case bt_get (ss_children s) c of None \<Rightarrow> False | Some r \<Rightarrow> cr_spawned_once r)"

definition is_disposing :: "supervisor_state \<Rightarrow> child_key \<Rightarrow> bool" where
  "is_disposing s c =
     (case child_state_of s c of None \<Rightarrow> False | Some st \<Rightarrow> child_incarnation st = InDisposing)"

definition sup_joined :: "supervisor_state \<Rightarrow> child_key \<Rightarrow> bool" where
  "sup_joined s c = (case child_state_of s c of None \<Rightarrow> False | Some st \<Rightarrow> state_joined st)"

definition is_incomplete :: "supervisor_state \<Rightarrow> child_key \<Rightarrow> bool" where
  "is_incomplete s c \<longleftrightarrow> contains s c \<and> \<not> sup_joined s c"

definition all_children_joined :: "supervisor_state \<Rightarrow> bool" where
  "all_children_joined s \<longleftrightarrow> (\<forall>r \<in> set (bt_values (ss_children s)). state_joined (cr_state r))"

section \<open>Transitions of one child\<close>

definition modify_child ::
  "child_key \<Rightarrow> (child_record \<Rightarrow> child_record) \<Rightarrow> supervisor_state \<Rightarrow> supervisor_state" where
  "modify_child c f s = s\<lparr>ss_children := bt_modify c f (ss_children s)\<rparr>"

definition transition_incarnation ::
  "supervisor_state \<Rightarrow> child_key \<Rightarrow> incarnation_state list \<Rightarrow> incarnation_state \<Rightarrow>
   bool \<times> supervisor_state" where
  "transition_incarnation s c expected next_state =
     (case bt_get (ss_children s) c of
        None \<Rightarrow> (False, s)
      | Some r \<Rightarrow>
          if state_joined (cr_state r) \<or> child_incarnation (cr_state r) \<notin> set expected then (False, s)
          else (True, modify_child c (\<lambda>r. r\<lparr>cr_state := with_incarnation (cr_state r) next_state\<rparr>) s))"

definition sample_removal :: "supervisor_state \<Rightarrow> child_key \<Rightarrow> supervisor_state" where
  "sample_removal s c = modify_child c (\<lambda>r. r\<lparr>cr_state := removal_sampled (cr_state r)\<rparr>) s"

definition sup_admit :: "supervisor_state \<Rightarrow> membership \<Rightarrow> bool \<Rightarrow> (child_key \<times> supervisor_state) run" where
  "sup_admit s m initial =
     run_bind (counter_mint (ss_keys s))
       (\<lambda>(n, counter).
          let child = ChildKey n;
              record = \<lparr>cr_membership = m, cr_state = Resident InUnstarted,
                        cr_startup = (if initial then Initial False else Runtime),
                        cr_spawned_once = False\<rparr>;
              s1 = s\<lparr>ss_keys := counter,
                     ss_children := bt_insert child record (ss_children s),
                     ss_child_keys := (ss_child_keys s)(m \<mapsto> child)\<rparr>
          in Inr (child,
               if initial \<and> ss_flavor s = Ordered \<and> ss_next_ordered_start s = None
               then s1\<lparr>ss_next_ordered_start := Some child\<rparr> else s1))"

section \<open>Settlement\<close>

text \<open>
  The ordered-startup loop over the cursor. It returns whether it ran off the end of the children
  (otherwise the source returns from the whole settlement), the effects and the cursor.
\<close>

definition keys_above :: "children \<Rightarrow> child_key \<Rightarrow> nat" where
  "keys_above m c = length (filter (\<lambda>k. c < k) (bt_keys m))"

definition keys_below :: "children \<Rightarrow> child_key \<Rightarrow> nat" where
  "keys_below m c = length (filter (\<lambda>k. k < c) (bt_keys m))"

lemma length_filter_strict:
  "x \<in> set xs \<Longrightarrow> Q x \<Longrightarrow> \<not> P x \<Longrightarrow> (\<And>y. P y \<Longrightarrow> Q y) \<Longrightarrow> length (filter P xs) < length (filter Q xs)"
proof (induction xs)
  case (Cons a xs)
  have "length (filter P xs) \<le> length (filter Q xs)"
    using Cons.prems(4) by (induction xs) auto
  with Cons show ?case by (cases "a = x") auto
qed simp

lemma bt_first_after_above:
  assumes "bt_first_after m c = Some k"
  shows "keys_above m k < keys_above m c"
proof -
  have "filter (\<lambda>k. c < k) (bt_keys m) = k # tl (filter (\<lambda>k. c < k) (bt_keys m))"
    using assms by (auto simp: bt_first_after_def split: list.splits)
  then have "k \<in> set (filter (\<lambda>k. c < k) (bt_keys m))" by (metis list.set_intros(1))
  then show ?thesis
    unfolding keys_above_def by (intro length_filter_strict [of k]) (auto intro: less_trans)
qed

lemma bt_last_before_below:
  assumes "bt_last_before m c = Some k"
  shows "keys_below m k < keys_below m c"
proof -
  have "rev (filter (\<lambda>k. k < c) (bt_keys m)) = k # tl (rev (filter (\<lambda>k. k < c) (bt_keys m)))"
    using assms by (auto simp: bt_last_before_def split: list.splits)
  then have "k \<in> set (rev (filter (\<lambda>k. k < c) (bt_keys m)))" by (metis list.set_intros(1))
  then show ?thesis
    unfolding keys_below_def by (intro length_filter_strict [of k]) (auto intro: less_trans)
qed

function ordered_start :: "children \<Rightarrow> child_key option \<Rightarrow> bool \<times> effect list \<times> child_key option" where
  "ordered_start m None = (True, [], None)"
| "ordered_start m (Some c) =
     (case bt_get m c of
        None \<Rightarrow> ordered_start m (bt_first_after m c)
      | Some r \<Rightarrow>
          if state_membership_status (cr_state r) = Removing then (False, [], Some c)
          else if \<not> cr_spawned_once r then
            (False, if startable r then [StartChild c] else [], Some c)
          else if cr_startup r = Initial False then (False, [], Some c)
          else ordered_start m (bt_first_after m c))"
  by pat_completeness auto
termination
  by (relation "measure (\<lambda>(m, c). case c of None \<Rightarrow> 0 | Some c \<Rightarrow> Suc (keys_above m c))")
    (auto dest: bt_first_after_above split: option.splits)

function ordered_stop :: "children \<Rightarrow> child_key option \<Rightarrow> child_key option \<times> child_key option" where
  "ordered_stop m None = (None, None)"
| "ordered_stop m (Some c) =
     (case bt_get m c of
        Some r \<Rightarrow>
          if \<not> state_joined (cr_state r) then (Some c, bt_last_before m c)
          else ordered_stop m (bt_last_before m c)
      | None \<Rightarrow> ordered_stop m (bt_last_before m c))"
  by pat_completeness auto
termination
  by (relation "measure (\<lambda>(m, c). case c of None \<Rightarrow> 0 | Some c \<Rightarrow> Suc (keys_below m c))")
    (auto dest: bt_last_before_below split: option.splits)

definition dynamic_starts :: "children \<Rightarrow> effect list" where
  "dynamic_starts m =
     map (\<lambda>e. StartChild (fst e))
       (filter (\<lambda>e. (case cr_startup (snd e) of Initial _ \<Rightarrow> True | Runtime \<Rightarrow> False) \<and>
                    \<not> cr_spawned_once (snd e) \<and> startable (snd e)) m)"

definition none_pending :: "children \<Rightarrow> bool" where
  "none_pending m \<longleftrightarrow> (\<forall>r \<in> set (bt_values m). cr_startup r \<noteq> Initial False)"

definition try_complete_startup :: "supervisor_state \<Rightarrow> effect list \<times> supervisor_state" where
  "try_complete_startup s =
     (if none_pending (ss_children s) then
        case complete_startup (ss_lifecycle s) of
          (Some st, l) \<Rightarrow> ([StartupCompleted st], s\<lparr>ss_lifecycle := l\<rparr>)
        | (None, l) \<Rightarrow> ([], s\<lparr>ss_lifecycle := l\<rparr>)
      else ([], s))"

definition settle_startup :: "supervisor_state \<Rightarrow> effect list \<times> supervisor_state" where
  "settle_startup s =
     (if \<not> is_starting (ss_lifecycle s) then ([], s)
      else case ss_flavor s of
        Ordered \<Rightarrow>
          (case ordered_start (ss_children s) (ss_next_ordered_start s) of
             (finished, es, cursor) \<Rightarrow>
               let s1 = s\<lparr>ss_next_ordered_start := cursor\<rparr>
               in if finished then (let (es', s2) = try_complete_startup s1 in (es @ es', s2))
                  else (es, s1))
      | Dynamic \<Rightarrow>
          (let (es', s1) = try_complete_startup s in (dynamic_starts (ss_children s) @ es', s1)))"

definition settle_ordered_stop :: "supervisor_state \<Rightarrow> effect list \<times> supervisor_state" where
  "settle_ordered_stop s =
     (if ss_flavor s \<noteq> Ordered \<or> \<not> is_draining (ss_lifecycle s) then ([], s)
      else if (case ss_ordered_stop_waiting s of None \<Rightarrow> False | Some w \<Rightarrow> is_incomplete s w)
      then ([], s)
      else
        case ordered_stop (ss_children s) (ss_ordered_stop_cursor s) of
          (target, cursor) \<Rightarrow>
            (case target of None \<Rightarrow> [] | Some c \<Rightarrow> [StopChild c],
             s\<lparr>ss_ordered_stop_waiting := target, ss_ordered_stop_cursor := cursor\<rparr>))"

definition settle_finish :: "supervisor_state \<Rightarrow> effect list \<times> supervisor_state" where
  "settle_finish s =
     (if ss_finish_emitted s then ([], s)
      else case finish_if_ready (ss_lifecycle s) (ss_flavor s)
                  \<lparr>cc_has_children = ss_children s \<noteq> [], cc_all_terminal = all_children_joined s\<rparr> of
             None \<Rightarrow> ([], s)
           | Some reason \<Rightarrow> ([FinishedWith reason], s\<lparr>ss_finish_emitted := True\<rparr>))"

definition settle :: "supervisor_state \<Rightarrow> effect list \<times> supervisor_state" where
  "settle s =
     (let (es1, s1) = settle_startup s;
          (es2, s2) = settle_ordered_stop s1;
          (es3, s3) = settle_finish s2
      in (es1 @ es2 @ es3, s3))"

section \<open>The reducer\<close>

definition sup_fail_startup :: "supervisor_state \<Rightarrow> scope_state option \<times> supervisor_state" where
  "sup_fail_startup s =
     (case fail_startup (ss_lifecycle s) of (st, l) \<Rightarrow> (st, s\<lparr>ss_lifecycle := l\<rparr>))"

definition incomplete_children :: "children \<Rightarrow> child_key list" where
  "incomplete_children m = map fst (filter (\<lambda>e. \<not> state_joined (cr_state (snd e))) m)"

definition sup_begin_drain ::
  "supervisor_state \<Rightarrow> stop_reason \<Rightarrow>
   ((bool \<times> scope_state) option \<times> effect list \<times> supervisor_state) run" where
  "sup_begin_drain s reason =
     run_bind (begin_drain (ss_lifecycle s) reason)
       (\<lambda>(transition, l).
          let s1 = s\<lparr>ss_lifecycle := l\<rparr>
          in case transition of
               None \<Rightarrow> Inr (None, [], s1)
             | Some t \<Rightarrow>
                 (case ss_flavor s of
                    Ordered \<Rightarrow>
                      Inr (Some t, [], s1\<lparr>ss_ordered_stop_cursor := bt_last (ss_children s)\<rparr>)
                  | Dynamic \<Rightarrow>
                      Inr (Some t, map StopChild (incomplete_children (ss_children s)), s1)))"

definition sup_force ::
  "supervisor_state \<Rightarrow> ((bool \<times> scope_state) option \<times> effect list \<times> supervisor_state) run" where
  "sup_force s =
     run_bind (sup_begin_drain (s\<lparr>ss_hard_forced := True\<rparr>) ShutdownRequested)
       (\<lambda>(t, es, s1). Inr (t, es @ map ForceChild (incomplete_children (ss_children s1)), s1))"

definition apply_spawned :: "supervisor_state \<Rightarrow> child_key \<Rightarrow> supervisor_state" where
  "apply_spawned s c =
     (case bt_get (ss_children s) c of
        None \<Rightarrow> s
      | Some r \<Rightarrow>
          if startable r
          then modify_child c (\<lambda>r. r\<lparr>cr_spawned_once := True,
                                     cr_state := with_incarnation (cr_state r) InActive\<rparr>) s
          else s)"

text \<open>\<open>if let StartupMembership::Initial { ready } = &mut record.startup { *ready = .. }\<close>\<close>

definition set_ready :: "bool \<Rightarrow> child_record \<Rightarrow> child_record" where
  "set_ready b r = (case cr_startup r of Initial _ \<Rightarrow> r\<lparr>cr_startup := Initial b\<rparr> | Runtime \<Rightarrow> r)"

definition apply_ready :: "supervisor_state \<Rightarrow> child_key \<Rightarrow> supervisor_state" where
  "apply_ready s c =
     (case bt_get (ss_children s) c of
        None \<Rightarrow> s
      | Some r \<Rightarrow>
          if state_membership_status (cr_state r) = Removing \<or> state_joined (cr_state r) \<or>
             child_incarnation (cr_state r) \<notin> {InActive, InStopping}
          then s
          else modify_child c (set_ready True) s)"

definition apply_restart_pending :: "supervisor_state \<Rightarrow> child_key \<Rightarrow> supervisor_state" where
  "apply_restart_pending s c =
     (case transition_incarnation s c [InComplete] InRestartPending of
        (moved, s1) \<Rightarrow>
          if moved \<and> is_starting (ss_lifecycle s1)
          then modify_child c (set_ready False) s1
          else s1)"

definition apply_terminalized :: "supervisor_state \<Rightarrow> child_key \<Rightarrow> effect list \<times> supervisor_state" where
  "apply_terminalized s c =
     (case transition_incarnation s c [InDisposing] InJoined of
        (moved, s1) \<Rightarrow>
          (if moved \<and> (case child_state_of s1 c of Some (RemovingState _) \<Rightarrow> True | _ \<Rightarrow> False)
           then [FinalizeRemoval c] else [], s1))"

definition apply_removal_latched :: "supervisor_state \<Rightarrow> child_key \<Rightarrow> effect list \<times> supervisor_state" where
  "apply_removal_latched s c =
     (case child_state_of s c of
        None \<Rightarrow> ([], s)
      | Some (RemovingState _) \<Rightarrow> ([], s)
      | Some st \<Rightarrow>
          ([if child_incarnation st = InJoined then FinalizeRemoval c else StopChild c],
           modify_child c (\<lambda>r. r\<lparr>cr_state := RemovingState (child_incarnation st)\<rparr>) s))"

definition apply_reclaim :: "supervisor_state \<Rightarrow> child_key \<Rightarrow> supervisor_state" where
  "apply_reclaim s c =
     (case bt_get (ss_children s) c of
        None \<Rightarrow> s
      | Some r \<Rightarrow>
          if \<not> state_joined (cr_state r) then s
          else
            let s1 = s\<lparr>ss_children := bt_remove c (ss_children s)\<rparr>
            in if ss_child_keys s1 (cr_membership r) = Some c
               then s1\<lparr>ss_child_keys := (ss_child_keys s1)(cr_membership r := None)\<rparr> else s1)"

definition step :: "supervisor_state \<Rightarrow> event \<Rightarrow> effect list \<times> supervisor_state" where
  "step s ev =
     (case ev of
        EvSpawned c \<Rightarrow> ([], apply_spawned s c)
      | EvReady c \<Rightarrow> ([], apply_ready s c)
      | EvIncarnationComplete c \<Rightarrow>
          ([], snd (transition_incarnation s c [InActive, InStopping] InComplete))
      | EvRestartPending c \<Rightarrow> ([], apply_restart_pending s c)
      | EvStopStarted c \<Rightarrow> ([], snd (transition_incarnation s c [InActive] InStopping))
      | EvDisposalStarted c \<Rightarrow>
          ([], snd (transition_incarnation s c [InUnstarted, InComplete, InRestartPending] InDisposing))
      | EvTerminalized c \<Rightarrow> apply_terminalized s c
      | EvRemovalSampled c \<Rightarrow> ([], sample_removal s c)
      | EvRemovalLatched c \<Rightarrow> apply_removal_latched s c
      | EvReclaim c \<Rightarrow> ([], apply_reclaim s c)
      | EvSettle \<Rightarrow> settle s)"

end
