(* ===== verification/Supervisor_Trace.thy ===== *)
theory Supervisor_Trace
  imports Supervisor
begin

text \<open>
  Sequences of reducer transitions: the life of one registration, and the effects that are emitted
  at most once over a whole run. The reducer is \<open>crates/shelterwood-core/src/supervisor.rs\<close>.
\<close>

section \<open>Inputs of the reducer\<close>

datatype sup_input =
    InAdmit membership bool
  | InEvent event
  | InFailStartup
  | InDrain stop_reason
  | InForce

datatype sup_output =
    OutAdmitted child_key
  | OutEvent "effect list"
  | OutStartup "scope_state option"
  | OutDrain "(bool \<times> scope_state) option" "effect list"

fun output_effects :: "sup_output \<Rightarrow> effect list" where
  "output_effects (OutEvent es) = es"
| "output_effects (OutDrain _ es) = es"
| "output_effects _ = []"

fun sup_step :: "supervisor_state \<Rightarrow> sup_input \<Rightarrow> (sup_output \<times> supervisor_state) run" where
  "sup_step s (InAdmit m initial) = run_bind (sup_admit s m initial) (\<lambda>(k, s'). Inr (OutAdmitted k, s'))"
| "sup_step s (InEvent ev) = (case step s ev of (es, s') \<Rightarrow> Inr (OutEvent es, s'))"
| "sup_step s InFailStartup = (case sup_fail_startup s of (st, s') \<Rightarrow> Inr (OutStartup st, s'))"
| "sup_step s (InDrain reason) = run_bind (sup_begin_drain s reason) (\<lambda>(t, es, s'). Inr (OutDrain t es, s'))"
| "sup_step s InForce = run_bind (sup_force s) (\<lambda>(t, es, s'). Inr (OutDrain t es, s'))"

section \<open>What settlement leaves alone\<close>

lemma try_complete_startup_frame [simp]:
  "ss_children (snd (try_complete_startup s)) = ss_children s"
  "ss_child_keys (snd (try_complete_startup s)) = ss_child_keys s"
  "ss_keys (snd (try_complete_startup s)) = ss_keys s"
  "ss_flavor (snd (try_complete_startup s)) = ss_flavor s"
  "ss_hard_forced (snd (try_complete_startup s)) = ss_hard_forced s"
  "ss_next_ordered_start (snd (try_complete_startup s)) = ss_next_ordered_start s"
  "ss_ordered_stop_cursor (snd (try_complete_startup s)) = ss_ordered_stop_cursor s"
  "ss_ordered_stop_waiting (snd (try_complete_startup s)) = ss_ordered_stop_waiting s"
  "ss_finish_emitted (snd (try_complete_startup s)) = ss_finish_emitted s"
  by (auto simp: try_complete_startup_def split: option.splits prod.splits)

lemma settle_startup_frame [simp]:
  "ss_children (snd (settle_startup s)) = ss_children s"
  "ss_child_keys (snd (settle_startup s)) = ss_child_keys s"
  "ss_keys (snd (settle_startup s)) = ss_keys s"
  "ss_flavor (snd (settle_startup s)) = ss_flavor s"
  "ss_hard_forced (snd (settle_startup s)) = ss_hard_forced s"
  "ss_ordered_stop_cursor (snd (settle_startup s)) = ss_ordered_stop_cursor s"
  "ss_ordered_stop_waiting (snd (settle_startup s)) = ss_ordered_stop_waiting s"
  "ss_finish_emitted (snd (settle_startup s)) = ss_finish_emitted s"
  by (auto simp: settle_startup_def Let_def split_def split: scope_flavor.splits)

lemma settle_ordered_stop_frame [simp]:
  "ss_children (snd (settle_ordered_stop s)) = ss_children s"
  "ss_child_keys (snd (settle_ordered_stop s)) = ss_child_keys s"
  "ss_keys (snd (settle_ordered_stop s)) = ss_keys s"
  "ss_flavor (snd (settle_ordered_stop s)) = ss_flavor s"
  "ss_hard_forced (snd (settle_ordered_stop s)) = ss_hard_forced s"
  "ss_lifecycle (snd (settle_ordered_stop s)) = ss_lifecycle s"
  "ss_next_ordered_start (snd (settle_ordered_stop s)) = ss_next_ordered_start s"
  "ss_finish_emitted (snd (settle_ordered_stop s)) = ss_finish_emitted s"
  by (auto simp: settle_ordered_stop_def split: prod.splits)

lemma settle_finish_frame [simp]:
  "ss_children (snd (settle_finish s)) = ss_children s"
  "ss_child_keys (snd (settle_finish s)) = ss_child_keys s"
  "ss_keys (snd (settle_finish s)) = ss_keys s"
  "ss_flavor (snd (settle_finish s)) = ss_flavor s"
  "ss_hard_forced (snd (settle_finish s)) = ss_hard_forced s"
  "ss_lifecycle (snd (settle_finish s)) = ss_lifecycle s"
  "ss_next_ordered_start (snd (settle_finish s)) = ss_next_ordered_start s"
  "ss_ordered_stop_cursor (snd (settle_finish s)) = ss_ordered_stop_cursor s"
  "ss_ordered_stop_waiting (snd (settle_finish s)) = ss_ordered_stop_waiting s"
  by (auto simp: settle_finish_def split: option.splits)

lemma settle_parts:
  "fst (settle s) =
     fst (settle_startup s) @ fst (settle_ordered_stop (snd (settle_startup s))) @
     fst (settle_finish (snd (settle_ordered_stop (snd (settle_startup s)))))"
  "snd (settle s) = snd (settle_finish (snd (settle_ordered_stop (snd (settle_startup s)))))"
  by (simp_all add: settle_def Let_def split_def)

lemma settle_frame [simp]:
  "ss_children (snd (settle s)) = ss_children s"
  "ss_child_keys (snd (settle s)) = ss_child_keys s"
  "ss_keys (snd (settle s)) = ss_keys s"
  "ss_flavor (snd (settle s)) = ss_flavor s"
  "ss_hard_forced (snd (settle s)) = ss_hard_forced s"
  by (simp_all add: settle_parts)

lemma transition_incarnation_facts:
  "ss_child_keys (snd (transition_incarnation s c xs i)) = ss_child_keys s"
  "ss_keys (snd (transition_incarnation s c xs i)) = ss_keys s"
  "ss_flavor (snd (transition_incarnation s c xs i)) = ss_flavor s"
  "ss_lifecycle (snd (transition_incarnation s c xs i)) = ss_lifecycle s"
  "ss_next_ordered_start (snd (transition_incarnation s c xs i)) = ss_next_ordered_start s"
  "ss_ordered_stop_cursor (snd (transition_incarnation s c xs i)) = ss_ordered_stop_cursor s"
  "ss_ordered_stop_waiting (snd (transition_incarnation s c xs i)) = ss_ordered_stop_waiting s"
  "ss_finish_emitted (snd (transition_incarnation s c xs i)) = ss_finish_emitted s"
  by (auto simp: transition_incarnation_def modify_child_def split: option.splits)

section \<open>The life of one registration\<close>

text \<open>The permitted moves of one child: its incarnation cycle and the one-way removal latch.\<close>

inductive child_edge :: "child_state \<Rightarrow> child_state \<Rightarrow> bool" where
  spawn: "child_edge (Resident InUnstarted) (Resident InActive)"
| respawn: "child_edge (Resident InRestartPending) (Resident InActive)"
| stop: "child_incarnation st = InActive \<Longrightarrow> child_edge st (with_incarnation st InStopping)"
| complete: "child_incarnation st \<in> {InActive, InStopping} \<Longrightarrow>
    child_edge st (with_incarnation st InComplete)"
| restart: "child_incarnation st = InComplete \<Longrightarrow> child_edge st (with_incarnation st InRestartPending)"
| dispose: "child_incarnation st \<in> {InUnstarted, InComplete, InRestartPending} \<Longrightarrow>
    child_edge st (with_incarnation st InDisposing)"
| join: "child_incarnation st = InDisposing \<Longrightarrow> child_edge st (with_incarnation st InJoined)"
| sample: "child_edge (Resident i) (SampledState i)"
| commit: "child_edge (Resident i) (RemovingState i)"
| commit_sampled: "child_edge (SampledState i) (RemovingState i)"

inductive_cases child_edge_from_joined: "child_edge (Resident InJoined) st"

lemma child_incarnation_with [simp]: "child_incarnation (with_incarnation st i) = i"
  by (cases st) simp_all

lemma child_state_of_modify:
  "child_state_of (modify_child c f s) k =
     (if k = c then map_option (\<lambda>r. cr_state (f r)) (bt_get (ss_children s) c) else child_state_of s k)"
  by (simp add: child_state_of_def modify_child_def option.map_comp comp_def)

lemma set_ready_simps [simp]:
  "cr_state (set_ready b r) = cr_state r" "cr_membership (set_ready b r) = cr_membership r"
  "cr_spawned_once (set_ready b r) = cr_spawned_once r"
  by (simp_all add: set_ready_def split: startup_membership.splits)

lemma child_state_of_set_ready [simp]:
  "child_state_of (modify_child c (set_ready b) s) k = child_state_of s k"
  by (simp add: child_state_of_def modify_child_def option.map_comp comp_def)

lemma child_state_of_transition:
  "child_state_of (snd (transition_incarnation s c xs i)) k =
     (case child_state_of s k of
        None \<Rightarrow> None
      | Some st \<Rightarrow> Some (if k = c \<and> \<not> state_joined st \<and> child_incarnation st \<in> set xs
                         then with_incarnation st i else st))"
  by (auto simp: transition_incarnation_def child_state_of_modify split: option.splits)
    (auto simp: child_state_of_def)

lemma transition_incarnation_moved:
  "fst (transition_incarnation s c xs i) \<longleftrightarrow>
     (case child_state_of s c of None \<Rightarrow> False | Some st \<Rightarrow> \<not> state_joined st \<and> child_incarnation st \<in> set xs)"
  by (auto simp: transition_incarnation_def child_state_of_def split: option.splits)

text \<open>The child-level view of one event.\<close>

definition event_view :: "event \<Rightarrow> child_key \<Rightarrow> child_state \<Rightarrow> child_state option" where
  "event_view ev k st =
     (case ev of
        EvSpawned c \<Rightarrow>
          Some (if k = c \<and> st \<in> {Resident InUnstarted, Resident InRestartPending} then Resident InActive else st)
      | EvIncarnationComplete c \<Rightarrow>
          Some (if k = c \<and> child_incarnation st \<in> {InActive, InStopping} then with_incarnation st InComplete else st)
      | EvRestartPending c \<Rightarrow>
          Some (if k = c \<and> child_incarnation st = InComplete then with_incarnation st InRestartPending else st)
      | EvStopStarted c \<Rightarrow>
          Some (if k = c \<and> child_incarnation st = InActive then with_incarnation st InStopping else st)
      | EvDisposalStarted c \<Rightarrow>
          Some (if k = c \<and> child_incarnation st \<in> {InUnstarted, InComplete, InRestartPending}
                then with_incarnation st InDisposing else st)
      | EvTerminalized c \<Rightarrow>
          Some (if k = c \<and> child_incarnation st = InDisposing then with_incarnation st InJoined else st)
      | EvRemovalSampled c \<Rightarrow> Some (if k = c then removal_sampled st else st)
      | EvRemovalLatched c \<Rightarrow> Some (if k = c then RemovingState (child_incarnation st) else st)
      | EvReclaim c \<Rightarrow> if k = c \<and> state_joined st then None else Some st
      | _ \<Rightarrow> Some st)"

lemma step_view:
  "child_state_of (snd (step s ev)) k = Option.bind (child_state_of s k) (event_view ev k)"
proof (cases ev)
  case (EvSpawned c)
  then show ?thesis
    by (cases "bt_get (ss_children s) k")
      (auto simp: step_def event_view_def apply_spawned_def startable_def child_state_of_def
        modify_child_def split: option.splits)
next
  case (EvReady c)
  then show ?thesis
    by (cases "bt_get (ss_children s) k")
      (auto simp: step_def event_view_def apply_ready_def child_state_of_def modify_child_def
        split: option.splits startup_membership.splits)
next
  case (EvRestartPending c)
  then show ?thesis
    by (cases "child_state_of s k")
      (auto simp: step_def event_view_def apply_restart_pending_def split_def state_joined_def
        child_state_of_transition)
next
  case (EvTerminalized c)
  then show ?thesis
    using child_state_of_transition [of s c "[InDisposing]" InJoined k]
    by (cases "child_state_of s k")
      (auto simp: step_def event_view_def apply_terminalized_def state_joined_def split: prod.splits)
next
  case (EvRemovalLatched c)
  then show ?thesis
    by (cases "bt_get (ss_children s) k")
      (auto simp: step_def event_view_def apply_removal_latched_def child_state_of_def modify_child_def
        split: option.splits child_state.splits)
next
  case (EvReclaim c)
  then show ?thesis
    by (cases "bt_get (ss_children s) k")
      (auto simp: step_def event_view_def apply_reclaim_def child_state_of_def Let_def split: option.splits)
next
  case EvSettle
  then show ?thesis
    by (cases "bt_get (ss_children s) k") (auto simp: step_def event_view_def child_state_of_def)
next
  case (EvRemovalSampled c)
  then show ?thesis
    by (cases "bt_get (ss_children s) k")
      (auto simp: step_def event_view_def sample_removal_def child_state_of_def modify_child_def
        split: option.splits)
qed (cases "child_state_of s k"; auto simp: step_def event_view_def child_state_of_transition state_joined_def)+

lemma removal_edges:
  "removal_sampled st = st \<or> child_edge st (removal_sampled st)"
  "RemovingState (child_incarnation st) = st \<or> child_edge st (RemovingState (child_incarnation st))"
  by (cases st; auto intro: child_edge.intros)+

lemma event_view_edge:
  "event_view ev k st = Some st' \<Longrightarrow> st' = st \<or> child_edge st st'"
  using removal_edges [of st]
  by (cases ev) (auto simp: event_view_def intro: child_edge.intros split: if_splits)

lemma sup_admit_Inr:
  "sup_admit s m initial = Inr (k, s') \<longleftrightarrow>
     (\<exists>n. counter_successor (counter_current (ss_keys s)) = Inr n \<and> k = ChildKey n \<and>
        s' = s\<lparr>ss_keys := \<lparr>counter_current = n\<rparr>,
               ss_children := bt_insert k \<lparr>cr_membership = m, cr_state = Resident InUnstarted,
                  cr_startup = (if initial then Initial False else Runtime),
                  cr_spawned_once = False\<rparr> (ss_children s),
               ss_child_keys := (ss_child_keys s)(m \<mapsto> k),
               ss_next_ordered_start :=
                 (if initial \<and> ss_flavor s = Ordered \<and> ss_next_ordered_start s = None
                  then Some k else ss_next_ordered_start s)\<rparr>)"
  by (cases s; cases "counter_successor (counter_current (ss_keys s))")
    (auto simp: sup_admit_def counter_mint_def Let_def)

lemma sup_begin_drain_Inr:
  "sup_begin_drain s reason = Inr (t, es, s') \<longleftrightarrow>
     (\<exists>l. begin_drain (ss_lifecycle s) reason = Inr (t, l) \<and>
        es = (case (t, ss_flavor s) of
                (Some _, Dynamic) \<Rightarrow> map StopChild (incomplete_children (ss_children s))
              | _ \<Rightarrow> []) \<and>
        s' = s\<lparr>ss_lifecycle := l,
               ss_ordered_stop_cursor :=
                 (case (t, ss_flavor s) of
                    (Some _, Ordered) \<Rightarrow> bt_last (ss_children s)
                  | _ \<Rightarrow> ss_ordered_stop_cursor s)\<rparr>)"
  by (cases s; cases "begin_drain (ss_lifecycle s) reason"; cases "ss_flavor s")
    (auto simp: sup_begin_drain_def Let_def split: option.splits)

lemma sup_begin_drain_frame:
  assumes "sup_begin_drain s reason = Inr (t, es, s')"
  shows "ss_children s' = ss_children s \<and> ss_child_keys s' = ss_child_keys s \<and> ss_keys s' = ss_keys s \<and>
    ss_flavor s' = ss_flavor s \<and> ss_next_ordered_start s' = ss_next_ordered_start s \<and>
    ss_ordered_stop_waiting s' = ss_ordered_stop_waiting s \<and> ss_finish_emitted s' = ss_finish_emitted s"
  using assms unfolding sup_begin_drain_Inr by clarsimp

lemma sup_force_frame:
  assumes "sup_force s = Inr (t, es, s')"
  shows "ss_children s' = ss_children s \<and> ss_child_keys s' = ss_child_keys s \<and> ss_keys s' = ss_keys s \<and>
    ss_flavor s' = ss_flavor s \<and> ss_next_ordered_start s' = ss_next_ordered_start s \<and>
    ss_ordered_stop_waiting s' = ss_ordered_stop_waiting s \<and> ss_finish_emitted s' = ss_finish_emitted s"
proof -
  obtain es1 where "sup_begin_drain (s\<lparr>ss_hard_forced := True\<rparr>) ShutdownRequested = Inr (t, es1, s')"
    using assms by (auto simp: sup_force_def run_bind_eq_Inr)
  from sup_begin_drain_frame [OF this] show ?thesis by simp
qed

lemma sup_step_view:
  assumes "sup_step s inp = Inr (out, s')"
  shows "child_state_of s' k =
    (case inp of
       InAdmit _ _ \<Rightarrow> if out = OutAdmitted k then Some (Resident InUnstarted) else child_state_of s k
     | InEvent ev \<Rightarrow> Option.bind (child_state_of s k) (event_view ev k)
     | _ \<Rightarrow> child_state_of s k)"
proof (cases inp)
  case (InEvent ev)
  with assms step_view [of s ev k] show ?thesis by (auto split: prod.splits)
qed (use assms in \<open>auto simp: child_state_of_def run_bind_eq_Inr sup_admit_Inr sup_fail_startup_def
      dest!: sup_begin_drain_frame sup_force_frame split: prod.splits if_splits\<close>)

lemma step_keys: "ss_keys (snd (step s ev)) = ss_keys s"
  by (auto simp: step_def apply_spawned_def apply_ready_def apply_restart_pending_def apply_terminalized_def
      sample_removal_def apply_removal_latched_def apply_reclaim_def modify_child_def Let_def split_def
      transition_incarnation_facts split: event.splits option.splits child_state.splits)

lemma sup_step_keys:
  assumes "sup_step s inp = Inr (out, s')"
  shows "(case inp of
      InAdmit _ _ \<Rightarrow> \<exists>k. out = OutAdmitted k \<and> counter_current (ss_keys s) < child_key_get k \<and>
                        counter_current (ss_keys s') = child_key_get k
    | _ \<Rightarrow> ss_keys s' = ss_keys s \<and> (\<forall>k. out \<noteq> OutAdmitted k))"
proof (cases inp)
  case (InEvent ev)
  with assms step_keys [of s ev] show ?thesis by (auto split: prod.splits)
qed (use assms in \<open>auto simp: run_bind_eq_Inr sup_admit_Inr sup_fail_startup_def
      dest: counter_successor_less dest!: sup_begin_drain_frame sup_force_frame split: prod.splits\<close>)

definition keys_bounded :: "supervisor_state \<Rightarrow> bool" where
  "keys_bounded s \<longleftrightarrow>
     (\<forall>k. child_state_of s k \<noteq> None \<longrightarrow> child_key_get k \<le> counter_current (ss_keys s))"

lemma keys_bounded_new: "keys_bounded (supervisor_new flavor l)"
  by (simp add: keys_bounded_def supervisor_new_def child_state_of_def)

lemma keys_bounded_step:
  assumes "keys_bounded s" "sup_step s inp = Inr (out, s')"
  shows "keys_bounded s'"
  unfolding keys_bounded_def
proof (intro allI impI)
  fix k assume k: "child_state_of s' k \<noteq> None"
  show "child_key_get k \<le> counter_current (ss_keys s')"
    using assms(1) k sup_step_view [OF assms(2), of k] sup_step_keys [OF assms(2)]
    unfolding keys_bounded_def
    by (cases inp; cases "child_state_of s k") (auto split: if_splits)
qed

section \<open>Phases that are entered once\<close>

definition in_phase :: "(child_state \<Rightarrow> bool) \<Rightarrow> supervisor_state \<Rightarrow> child_key \<Rightarrow> bool" where
  "in_phase Q s k = (case child_state_of s k of None \<Rightarrow> False | Some st \<Rightarrow> Q st)"

lemma in_phase_Some: "in_phase Q s k \<Longrightarrow> child_state_of s k \<noteq> None"
  by (auto simp: in_phase_def split: option.splits)

locale latched_phase =
  fixes Q :: "child_state \<Rightarrow> bool"
    and emitted :: "sup_input \<Rightarrow> sup_output \<Rightarrow> child_key \<Rightarrow> nat"
  assumes fresh: "\<not> Q (Resident InUnstarted)"
    and closed: "child_edge st st' \<Longrightarrow> Q st \<Longrightarrow> Q st'"
    and emits: "sup_step s inp = Inr (out, s') \<Longrightarrow>
      emitted inp out k = (if in_phase Q s' k \<and> \<not> in_phase Q s k then 1 else 0)"
begin

lemma phase_stays:
  assumes "sup_step s inp = Inr (out, s')" "keys_bounded s" "child_state_of s' k \<noteq> None" "in_phase Q s k"
  shows "in_phase Q s' k"
proof -
  obtain st where st: "child_state_of s k = Some st" "Q st"
    using assms(4) by (auto simp: in_phase_def split: option.splits)
  then have le: "child_key_get k \<le> counter_current (ss_keys s)" using assms(2) by (auto simp: keys_bounded_def)
  note view = sup_step_view [OF assms(1), of k] and keys = sup_step_keys [OF assms(1)]
  show ?thesis
  proof (cases inp)
    case (InEvent ev)
    then obtain st' where st': "child_state_of s' k = Some st'" "event_view ev k st = Some st'"
      using view st(1) assms(3) by auto
    with event_view_edge [OF st'(2)] closed st(2) show ?thesis by (auto simp: in_phase_def)
  next
    case (InAdmit m initial)
    with keys le have "out \<noteq> OutAdmitted k" by auto
    with InAdmit view st show ?thesis by (simp add: in_phase_def)
  qed (use view st in \<open>simp_all add: in_phase_def\<close>)
qed

lemma once:
  assumes "run_ops sup_step s0 inputs = Inr (outs, s)" "keys_bounded s0" "\<And>k. child_state_of s0 k = None"
    "counter_current (ss_keys s0) = 0"
  shows "keys_bounded s \<and>
    sum_list (map2 (\<lambda>inp out. emitted inp out k) inputs outs) \<le> 1 \<and>
    (child_state_of s k \<noteq> None \<or> counter_current (ss_keys s) < child_key_get k \<longrightarrow>
       (sum_list (map2 (\<lambda>inp out. emitted inp out k) inputs outs) = 1 \<longleftrightarrow> in_phase Q s k))"
  using assms(1)
proof (induction inputs arbitrary: outs s rule: rev_induct)
  case Nil
  with assms show ?case by (simp add: in_phase_def)
next
  case (snoc inp inputs)
  obtain outs1 s1 out where r: "run_ops sup_step s0 inputs = Inr (outs1, s1)"
      and st: "sup_step s1 inp = Inr (out, s)" and o: "outs = outs1 @ [out]"
    using snoc.prems by (auto simp: run_ops_snoc)
  let ?n = "sum_list (map2 (\<lambda>inp out. emitted inp out k) inputs outs1)"
  have len: "length inputs = length outs1" using run_ops_length [OF r] by simp
  have sum: "sum_list (map2 (\<lambda>inp out. emitted inp out k) (inputs @ [inp]) outs) = ?n + emitted inp out k"
    unfolding o using len by simp
  note ih = snoc.IH [OF r]
  have kb: "keys_bounded s" by (rule keys_bounded_step [OF _ st]) (use ih in blast)
  note view = sup_step_view [OF st, of k] and keys = sup_step_keys [OF st]
  have stay: "in_phase Q s1 k \<Longrightarrow> child_state_of s k \<noteq> None \<Longrightarrow> in_phase Q s k"
    using phase_stays [OF st] ih by blast
  have known: "child_state_of s1 k \<noteq> None \<or> counter_current (ss_keys s1) < child_key_get k"
    if "child_state_of s k \<noteq> None \<or> counter_current (ss_keys s) < child_key_get k"
    using that view keys by (cases inp; cases "child_state_of s1 k") (auto split: if_splits)
  have none: "in_phase Q s k \<Longrightarrow> child_state_of s k \<noteq> None" by (rule in_phase_Some)
  have absent: "child_state_of s1 k = None" if "counter_current (ss_keys s) < child_key_get k"
    using that ih keys by (cases inp) (force simp: keys_bounded_def)+
  have new: "child_state_of s1 k = None \<Longrightarrow> \<not> in_phase Q s k \<and> \<not> in_phase Q s1 k"
    using view fresh by (cases inp) (auto simp: in_phase_def)
  define n where "n = ?n"
  define e where "e = emitted inp out k"
  have e: "e = (if in_phase Q s k \<and> \<not> in_phase Q s1 k then 1 else 0)"
    unfolding e_def by (rule emits [OF st])
  have ihn: "n \<le> 1" "child_state_of s1 k \<noteq> None \<or> counter_current (ss_keys s1) < child_key_get k \<Longrightarrow>
      n = 1 \<longleftrightarrow> in_phase Q s1 k"
    unfolding n_def using ih by blast+
  have "n + e \<le> 1"
  proof (cases "in_phase Q s k \<and> \<not> in_phase Q s1 k")
    case True
    with ihn known none have "n = 0" by fastforce
    with True e show ?thesis by simp
  qed (use e ihn(1) in auto)
  moreover have "n + e = 1 \<longleftrightarrow> in_phase Q s k"
    if k: "child_state_of s k \<noteq> None \<or> counter_current (ss_keys s) < child_key_get k"
  proof -
    have n1: "n = 1 \<longleftrightarrow> in_phase Q s1 k" by (rule ihn(2) [OF known [OF k]])
    show ?thesis
    proof (cases "in_phase Q s1 k")
      case True
      then have "child_state_of s1 k \<noteq> None" by (rule in_phase_Some)
      with absent k have "child_state_of s k \<noteq> None" by blast
      with True stay e n1 show ?thesis by simp
    qed (use e n1 ihn(1) in auto)
  qed
  ultimately show ?case using kb unfolding sum n_def e_def by blast
qed

end

section \<open>Which effects a transition emits\<close>

lemma ordered_start_effects:
  "ordered_start m c = (fin, es, c') \<Longrightarrow>
   es = (case c' of
           None \<Rightarrow> []
         | Some k \<Rightarrow>
             (case bt_get m k of
                Some r \<Rightarrow> if startable r \<and> \<not> cr_spawned_once r then [StartChild k] else []
              | None \<Rightarrow> []))"
proof (induction m c arbitrary: es rule: ordered_start.induct)
  case (2 m c)
  show ?case
  proof (cases "bt_get m c")
    case (Some r)
    then show ?thesis
      using 2 by (auto simp: startable_def split: if_splits)
  qed (use 2 in simp)
qed simp

lemma try_complete_startup_effects:
  "fst (try_complete_startup s) =
     (if none_pending (ss_children s) \<and> is_starting (ss_lifecycle s) then [StartupCompleted Scope_Running] else [])"
  by (auto simp: try_complete_startup_def complete_startup_def is_starting_def lifecycle_state_def Let_def)

lemma settle_startup_effects:
  "set (fst (settle_startup s)) \<subseteq>
     {StartChild k | k. \<exists>r. bt_get (ss_children s) k = Some r \<and> startable r \<and> \<not> cr_spawned_once r} \<union>
     {StartupCompleted Scope_Running}" if "bt_wf (ss_children s)"
proof -
  have dyn: "set (dynamic_starts (ss_children s)) \<subseteq>
      {StartChild k | k. \<exists>r. bt_get (ss_children s) k = Some r \<and> startable r \<and> \<not> cr_spawned_once r}"
    using that by (auto simp: dynamic_starts_def bt_get_Some_iff)
  obtain fin es c where o: "ordered_start (ss_children s) (ss_next_ordered_start s) = (fin, es, c)"
    by (cases "ordered_start (ss_children s) (ss_next_ordered_start s)") auto
  have ord: "set es \<subseteq>
      {StartChild k | k. \<exists>r. bt_get (ss_children s) k = Some r \<and> startable r \<and> \<not> cr_spawned_once r}"
    using ordered_start_effects [OF o] by (auto split: option.splits if_splits)
  show ?thesis
    using dyn ord o
    by (auto simp: settle_startup_def Let_def split_def try_complete_startup_effects
        split: scope_flavor.splits if_splits)
qed

lemma ordered_stop_target:
  "ordered_stop m c = (Some k, c') \<Longrightarrow> \<exists>r. bt_get m k = Some r \<and> \<not> state_joined (cr_state r)"
  by (induction m c rule: ordered_stop.induct) (auto split: option.splits if_splits)

lemma settle_ordered_stop_effects:
  "set (fst (settle_ordered_stop s)) \<subseteq> {StopChild k | k. is_incomplete s k}"
proof (cases "fst (settle_ordered_stop s) = []")
  case False
  then obtain c c' where "ordered_stop (ss_children s) (ss_ordered_stop_cursor s) = (Some c, c')"
      "fst (settle_ordered_stop s) = [StopChild c]"
    by (auto simp: settle_ordered_stop_def split: prod.splits option.splits if_splits)
  with ordered_stop_target show ?thesis
    by (force simp: is_incomplete_def contains_def sup_joined_def child_state_of_def)
qed simp

lemma settle_finish_effects: "set (fst (settle_finish s)) \<subseteq> range FinishedWith"
  by (auto simp: settle_finish_def split: option.splits)

lemma settle_startup_range: "set (fst (settle_startup s)) \<subseteq> range StartChild \<union> {StartupCompleted Scope_Running}"
proof -
  obtain fin es c where o: "ordered_start (ss_children s) (ss_next_ordered_start s) = (fin, es, c)"
    by (cases "ordered_start (ss_children s) (ss_next_ordered_start s)") auto
  have "set es \<subseteq> range StartChild"
    using ordered_start_effects [OF o] by (auto split: option.splits if_splits)
  then show ?thesis
    using o by (auto simp: settle_startup_def Let_def split_def try_complete_startup_effects dynamic_starts_def
        split: scope_flavor.splits if_splits)
qed

lemma settle_range:
  "set (fst (settle s)) \<subseteq>
     range StartChild \<union> {StartupCompleted Scope_Running} \<union> range StopChild \<union> range FinishedWith"
  using settle_startup_range [of s] settle_ordered_stop_effects [of "snd (settle_startup s)"]
    settle_finish_effects [of "snd (settle_ordered_stop (snd (settle_startup s)))"]
  unfolding settle_parts by auto

lemma drain_range:
  "sup_begin_drain s reason = Inr (t, es, s') \<Longrightarrow> set es \<subseteq> range StopChild"
  "sup_force s = Inr (t, es, s') \<Longrightarrow> set es \<subseteq> range StopChild \<union> range ForceChild"
  by (auto simp: sup_begin_drain_Inr sup_force_def run_bind_eq_Inr split: option.splits scope_flavor.splits)

subsection \<open>Removal\<close>

definition removal_final :: "child_state \<Rightarrow> bool" where
  "removal_final st \<longleftrightarrow> st = RemovingState InJoined"

fun removal_committed :: "child_state \<Rightarrow> bool" where
  "removal_committed (RemovingState _) = True"
| "removal_committed _ = False"

lemma removal_committed_with [simp]: "removal_committed (with_incarnation st i) = removal_committed st"
  by (cases st) simp_all

lemma with_incarnation_final: "with_incarnation st i = RemovingState j \<longleftrightarrow> i = j \<and> removal_committed st"
  by (cases st) auto

lemma removal_sampled_final: "removal_sampled st = RemovingState j \<longleftrightarrow> st = RemovingState j"
  by (cases st) auto

lemma removal_final_closed: "child_edge st st' \<Longrightarrow> removal_final st \<Longrightarrow> removal_final st'"
  by (induction rule: child_edge.induct) (auto simp: removal_final_def)

lemma removal_committed_closed: "child_edge st st' \<Longrightarrow> removal_committed st \<Longrightarrow> removal_committed st'"
  by (induction rule: child_edge.induct) auto

lemma finalize_emitted:
  assumes "sup_step s inp = Inr (out, s')"
  shows "count_list (output_effects out) (FinalizeRemoval k) =
    (if in_phase removal_final s' k \<and> \<not> in_phase removal_final s k then 1 else 0)"
proof (cases inp)
  case (InEvent ev)
  then have out: "output_effects out = fst (step s ev)" and s': "s' = snd (step s ev)"
    using assms by (auto split: prod.splits)
  note view = step_view [of s ev k]
  show ?thesis
  proof (cases ev)
    case (EvTerminalized c)
    have "fst (step s ev) =
        (case child_state_of s c of Some (RemovingState InDisposing) \<Rightarrow> [FinalizeRemoval c] | _ \<Rightarrow> [])"
      using EvTerminalized child_state_of_transition [of s c "[InDisposing]" InJoined c]
        transition_incarnation_moved [of s c "[InDisposing]" InJoined]
      by (auto simp: step_def apply_terminalized_def split_def state_joined_def
          split: option.splits child_state.splits incarnation_state.splits)
    with EvTerminalized view show ?thesis
      unfolding out s' in_phase_def removal_final_def
      by (cases "child_state_of s k")
        (auto simp: event_view_def split: option.splits child_state.splits incarnation_state.splits if_splits)
  next
    case (EvRemovalLatched c)
    with view show ?thesis
      unfolding out s' in_phase_def removal_final_def
      by (cases "child_state_of s k")
        (auto simp: step_def event_view_def apply_removal_latched_def
          split: option.splits child_state.splits if_splits)
  next
    case EvSettle
    have "FinalizeRemoval k \<notin> set (fst (settle s))" using settle_range [of s] by auto
    with EvSettle view show ?thesis
      unfolding out s' in_phase_def
      by (cases "child_state_of s k") (auto simp: step_def event_view_def count_list_0_iff)
  qed (use view in \<open>cases "child_state_of s k";
      auto simp: out s' in_phase_def removal_final_def step_def event_view_def with_incarnation_final
        removal_sampled_final split: if_splits\<close>)+
next
  case (InAdmit m initial)
  with assms sup_step_view [OF assms, of k] show ?thesis
    by (auto simp: in_phase_def removal_final_def run_bind_eq_Inr)
next
  case (InDrain reason)
  with assms drain_range(1) [of s reason] sup_step_view [OF assms, of k] show ?thesis
    by (auto simp: in_phase_def run_bind_eq_Inr count_list_0_iff)
next
  case InForce
  with assms drain_range(2) [of s] sup_step_view [OF assms, of k] show ?thesis
    by (auto simp: in_phase_def run_bind_eq_Inr count_list_0_iff)
next
  case InFailStartup
  with assms sup_step_view [OF assms, of k] show ?thesis
    by (auto simp: in_phase_def split: prod.splits)
qed

definition removal_commit :: "sup_input \<Rightarrow> sup_output \<Rightarrow> child_key \<Rightarrow> nat" where
  "removal_commit inp out k =
     (if inp = InEvent (EvRemovalLatched k) \<and> output_effects out \<noteq> [] then 1 else 0)"

lemma commit_emitted:
  assumes "sup_step s inp = Inr (out, s')"
  shows "removal_commit inp out k =
    (if in_phase removal_committed s' k \<and> \<not> in_phase removal_committed s k then 1 else 0)"
proof (cases "\<exists>c. inp = InEvent (EvRemovalLatched c)")
  case True
  then obtain c where c: "inp = InEvent (EvRemovalLatched c)" by blast
  then have out: "output_effects out = fst (step s (EvRemovalLatched c))"
    and s': "s' = snd (step s (EvRemovalLatched c))"
    using assms by (auto split: prod.splits)
  show ?thesis
    using step_view [of s "EvRemovalLatched c" k]
    unfolding removal_commit_def out s' c in_phase_def
    by (cases "child_state_of s k")
      (auto simp: step_def event_view_def apply_removal_latched_def split: option.splits child_state.splits)
next
  case False
  have "in_phase removal_committed s' k \<Longrightarrow> in_phase removal_committed s k"
  proof (cases inp)
    case (InEvent ev)
    moreover assume "in_phase removal_committed s' k"
    ultimately show ?thesis
      using False sup_step_view [OF assms, of k] removal_sampled_final
      by (cases "child_state_of s k"; cases ev)
        (auto simp: in_phase_def event_view_def split: if_splits elim: removal_committed.elims)
  qed (use sup_step_view [OF assms, of k] in \<open>auto simp: in_phase_def split: if_splits\<close>)
  with False show ?thesis by (auto simp: removal_commit_def)
qed

interpretation finalization: latched_phase removal_final
  "\<lambda>inp out k. count_list (output_effects out) (FinalizeRemoval k)"
  by (unfold_locales, simp add: removal_final_def, rule removal_final_closed, assumption+,
      rule finalize_emitted)

interpretation commitment: latched_phase removal_committed removal_commit
  by (unfold_locales, simp, rule removal_committed_closed, assumption+, rule commit_emitted)

section \<open>Keys\<close>

definition admitted_keys :: "sup_output list \<Rightarrow> child_key list" where
  "admitted_keys outs = List.map_filter (\<lambda>out. case out of OutAdmitted k \<Rightarrow> Some k | _ \<Rightarrow> None) outs"

lemma admitted_keys_increasing:
  assumes "run_ops sup_step s inputs = Inr (outs, s')"
  shows "sorted_wrt (<) (admitted_keys outs) \<and>
    (\<forall>k \<in> set (admitted_keys outs). counter_current (ss_keys s) < child_key_get k) \<and>
    counter_current (ss_keys s) \<le> counter_current (ss_keys s')"
  using assms
proof (induction inputs arbitrary: s outs)
  case Nil
  then show ?case by (simp add: admitted_keys_def map_filter_simps)
next
  case (Cons inp inputs)
  then obtain out s1 outs1 where st: "sup_step s inp = Inr (out, s1)"
      and r: "run_ops sup_step s1 inputs = Inr (outs1, s')" and o: "outs = out # outs1"
    by (auto simp: run_bind_eq_Inr)
  note ih = Cons.IH [OF r] and k = sup_step_keys [OF st]
  show ?case
  proof (cases "\<exists>c. out = OutAdmitted c")
    case True
    then obtain c where c: "out = OutAdmitted c" by blast
    with k have "counter_current (ss_keys s) < child_key_get c" "counter_current (ss_keys s1) = child_key_get c"
      by (cases inp; auto)+
    with ih c o show ?thesis
      by (auto simp: admitted_keys_def map_filter_simps less_child_key_def)
  next
    case False
    with k have "ss_keys s1 = ss_keys s" by (cases inp) auto
    with ih False o show ?thesis
      by (cases out) (auto simp: admitted_keys_def map_filter_simps)
  qed
qed

lemma sum_list_map2_snd:
  "length xs = length ys \<Longrightarrow> sum_list (map2 (\<lambda>x y. f y) xs ys) = sum_list (map f ys)" for f :: "'b \<Rightarrow> nat"
  by (induction xs ys rule: list_induct2) auto

lemma count_list_concat: "count_list (concat xss) x = sum_list (map (\<lambda>xs. count_list xs x) xss)"
  by (induction xss) auto

definition trace_effects :: "sup_output list \<Rightarrow> effect list" where
  "trace_effects outs = concat (map output_effects outs)"

definition removal_commits :: "sup_input list \<Rightarrow> sup_output list \<Rightarrow> child_key \<Rightarrow> nat" where
  "removal_commits inputs outs k = sum_list (map2 (\<lambda>inp out. removal_commit inp out k) inputs outs)"

lemma supervisor_new_start:
  "keys_bounded (supervisor_new flavor l)" "child_state_of (supervisor_new flavor l) k = None"
  "counter_current (ss_keys (supervisor_new flavor l)) = 0"
  by (rule keys_bounded_new) (simp_all add: supervisor_new_def child_state_of_def counter_new_def)

end
