(* ===== verification/Supervisor_Order.thy ===== *)
theory Supervisor_Order
  imports Supervisor_Trace
begin

text \<open>
  Invariants of the reducer's registry and cursors, and the order in which a scope starts, stops
  and finishes. The reducer is \<open>crates/shelterwood-core/src/supervisor.rs\<close>.
\<close>

section \<open>The registry invariant\<close>

definition member_at :: "children \<Rightarrow> child_key \<Rightarrow> membership option" where
  "member_at m k = map_option cr_membership (bt_get m k)"

lemma member_at_simps [simp]:
  "member_at (bt_insert k r m) = (member_at m)(k \<mapsto> cr_membership r)"
  "member_at (bt_remove k m) = (member_at m)(k := None)"
  by (auto simp: member_at_def fun_eq_iff)

lemma member_at_modify:
  "(\<And>r. cr_membership (f r) = cr_membership r) \<Longrightarrow> member_at (bt_modify c f m) = member_at m"
  by (auto simp: member_at_def fun_eq_iff option.map_comp comp_def)

definition registry_wf :: "children \<Rightarrow> (membership \<rightharpoonup> child_key) \<Rightarrow> bool" where
  "registry_wf m index \<longleftrightarrow> bt_wf m \<and> (\<forall>i k. member_at m k = Some i \<longleftrightarrow> index i = Some k)"

lemma registry_wf_modify:
  "registry_wf m index \<Longrightarrow> (\<And>r. cr_membership (f r) = cr_membership r) \<Longrightarrow> registry_wf (bt_modify c f m) index"
  by (simp add: registry_wf_def member_at_modify)

lemma registry_wf_insert:
  assumes "registry_wf m index" "index (cr_membership r) = None" "bt_get m k = None"
  shows "registry_wf (bt_insert k r m) (index(cr_membership r \<mapsto> k))"
proof -
  have "member_at m k = None" using assms(3) by (simp add: member_at_def)
  moreover have "index i = Some k' \<longleftrightarrow> member_at m k' = Some i" for i k'
    using assms(1) by (simp add: registry_wf_def)
  ultimately have "index i = Some k' \<Longrightarrow> k' \<noteq> k" for i k' by auto
  with assms(1,2) show ?thesis by (auto simp: registry_wf_def)
qed

lemma registry_wf_remove:
  assumes wf: "registry_wf m index" and r: "bt_get m k = Some r"
  shows "index (cr_membership r) = Some k" "registry_wf (bt_remove k m) (index(cr_membership r := None))"
proof -
  have "member_at m k = Some (cr_membership r)" using r by (simp add: member_at_def)
  moreover have "index i = Some k' \<longleftrightarrow> member_at m k' = Some i" for i k'
    using wf by (simp add: registry_wf_def)
  ultimately have i: "index i = Some k \<longleftrightarrow> i = cr_membership r" for i by auto
  then show "index (cr_membership r) = Some k" by simp
  show "registry_wf (bt_remove k m) (index(cr_membership r := None))"
  proof -
    have "index (cr_membership r) = Some k" using i by simp
    then have u: "index (cr_membership r) = Some k' \<longleftrightarrow> k' = k" for k' by auto
    show ?thesis using wf u by (auto simp: registry_wf_def dest: i [THEN iffD1])
  qed
qed

definition sup_registry_wf :: "supervisor_state \<Rightarrow> bool" where
  "sup_registry_wf s \<longleftrightarrow> registry_wf (ss_children s) (ss_child_keys s)"

lemma modify_child_frame [simp]:
  "ss_child_keys (modify_child c f s) = ss_child_keys s" "ss_keys (modify_child c f s) = ss_keys s"
  "ss_flavor (modify_child c f s) = ss_flavor s" "ss_lifecycle (modify_child c f s) = ss_lifecycle s"
  "ss_next_ordered_start (modify_child c f s) = ss_next_ordered_start s"
  "ss_ordered_stop_cursor (modify_child c f s) = ss_ordered_stop_cursor s"
  "ss_ordered_stop_waiting (modify_child c f s) = ss_ordered_stop_waiting s"
  "ss_finish_emitted (modify_child c f s) = ss_finish_emitted s"
  "ss_children (modify_child c f s) = bt_modify c f (ss_children s)"
  by (simp_all add: modify_child_def)

lemma sup_registry_modify:
  "sup_registry_wf s \<Longrightarrow> (\<And>r. cr_membership (f r) = cr_membership r) \<Longrightarrow> sup_registry_wf (modify_child c f s)"
  by (simp add: sup_registry_wf_def registry_wf_modify)

lemma sup_registry_transition: "sup_registry_wf s \<Longrightarrow> sup_registry_wf (snd (transition_incarnation s c xs i))"
  by (auto simp: transition_incarnation_def intro: sup_registry_modify split: option.splits)

lemma sup_registry_step: "sup_registry_wf s \<Longrightarrow> sup_registry_wf (snd (step s ev))"
proof (cases ev)
  case (EvReclaim c)
  assume wf: "sup_registry_wf s"
  show ?thesis
  proof (cases "\<exists>r. bt_get (ss_children s) c = Some r \<and> state_joined (cr_state r)")
    case True
    then obtain r where r: "bt_get (ss_children s) c = Some r" "state_joined (cr_state r)" by blast
    with registry_wf_remove [OF wf [unfolded sup_registry_wf_def] r(1)] EvReclaim show ?thesis
      by (simp add: step_def apply_reclaim_def sup_registry_wf_def Let_def)
  next
    case False
    with wf EvReclaim show ?thesis by (auto simp: step_def apply_reclaim_def split: option.splits)
  qed
next
  case EvSettle
  then show "sup_registry_wf s \<Longrightarrow> ?thesis" by (simp add: step_def sup_registry_wf_def)
next
  case (EvRestartPending c)
  then show "sup_registry_wf s \<Longrightarrow> ?thesis"
    by (auto simp: step_def apply_restart_pending_def split_def
        intro!: sup_registry_modify sup_registry_transition)
qed (auto simp: step_def apply_spawned_def apply_ready_def apply_terminalized_def sample_removal_def
      apply_removal_latched_def split_def
      intro!: sup_registry_modify sup_registry_transition split: option.splits child_state.splits)

lemma sup_registry_sup_step:
  assumes "sup_registry_wf s" "keys_bounded s" "sup_step s inp = Inr (out, s')"
    "\<And>m b. inp = InAdmit m b \<Longrightarrow> ss_child_keys s m = None"
  shows "sup_registry_wf s'"
proof (cases inp)
  case (InEvent ev)
  with assms(3) sup_registry_step [OF assms(1), of ev] show ?thesis by (auto split: prod.splits)
next
  case (InAdmit m b)
  then obtain n where n: "counter_successor (counter_current (ss_keys s)) = Inr n" "out = OutAdmitted (ChildKey n)"
      and s': "ss_children s' = bt_insert (ChildKey n) \<lparr>cr_membership = m, cr_state = Resident InUnstarted,
                  cr_startup = (if b then Initial False else Runtime),
                  cr_spawned_once = False\<rparr> (ss_children s)"
        "ss_child_keys s' = (ss_child_keys s)(m \<mapsto> ChildKey n)"
    using assms(3) by (auto simp: run_bind_eq_Inr sup_admit_Inr)
  have "child_state_of s (ChildKey n) = None"
    using assms(2) counter_successor_less [OF n(1)] by (force simp: keys_bounded_def)
  then have "bt_get (ss_children s) (ChildKey n) = None" by (simp add: child_state_of_def)
  with assms(1) assms(4) [OF InAdmit] show ?thesis
    using registry_wf_insert [of "ss_children s" "ss_child_keys s"
        "\<lparr>cr_membership = m, cr_state = Resident InUnstarted,
          cr_startup = (if b then Initial False else Runtime), cr_spawned_once = False\<rparr>" "ChildKey n"]
    unfolding sup_registry_wf_def s' by simp
qed (use assms in \<open>auto simp: sup_registry_wf_def run_bind_eq_Inr sup_fail_startup_def
      dest!: sup_begin_drain_frame sup_force_frame split: prod.splits\<close>)

section \<open>The cursor invariant\<close>

definition cursor_ok ::
  "scope_flavor \<Rightarrow> bool \<Rightarrow> child_key option \<Rightarrow> child_key option \<Rightarrow> child_key option \<Rightarrow> bool" where
  "cursor_ok flavor draining next_start cursor waiting \<longleftrightarrow>
     (flavor \<noteq> Ordered \<longrightarrow> next_start = None \<and> cursor = None \<and> waiting = None) \<and>
     (cursor \<noteq> None \<or> waiting \<noteq> None \<longrightarrow> draining) \<and>
     (\<forall>w c. waiting = Some w \<and> cursor = Some c \<longrightarrow> c < w)"

definition cursor_wf :: "supervisor_state \<Rightarrow> bool" where
  "cursor_wf s \<longleftrightarrow> cursor_ok (ss_flavor s) (is_draining (ss_lifecycle s)) (ss_next_ordered_start s)
     (ss_ordered_stop_cursor s) (ss_ordered_stop_waiting s)"

definition open_child :: "children \<Rightarrow> child_key \<Rightarrow> bool" where
  "open_child m k \<longleftrightarrow> (\<exists>r. bt_get m k = Some r \<and> \<not> state_joined (cr_state r))"

definition upto_cursor :: "child_key \<Rightarrow> child_key option \<Rightarrow> bool" where
  "upto_cursor k cur = (case cur of None \<Rightarrow> False | Some c \<Rightarrow> k \<le> c)"

lemma upto_last_before:
  assumes "bt_wf m" "bt_get m k = Some r" "k < c"
  shows "upto_cursor k (bt_last_before m c)"
proof (cases "bt_last_before m c")
  case None
  with assms(2,3) show ?thesis by (auto simp: bt_last_before_None dest!: bt_get_SomeD)
next
  case (Some p)
  then have "k \<le> p"
    using bt_get_SomeD [OF assms(2)] assms(3) unfolding bt_last_before_Some [OF assms(1)] by blast
  with Some show ?thesis by (simp add: upto_cursor_def)
qed

lemma last_before_below:
  assumes "bt_wf m" "upto_cursor k (bt_last_before m c)"
  shows "k < c"
proof (cases "bt_last_before m c")
  case (Some p)
  then have "p < c" unfolding bt_last_before_Some [OF assms(1)] by blast
  with Some assms(2) show ?thesis by (simp add: upto_cursor_def)
qed (use assms in \<open>simp add: upto_cursor_def\<close>)

lemma ordered_stop_simp:
  "ordered_stop m (Some c) =
     (if open_child m c then (Some c, bt_last_before m c) else ordered_stop m (bt_last_before m c))"
  by (cases "bt_get m c") (auto simp: open_child_def)

declare ordered_stop.simps(2) [simp del]

lemma cursor_down_induct [case_names None Step]:
  fixes m :: children
  assumes "P None" "\<And>c. P (bt_last_before m c) \<Longrightarrow> P (Some c)"
  shows "P cur"
proof (induction "case cur of None \<Rightarrow> 0 | Some c \<Rightarrow> Suc (keys_below m c)" arbitrary: cur rule: less_induct)
  case less
  show ?case
  proof (cases cur)
    case (Some c)
    have "P (bt_last_before m c)"
      by (rule less) (auto simp: Some dest: bt_last_before_below split: option.splits)
    with Some assms(2) show ?thesis by blast
  qed (use assms(1) in simp)
qed

lemma ordered_stop_target_spec:
  assumes "bt_wf m"
  shows "ordered_stop m cur = (Some t, cur') \<Longrightarrow>
    open_child m t \<and> upto_cursor t cur \<and> cur' = bt_last_before m t"
proof (induction cur rule: cursor_down_induct [of _ m])
  case (Step c)
  then show ?case
    using last_before_below [OF assms, of t c]
    by (auto simp: ordered_stop_simp upto_cursor_def [of _ "Some c"] split: if_splits)
qed simp

lemma ordered_stop_none: "ordered_stop m cur = (None, cur') \<Longrightarrow> cur' = None"
  by (induction cur rule: cursor_down_induct [of _ m]) (auto simp: ordered_stop_simp split: if_splits)

lemma ordered_stop_greatest:
  assumes "bt_wf m" "open_child m k"
  shows "ordered_stop m cur = (target, cur') \<Longrightarrow> upto_cursor k cur \<Longrightarrow> \<exists>t. target = Some t \<and> k \<le> t"
proof (induction cur rule: cursor_down_induct [of _ m])
  case (Step c)
  show ?case
  proof (cases "k = c")
    case False
    with Step(3) have "k < c" by (simp add: upto_cursor_def)
    with assms upto_last_before [OF assms(1)] have "upto_cursor k (bt_last_before m c)"
      by (auto simp: open_child_def)
    with Step \<open>k < c\<close> show ?thesis by (auto simp: ordered_stop_simp split: if_splits)
  qed (use Step assms in \<open>auto simp: ordered_stop_simp split: if_splits\<close>)
qed (simp add: upto_cursor_def)

subsection \<open>The startup cursor\<close>

definition start_passed :: "child_record \<Rightarrow> bool" where
  "start_passed r \<longleftrightarrow> state_membership_status (cr_state r) \<noteq> Removing \<and> cr_spawned_once r \<and>
     cr_startup r \<noteq> Initial False"

definition start_gate :: "children \<Rightarrow> child_key \<Rightarrow> bool" where
  "start_gate m c = (case bt_get m c of None \<Rightarrow> False | Some r \<Rightarrow> \<not> start_passed r)"

lemma ordered_start_simp:
  "ordered_start m (Some c) =
     (if start_gate m c
      then (False, (case bt_get m c of
               Some r \<Rightarrow> if startable r \<and> \<not> cr_spawned_once r then [StartChild c] else []
             | None \<Rightarrow> []), Some c)
      else ordered_start m (bt_first_after m c))"
  by (cases "bt_get m c")
    (auto simp: start_gate_def start_passed_def startable_def
      split: child_state.splits)

declare ordered_start.simps(2) [simp del]

lemma cursor_up_induct [case_names None Step]:
  fixes m :: children
  assumes "P None" "\<And>c. P (bt_first_after m c) \<Longrightarrow> P (Some c)"
  shows "P cur"
proof (induction "case cur of None \<Rightarrow> 0 | Some c \<Rightarrow> Suc (keys_above m c)" arbitrary: cur rule: less_induct)
  case less
  show ?case
  proof (cases cur)
    case (Some c)
    have "P (bt_first_after m c)"
      by (rule less) (auto simp: Some dest: bt_first_after_above split: option.splits)
    with Some assms(2) show ?thesis by blast
  qed (use assms(1) in simp)
qed

definition before_cursor :: "child_key \<Rightarrow> child_key option \<Rightarrow> bool" where
  "before_cursor k cur = (case cur of None \<Rightarrow> True | Some c \<Rightarrow> k < c)"

lemma first_after_cases:
  assumes "bt_wf m" "bt_get m k = Some r" "\<not> before_cursor k (Some c)"
  shows "k = c \<or> \<not> before_cursor k (bt_first_after m c)"
proof (cases "bt_first_after m c")
  case None
  with assms(2,3) show ?thesis by (auto simp: bt_first_after_None before_cursor_def dest!: bt_get_SomeD)
next
  case (Some n)
  then have "c < k \<longrightarrow> n \<le> k"
    using bt_get_SomeD [OF assms(2)] unfolding bt_first_after_Some [OF assms(1)] by blast
  with Some assms(3) show ?thesis by (auto simp: before_cursor_def)
qed

lemma ordered_start_passed:
  assumes "bt_wf m" "bt_get m k = Some r"
  shows "ordered_start m cur = (fin, es, cur') \<Longrightarrow> \<not> before_cursor k cur \<Longrightarrow> before_cursor k cur' \<Longrightarrow> start_passed r"
proof (induction cur rule: cursor_up_induct [of _ m])
  case (Step c)
  show ?case
  proof (cases "start_gate m c")
    case False
    with Step first_after_cases [OF assms Step(3)] assms(2) show ?thesis
      by (auto simp: ordered_start_simp start_gate_def)
  qed (use Step in \<open>auto simp: ordered_start_simp\<close>)
qed (simp add: before_cursor_def)

lemma ordered_start_end:
  "ordered_start m cur = (fin, es, cur') \<Longrightarrow>
   (fin \<longleftrightarrow> cur' = None) \<and> (\<forall>c. cur' = Some c \<longrightarrow> start_gate m c)"
  by (induction cur rule: cursor_up_induct [of _ m]) (auto simp: ordered_start_simp split: if_splits)

lemma ordered_start_idem:
  "ordered_start m cur = (fin, es, cur') \<Longrightarrow> ordered_start m cur' = (fin, es, cur')"
  by (induction cur rule: cursor_up_induct [of _ m]) (auto simp: ordered_start_simp split: if_splits)

section \<open>What a transition leaves alone\<close>

lemma step_frame:
  assumes "ev \<noteq> EvSettle"
  shows "ss_flavor (snd (step s ev)) = ss_flavor s" "ss_lifecycle (snd (step s ev)) = ss_lifecycle s"
    "ss_next_ordered_start (snd (step s ev)) = ss_next_ordered_start s"
    "ss_ordered_stop_cursor (snd (step s ev)) = ss_ordered_stop_cursor s"
    "ss_ordered_stop_waiting (snd (step s ev)) = ss_ordered_stop_waiting s"
    "ss_finish_emitted (snd (step s ev)) = ss_finish_emitted s"
  using assms
  by (cases ev; auto simp: step_def apply_spawned_def apply_ready_def apply_restart_pending_def
      apply_terminalized_def sample_removal_def apply_removal_latched_def apply_reclaim_def Let_def split_def
      transition_incarnation_facts split: option.splits child_state.splits)+

lemma begin_drain_draining:
  "begin_drain l reason = Inr (t, l') \<Longrightarrow> is_draining l'"
  by (auto simp: begin_drain_def drain_with_def Let_def is_draining_def
      split: if_splits scope_lifecycle_state.splits)

lemma begin_drain_again: "is_draining l \<Longrightarrow> begin_drain l reason = Inr (t, l') \<Longrightarrow> t = None"
  by (auto simp: begin_drain_def is_draining_def split: if_splits scope_lifecycle_state.splits)

lemma begin_drain_first: "\<not> is_draining l \<Longrightarrow> begin_drain l reason = Inr (t, l') \<Longrightarrow> t \<noteq> None"
  by (auto simp: begin_drain_def drain_with_def is_draining_def Let_def
      split: if_splits scope_lifecycle_state.splits)

lemma settle_startup_draining [simp]:
  "is_draining (ss_lifecycle s) \<Longrightarrow> settle_startup s = ([], s)"
  by (auto simp: settle_startup_def is_starting_def is_draining_def)

lemma settle_startup_lifecycle_draining [simp]:
  "is_draining (ss_lifecycle (snd (settle_startup s))) = is_draining (ss_lifecycle s)"
  by (auto simp: settle_startup_def try_complete_startup_def complete_startup_def Let_def split_def is_draining_def
      split: scope_flavor.splits option.splits)

lemma settle_startup_next_dynamic:
  "ss_flavor s \<noteq> Ordered \<Longrightarrow> ss_next_ordered_start (snd (settle_startup s)) = ss_next_ordered_start s"
  by (cases "ss_flavor s") (auto simp: settle_startup_def Let_def split_def)

lemma settle_draining [simp]: "is_draining (ss_lifecycle (snd (settle s))) = is_draining (ss_lifecycle s)"
  by (simp add: settle_parts)

lemma sup_fail_startup_draining:
  "is_draining (ss_lifecycle (snd (sup_fail_startup s))) = is_draining (ss_lifecycle s)"
  by (auto simp: sup_fail_startup_def fail_startup_def Let_def is_draining_def)

text \<open>Draining is entered by a drain or force request only, and never left.\<close>

lemma sup_step_draining:
  assumes "sup_step s inp = Inr (out, s')"
  shows "is_draining (ss_lifecycle s') \<longleftrightarrow>
    is_draining (ss_lifecycle s) \<or> (\<exists>r. inp = InDrain r) \<or> inp = InForce"
proof (cases inp)
  case (InEvent ev)
  then have "s' = snd (step s ev)" using assms by (auto split: prod.splits)
  with InEvent show ?thesis using step_frame(2) [of ev s] by (cases "ev = EvSettle") (auto simp: step_def)
next
  case (InDrain r)
  with assms show ?thesis by (auto simp: run_bind_eq_Inr sup_begin_drain_Inr dest: begin_drain_draining)
next
  case InForce
  with assms show ?thesis
    by (auto simp: run_bind_eq_Inr sup_force_def sup_begin_drain_Inr dest: begin_drain_draining)
next
  case InFailStartup
  with assms sup_fail_startup_draining [of s] show ?thesis by (auto split: prod.splits)
qed (use assms in \<open>auto simp: run_bind_eq_Inr sup_admit_Inr\<close>)

lemma sup_step_flavor: "sup_step s inp = Inr (out, s') \<Longrightarrow> ss_flavor s' = ss_flavor s"
proof (cases inp)
  case (InEvent ev)
  assume "sup_step s inp = Inr (out, s')"
  with InEvent have "s' = snd (step s ev)" by (auto split: prod.splits)
  then show ?thesis using step_frame(1) [of ev s] by (cases "ev = EvSettle") (auto simp: step_def)
qed (auto simp: run_bind_eq_Inr sup_admit_Inr sup_fail_startup_def dest!: sup_begin_drain_frame sup_force_frame
    split: prod.splits)

lemma cursor_wf_settle_startup: "cursor_wf s \<Longrightarrow> cursor_wf (snd (settle_startup s))"
  using settle_startup_next_dynamic [of s] by (auto simp: cursor_wf_def cursor_ok_def)

lemma cursor_wf_settle_ordered_stop:
  assumes "cursor_wf s" "bt_wf (ss_children s)"
  shows "cursor_wf (snd (settle_ordered_stop s))"
proof -
  obtain target cursor where o: "ordered_stop (ss_children s) (ss_ordered_stop_cursor s) = (target, cursor)"
    by force
  have less: "c < t" if "target = Some t" "cursor = Some c" for c t
  proof -
    have "bt_last_before (ss_children s) t = Some c"
      using ordered_stop_target_spec [OF assms(2)] o that by metis
    then show ?thesis unfolding bt_last_before_Some [OF assms(2)] by blast
  qed
  show ?thesis
    using assms(1) less unfolding settle_ordered_stop_def o
    by (auto simp: cursor_wf_def cursor_ok_def)
qed

lemma cursor_wf_drain:
  assumes "cursor_wf s" "sup_begin_drain s reason = Inr (t, es, s')"
  shows "cursor_wf s'"
proof -
  obtain l where l: "begin_drain (ss_lifecycle s) reason = Inr (t, l)"
      and s': "s' = s\<lparr>ss_lifecycle := l, ss_ordered_stop_cursor := (case (t, ss_flavor s) of
                    (Some _, Ordered) \<Rightarrow> bt_last (ss_children s) | _ \<Rightarrow> ss_ordered_stop_cursor s)\<rparr>"
    using assms(2) unfolding sup_begin_drain_Inr by blast
  have d: "is_draining l" by (rule begin_drain_draining [OF l])
  have "ss_ordered_stop_waiting s = None" if "t \<noteq> None"
    using that begin_drain_again [OF _ l] assms(1) by (auto simp: cursor_wf_def cursor_ok_def)
  with assms(1) d show ?thesis
    unfolding s' by (cases t; cases "ss_flavor s") (auto simp: cursor_wf_def cursor_ok_def)
qed

lemma cursor_wf_step:
  assumes "cursor_wf s" "sup_registry_wf s" "sup_step s inp = Inr (out, s')"
  shows "cursor_wf s'"
proof (cases inp)
  case (InEvent ev)
  then have s': "s' = snd (step s ev)" using assms(3) by (auto split: prod.splits)
  show ?thesis
  proof (cases "ev = EvSettle")
    case False
    with assms(1) show ?thesis unfolding s' cursor_wf_def by (simp add: step_frame)
  next
    case True
    have "bt_wf (ss_children s)" using assms(2) by (simp add: sup_registry_wf_def registry_wf_def)
    then have "cursor_wf (snd (settle_ordered_stop (snd (settle_startup s))))"
      using cursor_wf_settle_startup [OF assms(1)] by (simp add: cursor_wf_settle_ordered_stop)
    then show ?thesis unfolding s' True cursor_wf_def by (simp add: step_def settle_parts)
  qed
next
  case (InDrain r)
  then obtain t es where "sup_begin_drain s r = Inr (t, es, s')"
    using assms(3) by (auto simp: run_bind_eq_Inr)
  then show ?thesis by (rule cursor_wf_drain [OF assms(1)])
next
  case InForce
  then obtain t es where "sup_begin_drain (s\<lparr>ss_hard_forced := True\<rparr>) ShutdownRequested = Inr (t, es, s')"
    using assms(3) by (auto simp: run_bind_eq_Inr sup_force_def)
  then show ?thesis by (rule cursor_wf_drain [rotated]) (use assms(1) in \<open>simp add: cursor_wf_def\<close>)
next
  case InFailStartup
  with assms(3) have "s' = snd (sup_fail_startup s)" by (auto split: prod.splits)
  then show ?thesis using assms(1) sup_fail_startup_draining [of s]
    by (simp add: cursor_wf_def sup_fail_startup_def split_def)
next
  case (InAdmit m b)
  with assms(1,3) show ?thesis by (auto simp: run_bind_eq_Inr sup_admit_Inr cursor_wf_def cursor_ok_def)
qed


section \<open>Reachable states\<close>

definition admissions :: "sup_input list \<Rightarrow> membership list" where
  "admissions inputs = List.map_filter (\<lambda>inp. case inp of InAdmit m _ \<Rightarrow> Some m | _ \<Rightarrow> None) inputs"

definition sup_run :: "scope_flavor \<Rightarrow> sup_input list \<Rightarrow> (sup_output list \<times> supervisor_state) run" where
  "sup_run flavor inputs = run_ops sup_step (supervisor_new flavor lifecycle_starting) inputs"

lemma sup_run_snoc:
  "sup_run flavor (inputs @ [inp]) = Inr (outs, s') \<longleftrightarrow>
     (\<exists>outs1 s out. sup_run flavor inputs = Inr (outs1, s) \<and> sup_step s inp = Inr (out, s') \<and>
        outs = outs1 @ [out])"
  by (simp add: sup_run_def run_ops_snoc)

lemma sup_run_Nil: "sup_run flavor [] = Inr ([], supervisor_new flavor lifecycle_starting)"
  by (simp add: sup_run_def)

lemma step_child_keys: "dom (ss_child_keys (snd (step s ev))) \<subseteq> dom (ss_child_keys s)"
  by (cases ev) (auto simp: step_def apply_spawned_def apply_ready_def apply_restart_pending_def
      apply_terminalized_def sample_removal_def apply_removal_latched_def apply_reclaim_def Let_def split_def
      transition_incarnation_facts domIff split: option.splits child_state.splits if_splits)

lemma sup_step_child_keys:
  assumes "sup_step s inp = Inr (out, s')"
  shows "dom (ss_child_keys s') \<subseteq> dom (ss_child_keys s) \<union> (case inp of InAdmit m _ \<Rightarrow> {m} | _ \<Rightarrow> {})"
proof (cases inp)
  case (InEvent ev)
  with assms step_child_keys [of s ev] show ?thesis by (auto split: prod.splits)
qed (use assms in \<open>auto simp: run_bind_eq_Inr sup_admit_Inr sup_fail_startup_def
      dest!: sup_begin_drain_frame sup_force_frame split: prod.splits if_splits\<close>)

definition sup_inv :: "supervisor_state \<Rightarrow> bool" where
  "sup_inv s \<longleftrightarrow> sup_registry_wf s \<and> keys_bounded s \<and> cursor_wf s"

lemma sup_inv_new: "sup_inv (supervisor_new flavor lifecycle_starting)"
proof -
  have "sup_registry_wf (supervisor_new flavor lifecycle_starting)"
    by (simp add: sup_registry_wf_def registry_wf_def supervisor_new_def member_at_def)
  moreover have "cursor_wf (supervisor_new flavor lifecycle_starting)"
    by (simp add: cursor_wf_def cursor_ok_def supervisor_new_def)
  ultimately show ?thesis by (simp add: sup_inv_def keys_bounded_new)
qed

lemma sup_run_inv:
  assumes "sup_run flavor inputs = Inr (outs, s)" "distinct (admissions inputs)"
  shows "sup_inv s \<and> ss_flavor s = flavor \<and> dom (ss_child_keys s) \<subseteq> set (admissions inputs)"
  using assms
proof (induction inputs arbitrary: outs s rule: rev_induct)
  case Nil
  then have "s = supervisor_new flavor lifecycle_starting" by (simp add: sup_run_Nil)
  with sup_inv_new show ?case by (simp add: supervisor_new_def)
next
  case (snoc inp inputs)
  obtain outs1 s1 out where r: "sup_run flavor inputs = Inr (outs1, s1)"
      and st: "sup_step s1 inp = Inr (out, s)"
    using snoc.prems(1) by (auto simp: sup_run_snoc)
  have "distinct (admissions inputs)" using snoc.prems(2) by (auto simp: admissions_def)
  note ih = snoc.IH [OF r this]
  then have inv: "sup_registry_wf s1" "keys_bounded s1" "cursor_wf s1" by (simp_all add: sup_inv_def)
  have fresh: "ss_child_keys s1 m = None" if "inp = InAdmit m b" for m b
    using that snoc.prems(2) ih by (auto simp: admissions_def map_filter_simps)
  have "sup_inv s"
    unfolding sup_inv_def
    using sup_registry_sup_step [OF inv(1,2) st fresh] keys_bounded_step [OF inv(2) st]
      cursor_wf_step [OF inv(3,1) st] by blast
  moreover have "ss_flavor s = flavor" using sup_step_flavor [OF st] ih by simp
  moreover have "dom (ss_child_keys s) \<subseteq> set (admissions (inputs @ [inp]))"
    using sup_step_child_keys [OF st] ih
    by (cases inp) (auto simp: admissions_def map_filter_simps)
  ultimately show ?case by blast
qed

definition check_invariants :: "supervisor_state \<Rightarrow> bool" where
  "check_invariants s \<longleftrightarrow>
     length (ss_children s) = card (dom (ss_child_keys s)) \<and>
     (\<forall>e \<in> set (ss_children s). ss_child_keys s (cr_membership (snd e)) = Some (fst e)) \<and>
     (ss_flavor s \<noteq> Ordered \<longrightarrow>
        ss_next_ordered_start s = None \<and> ss_ordered_stop_cursor s = None \<and> ss_ordered_stop_waiting s = None) \<and>
     (case ss_ordered_stop_waiting s of
        None \<Rightarrow> True
      | Some w \<Rightarrow>
          is_draining (ss_lifecycle s) \<and>
          (contains s w \<or> (case ss_ordered_stop_cursor s of None \<Rightarrow> True | Some c \<Rightarrow> c < w)))"

lemma registry_card:
  assumes "registry_wf m index"
  shows "length m = card (dom index)"
proof -
  have wf: "bt_wf m" and i: "member_at m k = Some i \<longleftrightarrow> index i = Some k" for i k
    using assms by (simp_all add: registry_wf_def)
  have "bij_betw (\<lambda>i. the (index i)) (dom index) (set (bt_keys m))"
  proof (rule bij_betwI')
    fix x y assume "x \<in> dom index" "y \<in> dom index"
    then show "(the (index x) = the (index y)) = (x = y)"
      using i by (auto simp: domIff) (metis option.inject)
  next
    fix x assume "x \<in> dom index"
    then obtain k where "index x = Some k" by auto
    with i show "the (index x) \<in> set (bt_keys m)"
      by (auto simp: member_at_def dest: bt_get_SomeD)
  next
    fix k assume "k \<in> set (bt_keys m)"
    then obtain r where "bt_get m k = Some r" using bt_get_None_iff by fastforce
    then have "index (cr_membership r) = Some k" using i [of k "cr_membership r"] by (simp add: member_at_def)
    then show "\<exists>x \<in> dom index. k = the (index x)" by force
  qed
  then have "card (dom index) = card (set (bt_keys m))" by (rule bij_betw_same_card)
  also have "\<dots> = length m"
    using distinct_card [OF btm.keys_distinct [OF wf]] by (simp add: bt_keys_def)
  finally show ?thesis by simp
qed


section \<open>A concrete run\<close>

definition demo_member :: "u64 \<Rightarrow> membership" where
  "demo_member n = Membership \<lparr>fence_lineage = Lineage n, fence_generation = Generation 1\<rparr>"

definition demo_start :: "sup_input list" where
  "demo_start =
     [InAdmit (demo_member 1) True, InAdmit (demo_member 2) True, InEvent EvSettle,
      InEvent (EvSpawned (ChildKey 1)), InEvent (EvReady (ChildKey 1))]"

definition demo_ready :: "sup_input list" where
  "demo_ready = demo_start @
     [InEvent EvSettle, InEvent (EvSpawned (ChildKey 2)), InEvent (EvReady (ChildKey 2))]"

definition demo_drain :: "sup_input list" where
  "demo_drain = demo_ready @ [InEvent EvSettle, InDrain ShutdownRequested]"

definition child_stops :: "child_key \<Rightarrow> sup_input list" where
  "child_stops k = map InEvent [EvStopStarted k, EvIncarnationComplete k, EvDisposalStarted k, EvTerminalized k]"

definition demo_stop :: "sup_input list" where
  "demo_stop = demo_drain @ [InEvent EvSettle] @ child_stops (ChildKey 2)"

definition demo_end :: "sup_input list" where
  "demo_end = demo_stop @
     [InEvent EvSettle, InEvent (EvRemovalLatched (ChildKey 2)), InEvent (EvReclaim (ChildKey 2))] @
     child_stops (ChildKey 1)"

definition demo_check :: "sup_input list \<Rightarrow> (sup_output list \<Rightarrow> supervisor_state \<Rightarrow> bool) \<Rightarrow> bool" where
  "demo_check inputs P = (case sup_run Ordered inputs of Inl _ \<Rightarrow> False | Inr (outs, s) \<Rightarrow> P outs s)"

lemma demo_checkD:
  "demo_check inputs P \<Longrightarrow> \<exists>outs s. sup_run Ordered inputs = Inr (outs, s) \<and> P outs s"
  by (auto simp: demo_check_def split: sum.splits)

lemmas sup_eval =
  checked_add_u64_def
  sup_run_def sup_admit_def counter_mint_def counter_successor_def supervisor_new_def counter_new_def
  step_def settle_def settle_startup_def settle_ordered_stop_def settle_finish_def try_complete_startup_def
  complete_startup_def finish_if_ready_def none_pending_def all_children_joined_def
  ordered_start_simp ordered_stop_simp start_gate_def start_passed_def startable_def open_child_def
  is_starting_def is_draining_def draining_reason_def startup_complete_def lifecycle_starting_def lifecycle_state_def
  begin_drain_def drain_with_def sup_begin_drain_def is_incomplete_def contains_def sup_joined_def
  child_state_of_def state_joined_def apply_spawned_def apply_ready_def apply_terminalized_def
  apply_removal_latched_def apply_reclaim_def transition_incarnation_def modify_child_def set_ready_def
  bt_get_def bt_modify_def bt_remove_def bt_keys_def bt_values_def bt_last_def bt_first_after_def bt_last_before_def
  less_child_key_def less_eq_child_key_def trace_effects_def Let_def


lemmas demo_defs =
  demo_check_def demo_start_def demo_ready_def demo_drain_def demo_stop_def demo_end_def demo_member_def
  child_stops_def

lemma demo_start_run:
  "demo_check demo_start (\<lambda>outs s. StartChild (ChildKey 2) \<in> set (fst (settle s)))"
  by (simp add: demo_defs sup_eval cong: run_bind_weak_cong)

lemma demo_ready_run:
  "demo_check demo_ready (\<lambda>outs s. StartupCompleted Scope_Running \<in> set (fst (settle s)))"
  by (simp add: demo_defs sup_eval cong: run_bind_weak_cong)

lemma demo_drain_run:
  "demo_check demo_drain (\<lambda>outs s. is_draining (ss_lifecycle s) \<and> StopChild (ChildKey 2) \<in> set (fst (settle s)))"
  by (simp add: demo_defs sup_eval cong: run_bind_weak_cong)

lemma demo_stop_run:
  "demo_check demo_stop (\<lambda>outs s. StopChild (ChildKey 1) \<in> set (fst (settle s)))"
  by (simp add: demo_defs sup_eval cong: run_bind_weak_cong)

lemma demo_end_run:
  "demo_check demo_end (\<lambda>outs s. FinishedWith ShutdownRequested \<in> set (fst (settle s)) \<and>
     FinalizeRemoval (ChildKey 2) \<in> set (trace_effects outs))"
  by (simp add: demo_defs sup_eval cong: run_bind_weak_cong)

lemma admissions_append: "admissions (xs @ ys) = admissions xs @ admissions ys"
  by (simp add: admissions_def map_filter_def)

lemma demo_admissions:
  "distinct (admissions demo_start)" "distinct (admissions demo_ready)" "distinct (admissions demo_drain)"
  "distinct (admissions demo_stop)" "distinct (admissions demo_end)"
  by (simp_all add: demo_defs admissions_def map_filter_simps)

section \<open>Properties\<close>

text \<open>
  C19: Over any sequence of transitions of a fresh scope, a child's removal is committed by at most one
  removal command and finalized at most once. While the child is registered, it has been committed
  exactly if it is in a removing state, and finalized exactly if that removal has joined; so no
  finalization is ever lost or repeated, whichever of commit and join comes first.
\<close>

theorem removal_effects_once:
  assumes "run_ops sup_step (supervisor_new flavor lifecycle_starting) inputs = Inr (outs, s)"
  shows "count_list (trace_effects outs) (FinalizeRemoval k) \<le> 1 \<and>
    removal_commits inputs outs k \<le> 1 \<and>
    (contains s k \<longrightarrow>
       (count_list (trace_effects outs) (FinalizeRemoval k) = 1 \<longleftrightarrow>
          child_state_of s k = Some (RemovingState InJoined)) \<and>
       (removal_commits inputs outs k = 1 \<longleftrightarrow> (\<exists>i. child_state_of s k = Some (RemovingState i))))"
proof -
  have len: "length inputs = length outs" using run_ops_length [OF assms] by simp
  have c: "contains s k \<longleftrightarrow> child_state_of s k \<noteq> None" by (simp add: contains_def child_state_of_def)
  have f: "in_phase removal_final s k \<longleftrightarrow> child_state_of s k = Some (RemovingState InJoined)"
    by (auto simp: in_phase_def removal_final_def split: option.splits)
  have m: "in_phase removal_committed s k \<longleftrightarrow> (\<exists>i. child_state_of s k = Some (RemovingState i))"
    by (auto simp: in_phase_def split: option.splits elim: removal_committed.elims)
  show ?thesis
    using finalization.once [OF assms supervisor_new_start, of k]
      commitment.once [OF assms supervisor_new_start, of k]
    unfolding trace_effects_def count_list_concat removal_commits_def sum_list_map2_snd [OF len] c f m
    by (simp add: comp_def)
qed

text \<open>
  Registration keys are never reused: the keys handed out by admissions strictly increase, and
  every registered child's key was handed out before.
\<close>

theorem child_keys_never_reused:
  assumes "run_ops sup_step (supervisor_new flavor lifecycle_starting) inputs = Inr (outs, s)"
  shows "sorted_wrt (<) (admitted_keys outs) \<and> distinct (admitted_keys outs) \<and>
    (contains s k \<longrightarrow> k \<in> set (admitted_keys outs))"
proof -
  have "contains s k \<Longrightarrow> k \<in> set (admitted_keys outs)"
    using assms
  proof (induction inputs arbitrary: outs s rule: rev_induct)
    case Nil
    then have "s = supervisor_new flavor lifecycle_starting" by simp
    with Nil.prems(1) show ?case by (simp add: supervisor_new_def contains_def)
  next
    case (snoc inp inputs)
    then obtain outs1 s1 out where r: "run_ops sup_step (supervisor_new flavor lifecycle_starting) inputs = Inr (outs1, s1)"
        and st: "sup_step s1 inp = Inr (out, s)" and o: "outs = outs1 @ [out]"
      by (auto simp: run_ops_snoc)
    have "contains s1 k \<or> out = OutAdmitted k"
      using snoc.prems(1) sup_step_view [OF st, of k]
      by (cases inp; cases "child_state_of s1 k") (auto simp: contains_def child_state_of_def split: if_splits)
    with snoc.IH [OF _ r] show ?case
      by (auto simp: o admitted_keys_def map_filter_simps)
  qed
  with admitted_keys_increasing [OF assms] show ?thesis
    by (auto simp: strict_sorted_iff)
qed

theorem removal_effects_once_witness:
  "\<exists>outs s. sup_run Ordered demo_end = Inr (outs, s) \<and>
     count_list (trace_effects outs) (FinalizeRemoval (ChildKey 2)) = 1"
proof -
  obtain outs s where r: "sup_run Ordered demo_end = Inr (outs, s)"
      and f: "FinalizeRemoval (ChildKey 2) \<in> set (trace_effects outs)"
    using demo_checkD [OF demo_end_run] by blast
  have "count_list (trace_effects outs) (FinalizeRemoval (ChildKey 2)) \<le> 1"
    using removal_effects_once [OF r [unfolded sup_run_def], of "ChildKey 2"] by blast
  moreover have "count_list (trace_effects outs) (FinalizeRemoval (ChildKey 2)) \<noteq> 0"
    using f by (simp add: count_list_0_iff)
  ultimately show ?thesis using r by (intro exI [of _ outs] exI [of _ s]) simp
qed

theorem child_keys_never_reused_witness:
  "\<exists>outs s. sup_run Ordered demo_end = Inr (outs, s) \<and> distinct (admitted_keys outs)"
  using demo_checkD [OF demo_end_run] child_keys_never_reused [of Ordered demo_end]
  unfolding sup_run_def by blast

text \<open>
  C20: The reducer's own consistency check holds in every reachable state of either flavor, provided
  each membership is admitted once: the membership index and the registry describe the same
  children, only an ordered scope has cursors, and an ordered stop waits for a child only while
  draining and never behind its cursor.
\<close>

theorem supervisor_invariants:
  assumes "sup_run flavor inputs = Inr (outs, s)" "distinct (admissions inputs)"
  shows "check_invariants s"
proof -
  have inv: "registry_wf (ss_children s) (ss_child_keys s)" "cursor_wf s"
    using sup_run_inv [OF assms] by (simp_all add: sup_inv_def sup_registry_wf_def)
  have "\<forall>e \<in> set (ss_children s). ss_child_keys s (cr_membership (snd e)) = Some (fst e)"
  proof
    fix e assume "e \<in> set (ss_children s)"
    then have "bt_get (ss_children s) (fst e) = Some (snd e)"
      using inv(1) by (simp add: registry_wf_def bt_get_Some_iff)
    then show "ss_child_keys s (cr_membership (snd e)) = Some (fst e)"
      using inv(1) by (auto simp: registry_wf_def member_at_def)
  qed
  with registry_card [OF inv(1)] inv(2) show ?thesis
    unfolding check_invariants_def cursor_wf_def cursor_ok_def by (auto split: option.splits)
qed

theorem supervisor_invariants_witness:
  "\<exists>outs s. sup_run Ordered demo_end = Inr (outs, s) \<and> check_invariants s"
  using demo_checkD [OF demo_end_run] supervisor_invariants [OF _ demo_admissions(5)] by blast

end
