(* ===== verification/Supervisor_Scope.thy ===== *)
theory Supervisor_Scope
  imports Supervisor_Order
begin

text \<open>
  The life of a scope over any sequence of reducer transitions: when it reports startup and finish, in
  which order it starts and stops its children, that a drain makes progress and that settlement
  reaches a fixed point. The reducer is \<open>crates/shelterwood-core/src/supervisor.rs\<close>.
\<close>

section \<open>Scope milestones\<close>

lemma settle_finish_emits:
  "FinishedWith r \<in> set (fst (settle_finish s)) \<Longrightarrow>
     fst (settle_finish s) = [FinishedWith r] \<and> \<not> ss_finish_emitted s \<and> all_children_joined s \<and>
     (case draining_reason (ss_lifecycle s) of
        Some r' \<Rightarrow> r = r'
      | None \<Rightarrow> r = Finished \<and> ss_flavor s = Ordered \<and> ss_children s \<noteq> [] \<and> startup_complete (ss_lifecycle s))"
  by (auto simp: settle_finish_def finish_if_ready_def split: option.splits if_splits)

lemma all_joined_settle [simp]:
  "all_children_joined (snd (settle s)) = all_children_joined s"
  "all_children_joined (snd (settle_ordered_stop s)) = all_children_joined s"
  "all_children_joined (snd (settle_startup s)) = all_children_joined s"
  by (simp_all add: all_children_joined_def)

lemma sup_run_flavor: "sup_run flavor inputs = Inr (outs, s) \<Longrightarrow> ss_flavor s = flavor"
proof (induction inputs arbitrary: outs s rule: rev_induct)
  case (snoc inp inputs)
  then show ?case by (auto simp: sup_run_snoc dest: sup_step_flavor)
qed (auto simp: sup_run_Nil supervisor_new_def)

lemma settle_finish_flag:
  "ss_finish_emitted (snd (settle_finish s)) \<longleftrightarrow>
     ss_finish_emitted s \<or> (\<exists>r. FinishedWith r \<in> set (fst (settle_finish s)))"
  by (auto simp: settle_finish_def split: option.splits)

lemma settle_startup_no_other:
  "FinishedWith r \<notin> set (fst (settle_startup s))" "StopChild c \<notin> set (fst (settle_startup s))"
  using settle_startup_range [of s] by auto

lemma settle_ordered_stop_no_other:
  "FinishedWith r \<notin> set (fst (settle_ordered_stop s))" "StartChild c \<notin> set (fst (settle_ordered_stop s))"
  "StartupCompleted st \<notin> set (fst (settle_ordered_stop s))"
  using settle_ordered_stop_effects [of s] by auto

lemma settle_finish_no_other:
  "StopChild c \<notin> set (fst (settle_finish s))" "StartChild c \<notin> set (fst (settle_finish s))"
  "StartupCompleted st \<notin> set (fst (settle_finish s))"
  using settle_finish_effects [of s] by auto

lemmas settle_no_other [simp] =
  settle_startup_no_other settle_ordered_stop_no_other settle_finish_no_other

text \<open>Only a settlement starts a child, completes the startup or finishes the scope.\<close>

lemma step_milestones:
  assumes "ev \<noteq> EvSettle"
  shows "set (fst (step s ev)) \<subseteq> range StopChild \<union> range FinalizeRemoval"
  using assms
  by (cases ev) (auto simp: step_def apply_terminalized_def apply_removal_latched_def split_def
      split: option.splits child_state.splits)

lemma sup_step_milestones:
  assumes "sup_step s inp = Inr (out, s')" "inp \<noteq> InEvent EvSettle"
  shows "set (output_effects out) \<subseteq> range StopChild \<union> range FinalizeRemoval \<union> range ForceChild"
proof (cases inp)
  case (InEvent ev)
  with assms step_milestones [of ev s] show ?thesis by (auto split: prod.splits)
qed (use assms drain_range in \<open>fastforce simp: run_bind_eq_Inr split: prod.splits\<close>)+

lemma sup_step_settle:
  "sup_step s (InEvent EvSettle) = Inr (out, s') \<longleftrightarrow> out = OutEvent (fst (settle s)) \<and> s' = snd (settle s)"
  by (auto simp: step_def split: prod.splits)

lemma sup_step_finish_flag:
  assumes "sup_step s inp = Inr (out, s')"
  shows "ss_finish_emitted s' \<longleftrightarrow>
    ss_finish_emitted s \<or> (\<exists>r. FinishedWith r \<in> set (output_effects out))"
proof (cases "inp = InEvent EvSettle")
  case True
  with assms show ?thesis
    by (auto simp: sup_step_settle settle_parts settle_finish_flag simp del: sup_step.simps)
next
  case False
  have "ss_finish_emitted s' = ss_finish_emitted s"
  proof (cases inp)
    case (InEvent ev)
    with assms False step_frame(6) [of ev s] show ?thesis by (auto split: prod.splits)
  qed (use assms in \<open>auto simp: run_bind_eq_Inr sup_admit_Inr sup_fail_startup_def
      dest!: sup_begin_drain_frame sup_force_frame split: prod.splits\<close>)
  with sup_step_milestones [OF assms False] show ?thesis by auto
qed

lemma trace_effects_snoc [simp]:
  "trace_effects [] = []" "trace_effects (outs @ [out]) = trace_effects outs @ output_effects out"
  by (simp_all add: trace_effects_def)

lemma finish_flag_trace:
  "sup_run flavor inputs = Inr (outs, s) \<Longrightarrow>
   ss_finish_emitted s \<longleftrightarrow> (\<exists>r. FinishedWith r \<in> set (trace_effects outs))"
proof (induction inputs arbitrary: outs s rule: rev_induct)
  case (snoc inp inputs)
  then obtain outs1 s1 out where r: "sup_run flavor inputs = Inr (outs1, s1)"
      and st: "sup_step s1 inp = Inr (out, s)" and o: "outs = outs1 @ [out]"
    by (auto simp: sup_run_snoc)
  show ?case using snoc.IH [OF r] sup_step_finish_flag [OF st] by (auto simp: o)
qed (auto simp: sup_run_Nil supervisor_new_def)

definition is_finish :: "effect \<Rightarrow> bool" where
  "is_finish e = (case e of FinishedWith _ \<Rightarrow> True | _ \<Rightarrow> False)"

lemma filter_finish_settle: "filter is_finish (fst (settle s)) = fst (settle_finish (snd (settle_ordered_stop (snd (settle_startup s)))))"
proof -
  have none: "filter is_finish es = []" if "\<forall>r. FinishedWith r \<notin> set es" for es
    using that by (auto simp: filter_empty_conv is_finish_def split: effect.splits)
  have "filter is_finish (fst (settle_finish s)) = fst (settle_finish s)" for s
    using settle_finish_effects [of s] by (auto simp: filter_id_conv is_finish_def)
  then show ?thesis by (simp add: settle_parts none)
qed

text \<open>
  C9: A scope finishes at most once over any run, only in a settlement, and only when every child it
  still registers has joined. The verdict is the current drain reason, or \<open>Finished\<close> for an ordered
  scope that ran to completion without being drained.
\<close>

theorem scope_finishes_once:
  assumes "sup_run flavor inputs = Inr (outs, s)" "sup_step s inp = Inr (out, s')"
    "FinishedWith r \<in> set (output_effects out)"
  shows "inp = InEvent EvSettle \<and> filter is_finish (output_effects out) = [FinishedWith r] \<and>
    (\<forall>r'. FinishedWith r' \<notin> set (trace_effects outs)) \<and> all_children_joined s' \<and>
    (case draining_reason (ss_lifecycle s') of
       Some r' \<Rightarrow> r = r'
     | None \<Rightarrow> r = Finished \<and> flavor = Ordered \<and> ss_children s' \<noteq> [] \<and> startup_complete (ss_lifecycle s'))"
proof -
  have inp: "inp = InEvent EvSettle" using sup_step_milestones [OF assms(2)] assms(3) by blast
  let ?s2 = "snd (settle_ordered_stop (snd (settle_startup s)))"
  have out: "out = OutEvent (fst (settle s))" "s' = snd (settle s)"
    using assms(2) unfolding inp sup_step_settle by blast+
  have fin: "FinishedWith r \<in> set (fst (settle_finish ?s2))"
    using assms(3) by (simp add: out settle_parts)
  note f = settle_finish_emits [OF fin]
  have "\<not> ss_finish_emitted s" using f by simp
  then have none: "\<forall>r'. FinishedWith r' \<notin> set (trace_effects outs)"
    using finish_flag_trace [OF assms(1)] by blast
  have fil: "filter is_finish (output_effects out) = [FinishedWith r]"
    using f filter_finish_settle [of s] by (simp add: out)
  have "ss_lifecycle s' = ss_lifecycle ?s2" "ss_children s' = ss_children ?s2" "ss_flavor ?s2 = flavor"
    using sup_run_flavor [OF assms(1)] by (simp_all add: out settle_parts)
  with f none fil inp show ?thesis by (auto simp: out split: option.splits)
qed

theorem scope_finishes_once_witness:
  "\<exists>outs s out s'. sup_run Ordered demo_end = Inr (outs, s) \<and>
     sup_step s (InEvent EvSettle) = Inr (out, s') \<and>
     filter is_finish (output_effects out) = [FinishedWith ShutdownRequested]"
proof -
  obtain outs s where r: "sup_run Ordered demo_end = Inr (outs, s)"
      and f: "FinishedWith ShutdownRequested \<in> set (fst (settle s))"
    using demo_checkD [OF demo_end_run] by blast
  have st: "sup_step s (InEvent EvSettle) = Inr (OutEvent (fst (settle s)), snd (settle s))"
    unfolding sup_step_settle by blast
  show ?thesis using scope_finishes_once [OF r st] f r st by (intro exI conjI) auto
qed

subsection \<open>Startup completion\<close>

lemma is_starting_settle_startup:
  "is_starting (ss_lifecycle (snd (settle_startup s))) \<longleftrightarrow>
     is_starting (ss_lifecycle s) \<and> StartupCompleted Scope_Running \<notin> set (fst (settle_startup s))"
proof -
  have t: "is_starting (ss_lifecycle (snd (try_complete_startup s))) \<longleftrightarrow>
      is_starting (ss_lifecycle s) \<and> \<not> none_pending (ss_children s)" for s
    by (auto simp: try_complete_startup_def complete_startup_def is_starting_def Let_def)
  obtain fin es c where o: "ordered_start (ss_children s) (ss_next_ordered_start s) = (fin, es, c)"
    by (cases "ordered_start (ss_children s) (ss_next_ordered_start s)") auto
  have "StartupCompleted Scope_Running \<notin> set es"
    using ordered_start_effects [OF o] by (auto split: option.splits if_splits)
  then show ?thesis
    by (auto simp: settle_startup_def o t try_complete_startup_effects dynamic_starts_def Let_def split_def
        split: scope_flavor.splits)
qed

lemma sup_step_starting:
  assumes "sup_step s inp = Inr (out, s')" "is_starting (ss_lifecycle s')"
  shows "is_starting (ss_lifecycle s) \<and> (\<forall>st. StartupCompleted st \<notin> set (output_effects out))"
proof (cases "inp = InEvent EvSettle")
  case True
  with assms settle_startup_range [of s] show ?thesis
    by (auto simp: sup_step_settle settle_parts is_starting_settle_startup simp del: sup_step.simps)
next
  case False
  have "is_starting (ss_lifecycle s)"
  proof (cases inp)
    case (InEvent ev)
    with assms False step_frame(2) [of ev s] show ?thesis by (auto split: prod.splits)
  next
    case (InDrain r)
    with assms show ?thesis
      by (auto simp: run_bind_eq_Inr sup_begin_drain_Inr is_starting_def is_draining_def dest!: begin_drain_draining)
  next
    case InForce
    with assms show ?thesis
      by (auto simp: run_bind_eq_Inr sup_force_def sup_begin_drain_Inr is_starting_def is_draining_def
          dest!: begin_drain_draining)
  qed (use assms in \<open>auto simp: run_bind_eq_Inr sup_admit_Inr sup_fail_startup_def fail_startup_def is_starting_def
      split: prod.splits if_splits\<close>)
  with sup_step_milestones [OF assms(1) False] show ?thesis by auto
qed

lemma starting_trace:
  "sup_run flavor inputs = Inr (outs, s) \<Longrightarrow> is_starting (ss_lifecycle s) \<Longrightarrow>
   StartupCompleted st \<notin> set (trace_effects outs)"
proof (induction inputs arbitrary: outs s rule: rev_induct)
  case (snoc inp inputs)
  then obtain outs1 s1 out where r: "sup_run flavor inputs = Inr (outs1, s1)"
      and st: "sup_step s1 inp = Inr (out, s)" and o: "outs = outs1 @ [out]"
    by (auto simp: sup_run_snoc)
  show ?case using snoc.IH [OF r] sup_step_starting [OF st snoc.prems(2)] by (auto simp: o)
qed (auto simp: sup_run_Nil)

lemma startup_completed_when:
  assumes "StartupCompleted st \<in> set (fst (settle_startup s))"
  shows "st = Scope_Running \<and> is_starting (ss_lifecycle s) \<and> none_pending (ss_children s) \<and>
    ss_lifecycle (snd (settle_startup s)) = ScopeLifecycle LcRunning \<and>
    (ss_flavor s = Ordered \<longrightarrow> ss_next_ordered_start (snd (settle_startup s)) = None)"
proof -
  obtain fin es c where o: "ordered_start (ss_children s) (ss_next_ordered_start s) = (fin, es, c)"
    by (cases "ordered_start (ss_children s) (ss_next_ordered_start s)") auto
  have "StartupCompleted st \<notin> set es"
    using ordered_start_effects [OF o] by (auto split: option.splits if_splits)
  with assms ordered_start_end [OF o] settle_startup_range [of s] show ?thesis
    by (auto simp: settle_startup_def o try_complete_startup_def complete_startup_def dynamic_starts_def
        is_starting_def lifecycle_state_def Let_def split_def split: scope_flavor.splits if_splits)
qed

lemma bt_get_values: "bt_get m k = Some v \<Longrightarrow> v \<in> set (bt_values m)"
  by (force simp: bt_get_def bt_values_def dest: map_of_SomeD)

text \<open>
  A scope reports its startup complete at most once over any run, only in a settlement while it is
  still starting, and only when every registered initial child is ready; the scope is then running.
\<close>

theorem startup_completes_once:
  assumes "sup_run flavor inputs = Inr (outs, s)" "sup_step s inp = Inr (out, s')"
    "StartupCompleted st \<in> set (output_effects out)"
  shows "inp = InEvent EvSettle \<and> st = Scope_Running \<and> is_starting (ss_lifecycle s) \<and>
    (\<forall>st'. StartupCompleted st' \<notin> set (trace_effects outs)) \<and>
    (\<forall>k. is_initial s k \<longrightarrow> initial_ready s k) \<and>
    lifecycle_state (ss_lifecycle s') = Scope_Running \<and> startup_complete (ss_lifecycle s')"
proof -
  have inp: "inp = InEvent EvSettle" using sup_step_milestones [OF assms(2)] assms(3) by blast
  have out: "out = OutEvent (fst (settle s))" "s' = snd (settle s)"
    using assms(2) unfolding inp sup_step_settle by blast+
  have "StartupCompleted st \<in> set (fst (settle_startup s))"
    using assms(3) by (simp add: out settle_parts)
  note c = startup_completed_when [OF this]
  have "initial_ready s k" if "is_initial s k" for k
  proof -
    from that obtain r b where "bt_get (ss_children s) k = Some r" "cr_startup r = Initial b"
      by (auto simp: is_initial_def split: option.splits startup_membership.splits)
    with c show ?thesis by (auto simp: none_pending_def initial_ready_def dest!: bt_get_values)
  qed
  moreover have "ss_lifecycle s' = ScopeLifecycle LcRunning" using c by (simp add: out settle_parts)
  ultimately show ?thesis
    using c inp starting_trace [OF assms(1)] by (simp add: lifecycle_state_def startup_complete_def)
qed

theorem startup_completes_once_witness:
  "\<exists>outs s out s'. sup_run Ordered demo_ready = Inr (outs, s) \<and>
     sup_step s (InEvent EvSettle) = Inr (out, s') \<and> lifecycle_state (ss_lifecycle s') = Scope_Running"
proof -
  obtain outs s where r: "sup_run Ordered demo_ready = Inr (outs, s)"
      and f: "StartupCompleted Scope_Running \<in> set (fst (settle s))"
    using demo_checkD [OF demo_ready_run] by blast
  have st: "sup_step s (InEvent EvSettle) = Inr (OutEvent (fst (settle s)), snd (settle s))"
    unfolding sup_step_settle by blast
  show ?thesis using startup_completes_once [OF r st, of Scope_Running] f r st by (intro exI conjI) auto
qed

section \<open>Stopping in reverse order\<close>

lemma open_child_state:
  "open_child (ss_children s) k \<longleftrightarrow> (\<exists>st. child_state_of s k = Some st \<and> \<not> state_joined st)"
  by (auto simp: open_child_def child_state_of_def)

lemma is_incomplete_open: "is_incomplete s k \<longleftrightarrow> open_child (ss_children s) k"
  by (auto simp: is_incomplete_def contains_def sup_joined_def open_child_def child_state_of_def)

lemma child_edge_joined: "child_edge st st' \<Longrightarrow> state_joined st \<Longrightarrow> state_joined st'"
  by (auto simp: state_joined_def elim!: child_edge.cases)

lemma sup_step_open:
  assumes "sup_step s inp = Inr (out, s')" "\<forall>m b. inp \<noteq> InAdmit m b" "open_child (ss_children s') k"
  shows "open_child (ss_children s) k"
proof -
  have v: "child_state_of s' k = (case inp of InEvent ev \<Rightarrow> Option.bind (child_state_of s k) (event_view ev k)
      | _ \<Rightarrow> child_state_of s k)"
    using sup_step_view [OF assms(1), of k] assms(2) by (cases inp) auto
  show ?thesis
  proof (cases "child_state_of s k")
    case (Some st)
    with v assms(3) show ?thesis
      by (cases inp) (auto simp: open_child_state dest!: event_view_edge child_edge_joined)
  qed (use v assms(3) in \<open>cases inp; auto simp: open_child_state\<close>)
qed

text \<open>No child is admitted once a drain has begun.\<close>

fun no_late_admission :: "sup_input list \<Rightarrow> bool" where
  "no_late_admission [] \<longleftrightarrow> True"
| "no_late_admission (inp # inputs) \<longleftrightarrow>
     ((\<exists>r. inp = InDrain r) \<or> inp = InForce \<longrightarrow> admissions inputs = []) \<and> no_late_admission inputs"

lemma no_late_admission_snoc:
  "no_late_admission (inputs @ [inp]) \<longleftrightarrow> no_late_admission inputs \<and>
     (admissions [inp] \<noteq> [] \<longrightarrow> (\<forall>r. InDrain r \<notin> set inputs) \<and> InForce \<notin> set inputs)"
  by (induction inputs) (auto simp: admissions_append admissions_def map_filter_simps)

lemma draining_trace:
  "sup_run flavor inputs = Inr (outs, s) \<Longrightarrow>
   is_draining (ss_lifecycle s) \<longleftrightarrow> (\<exists>r. InDrain r \<in> set inputs) \<or> InForce \<in> set inputs"
proof (induction inputs arbitrary: outs s rule: rev_induct)
  case (snoc inp inputs)
  then obtain outs1 s1 out where r: "sup_run flavor inputs = Inr (outs1, s1)"
      and st: "sup_step s1 inp = Inr (out, s)" and o: "outs = outs1 @ [out]"
    by (auto simp: sup_run_snoc)
  show ?case using snoc.IH [OF r] sup_step_draining [OF st] by auto
qed (auto simp: sup_run_Nil supervisor_new_def is_draining_def lifecycle_starting_def)

text \<open>
  In a drain every unjoined child is still ahead of the stop cursor, is the one being waited for, or
  (in a dynamic scope) was asked to stop when the drain began.
\<close>

definition stop_frontier :: "supervisor_state \<Rightarrow> effect list \<Rightarrow> bool" where
  "stop_frontier s es \<longleftrightarrow>
     (is_draining (ss_lifecycle s) \<longrightarrow>
        (\<forall>k. open_child (ss_children s) k \<longrightarrow>
           (if ss_flavor s = Ordered
            then upto_cursor k (ss_ordered_stop_cursor s) \<or> ss_ordered_stop_waiting s = Some k
            else StopChild k \<in> set es))) \<and>
     (\<forall>k. ss_ordered_stop_waiting s = Some k \<longrightarrow> StopChild k \<in> set es)"

lemma stop_frontier_idle:
  assumes "stop_frontier s es" "is_draining (ss_lifecycle s') = is_draining (ss_lifecycle s)"
    "ss_flavor s' = ss_flavor s"
    "ss_ordered_stop_cursor s' = ss_ordered_stop_cursor s"
    "ss_ordered_stop_waiting s' = ss_ordered_stop_waiting s"
    "\<And>k. is_draining (ss_lifecycle s) \<Longrightarrow> open_child (ss_children s') k \<Longrightarrow> open_child (ss_children s) k"
  shows "stop_frontier s' (es @ es')"
  using assms unfolding stop_frontier_def by (auto split: if_splits)

lemma settle_ordered_stop_cases:
  assumes "ss_flavor s = Ordered" "is_draining (ss_lifecycle s)"
    "\<forall>w. ss_ordered_stop_waiting s = Some w \<longrightarrow> \<not> open_child (ss_children s) w"
    "ordered_stop (ss_children s) (ss_ordered_stop_cursor s) = (target, cursor)"
  shows "settle_ordered_stop s =
    (case target of None \<Rightarrow> [] | Some c \<Rightarrow> [StopChild c],
     s\<lparr>ss_ordered_stop_waiting := target, ss_ordered_stop_cursor := cursor\<rparr>)"
  using assms by (auto simp: settle_ordered_stop_def is_incomplete_open split: option.splits)

lemma settle_ordered_stop_idle:
  assumes "ss_flavor s \<noteq> Ordered \<or> \<not> is_draining (ss_lifecycle s) \<or>
    (\<exists>w. ss_ordered_stop_waiting s = Some w \<and> open_child (ss_children s) w)"
  shows "settle_ordered_stop s = ([], s)"
  using assms by (auto simp: settle_ordered_stop_def is_incomplete_open)

lemma stop_frontier_settle_ordered_stop:
  assumes wf: "bt_wf (ss_children s)" and inv: "stop_frontier s es"
  shows "stop_frontier (snd (settle_ordered_stop s)) (es @ fst (settle_ordered_stop s))"
proof (cases "ss_flavor s = Ordered \<and> is_draining (ss_lifecycle s) \<and>
    (\<forall>w. ss_ordered_stop_waiting s = Some w \<longrightarrow> \<not> open_child (ss_children s) w)")
  case True
  obtain target cursor where o: "ordered_stop (ss_children s) (ss_ordered_stop_cursor s) = (target, cursor)"
    by force
  note s' = settle_ordered_stop_cases [OF True [THEN conjunct1] True [THEN conjunct2, THEN conjunct1]
      True [THEN conjunct2, THEN conjunct2] o]
  have "upto_cursor k cursor \<or> target = Some k" if k: "open_child (ss_children s) k" for k
  proof -
    have "upto_cursor k (ss_ordered_stop_cursor s)" using inv k True by (auto simp: stop_frontier_def)
    then obtain t where t: "target = Some t" "k \<le> t" using ordered_stop_greatest [OF wf k o] by blast
    then have "cursor = bt_last_before (ss_children s) t" using ordered_stop_target_spec [OF wf] o by blast
    with t k upto_last_before [OF wf, of k _ t] show ?thesis by (auto simp: open_child_def)
  qed
  with True show ?thesis unfolding s' by (simp add: stop_frontier_def)
next
  case False
  then have "settle_ordered_stop s = ([], s)" by (intro settle_ordered_stop_idle) auto
  with inv show ?thesis by simp
qed

lemma bt_last_upto:
  assumes "bt_wf m" "bt_get m k = Some r"
  shows "upto_cursor k (bt_last m)"
proof (cases "bt_last m")
  case None
  then have "m = []" by (simp add: bt_last_None)
  with assms(2) show ?thesis by simp
next
  case (Some c)
  with bt_get_SomeD [OF assms(2)] bt_last_Some [OF assms(1), of c] show ?thesis
    by (simp add: upto_cursor_def)
qed

lemma open_incomplete: "bt_wf m \<Longrightarrow> open_child m k \<longleftrightarrow> k \<in> set (incomplete_children m)"
  by (force simp: open_child_def incomplete_children_def bt_get_Some_iff)

lemma stop_frontier_drain:
  assumes wf: "bt_wf (ss_children s)" and cur: "cursor_wf s" and inv: "stop_frontier s es"
    and d: "sup_begin_drain s reason = Inr (t, es', s')"
  shows "stop_frontier s' (es @ es')"
proof -
  obtain l where l: "begin_drain (ss_lifecycle s) reason = Inr (t, l)"
      and es': "es' = (case (t, ss_flavor s) of
                (Some _, Dynamic) \<Rightarrow> map StopChild (incomplete_children (ss_children s)) | _ \<Rightarrow> [])"
      and s': "s' = s\<lparr>ss_lifecycle := l, ss_ordered_stop_cursor := (case (t, ss_flavor s) of
                    (Some _, Ordered) \<Rightarrow> bt_last (ss_children s) | _ \<Rightarrow> ss_ordered_stop_cursor s)\<rparr>"
    using d unfolding sup_begin_drain_Inr by blast
  show ?thesis
  proof (cases t)
    case None
    with begin_drain_first [OF _ l] have dr: "is_draining (ss_lifecycle s)" by blast
    show ?thesis
      by (rule stop_frontier_idle [OF inv]) (use None dr begin_drain_draining [OF l] in \<open>simp_all add: s'\<close>)
  next
    case (Some a)
    with begin_drain_again [OF _ l] have "\<not> is_draining (ss_lifecycle s)" by auto
    with cur have w: "ss_ordered_stop_waiting s = None" by (simp add: cursor_wf_def cursor_ok_def)
    have "upto_cursor k (bt_last (ss_children s))" if "open_child (ss_children s) k" for k
      using that bt_last_upto [OF wf] by (auto simp: open_child_def)
    with Some w open_incomplete [OF wf] show ?thesis
      by (cases "ss_flavor s") (auto simp: s' es' stop_frontier_def)
  qed
qed

lemma stop_frontier_step:
  assumes inv: "stop_frontier s es" "sup_inv s" and st: "sup_step s inp = Inr (out, s')"
    and late: "is_draining (ss_lifecycle s) \<Longrightarrow> \<forall>m b. inp \<noteq> InAdmit m b"
  shows "stop_frontier s' (es @ output_effects out)"
proof -
  have wf: "bt_wf (ss_children s)" and cur: "cursor_wf s"
    using inv(2) by (simp_all add: sup_inv_def sup_registry_wf_def registry_wf_def)
  show ?thesis
  proof (cases inp)
    case (InDrain r)
    then show ?thesis using st stop_frontier_drain [OF wf cur inv(1)] by (auto simp: run_bind_eq_Inr)
  next
    case InForce
    let ?s = "s\<lparr>ss_hard_forced := True\<rparr>"
    have "stop_frontier ?s es" "cursor_wf ?s" "bt_wf (ss_children ?s)"
      using inv(1) cur wf by (simp_all add: stop_frontier_def cursor_wf_def)
    moreover obtain t es1 where "sup_begin_drain ?s ShutdownRequested = Inr (t, es1, s')"
        and o: "output_effects out = es1 @ map ForceChild (incomplete_children (ss_children s'))"
      using st InForce by (auto simp: run_bind_eq_Inr sup_force_def)
    ultimately have "stop_frontier s' (es @ es1)" using stop_frontier_drain by blast
    then show ?thesis using stop_frontier_idle [of s' "es @ es1" s'] by (simp add: o)
  next
    case (InEvent ev)
    show ?thesis
    proof (cases "ev = EvSettle")
      case True
      have o: "output_effects out = fst (settle s)" "s' = snd (settle s)"
        using st unfolding InEvent True sup_step_settle by simp_all
      let ?s1 = "snd (settle_startup s)"
      have "stop_frontier ?s1 (es @ fst (settle_startup s))"
        by (rule stop_frontier_idle [OF inv(1)]) simp_all
      then have "stop_frontier (snd (settle_ordered_stop ?s1))
          ((es @ fst (settle_startup s)) @ fst (settle_ordered_stop ?s1))"
        by (rule stop_frontier_settle_ordered_stop [rotated]) (simp add: wf)
      then show ?thesis
        unfolding o settle_parts append_assoc [symmetric] fst_conv snd_conv
        by (rule stop_frontier_idle) simp_all
    next
      case False
      have "s' = snd (step s ev)" using st InEvent by (auto split: prod.splits)
      then show ?thesis
        using step_frame [OF False, of s] sup_step_open [OF st] InEvent
        by (intro stop_frontier_idle [OF inv(1)]) simp_all
    qed
  next
    case InFailStartup
    with st have "s' = snd (sup_fail_startup s)" by (auto split: prod.splits)
    then show ?thesis
      using sup_fail_startup_draining [of s] InFailStartup
      by (intro stop_frontier_idle [OF inv(1)]) (simp_all add: sup_fail_startup_def split_def)
  next
    case (InAdmit m b)
    with late have "\<not> is_draining (ss_lifecycle s)" by blast
    with st InAdmit inv(1) show ?thesis by (auto simp: run_bind_eq_Inr sup_admit_Inr stop_frontier_def)
  qed
qed

lemma stop_frontier_run:
  "sup_run flavor inputs = Inr (outs, s) \<Longrightarrow> distinct (admissions inputs) \<Longrightarrow> no_late_admission inputs \<Longrightarrow>
   stop_frontier s (trace_effects outs)"
proof (induction inputs arbitrary: outs s rule: rev_induct)
  case (snoc inp inputs)
  then obtain outs1 s1 out where r: "sup_run flavor inputs = Inr (outs1, s1)"
      and st: "sup_step s1 inp = Inr (out, s)" and o: "outs = outs1 @ [out]"
    by (auto simp: sup_run_snoc)
  have d: "distinct (admissions inputs)" using snoc.prems(2) by (simp add: admissions_append)
  have n: "no_late_admission inputs" using snoc.prems(3) by (simp add: no_late_admission_snoc)
  have "stop_frontier s1 (trace_effects outs1)" by (rule snoc.IH [OF r d n])
  moreover have "sup_inv s1" using sup_run_inv [OF r d] by blast
  moreover have "\<forall>m b. inp \<noteq> InAdmit m b" if "is_draining (ss_lifecycle s1)"
    using that draining_trace [OF r] snoc.prems(3)
    by (auto simp: no_late_admission_snoc admissions_def map_filter_simps)
  ultimately show ?case unfolding o trace_effects_snoc by (rule stop_frontier_step [OF _ _ st])
qed (auto simp: sup_run_Nil supervisor_new_def stop_frontier_def lifecycle_starting_def is_draining_def)

text \<open>
  C5: An ordered scope stops its children one at a time in reverse registration order: a settlement
  that asks a child to stop asks only that one, which has not joined, while every child registered
  after it has.
\<close>

theorem ordered_stop_reverse_order:
  assumes "sup_run Ordered inputs = Inr (outs, s)" "distinct (admissions inputs)" "no_late_admission inputs"
    "StopChild c \<in> set (fst (settle s))"
  shows "is_draining (ss_lifecycle s) \<and> is_incomplete s c \<and>
    (\<forall>c'. StopChild c' \<in> set (fst (settle s)) \<longrightarrow> c' = c) \<and>
    (\<forall>k. contains s k \<and> c < k \<longrightarrow> sup_joined s k)"
proof -
  let ?s1 = "snd (settle_startup s)"
  have fl: "ss_flavor s = Ordered" by (rule sup_run_flavor [OF assms(1)])
  have wf: "bt_wf (ss_children s)"
    using sup_run_inv [OF assms(1,2)] by (simp add: sup_inv_def sup_registry_wf_def registry_wf_def)
  have emit: "StopChild c \<in> set (fst (settle_ordered_stop ?s1))" using assms(4) by (simp add: settle_parts)
  obtain target cursor where o: "ordered_stop (ss_children s) (ss_ordered_stop_cursor s) = (target, cursor)"
    by force
  have active: "is_draining (ss_lifecycle s)" "\<forall>w. ss_ordered_stop_waiting s = Some w \<longrightarrow> \<not> open_child (ss_children s) w"
    using emit settle_ordered_stop_idle [of ?s1] fl by fastforce+
  have es: "fst (settle_ordered_stop ?s1) = (case target of None \<Rightarrow> [] | Some c \<Rightarrow> [StopChild c])"
    using settle_ordered_stop_cases [of s target cursor] fl active o by simp
  with emit have t: "target = Some c" by (auto split: option.splits)
  have open_c: "open_child (ss_children s) c" using ordered_stop_target_spec [OF wf] o t by blast
  have "sup_joined s k" if k: "contains s k" "c < k" for k
  proof (rule ccontr)
    assume "\<not> sup_joined s k"
    with k have ok: "open_child (ss_children s) k" by (simp add: is_incomplete_open [symmetric] is_incomplete_def)
    with stop_frontier_run [OF assms(1-3)] active fl have "upto_cursor k (ss_ordered_stop_cursor s)"
      by (auto simp: stop_frontier_def)
    with ordered_stop_greatest [OF wf ok o] t k(2) show False by auto
  qed
  with active(1) open_c es t show ?thesis by (auto simp: is_incomplete_open settle_parts)
qed

lemma demo_no_late: "no_late_admission demo_drain" "no_late_admission demo_stop"
  by (simp_all add: demo_defs admissions_def map_filter_simps)

theorem ordered_stop_reverse_order_witness:
  "\<exists>outs s. sup_run Ordered demo_stop = Inr (outs, s) \<and> StopChild (ChildKey 1) \<in> set (fst (settle s)) \<and>
     (\<forall>k. contains s k \<and> ChildKey 1 < k \<longrightarrow> sup_joined s k)"
proof -
  obtain outs s where r: "sup_run Ordered demo_stop = Inr (outs, s)"
      and f: "StopChild (ChildKey 1) \<in> set (fst (settle s))"
    using demo_checkD [OF demo_stop_run] by blast
  with ordered_stop_reverse_order [OF r demo_admissions(4) demo_no_late(2) f] show ?thesis by blast
qed

lemma all_joined_open:
  "bt_wf (ss_children s) \<Longrightarrow> all_children_joined s \<longleftrightarrow> (\<forall>k. \<not> open_child (ss_children s) k)"
  by (auto simp: all_children_joined_def set_bt_values open_child_def)

lemma settle_drained_finishes:
  assumes "is_draining (ss_lifecycle s)" "all_children_joined s"
  shows "ss_finish_emitted (snd (settle s))"
  using assms
  by (auto simp: settle_parts settle_finish_def finish_if_ready_def draining_reason_def is_draining_def
      split: option.splits scope_lifecycle_state.splits)

lemma settle_waits:
  assumes wf: "bt_wf (ss_children s)" and fl: "ss_flavor s = Ordered" and dr: "is_draining (ss_lifecycle s)"
    and k: "open_child (ss_children s) k" and front: "stop_frontier s es"
  shows "\<exists>w. ss_ordered_stop_waiting (snd (settle s)) = Some w \<and> open_child (ss_children s) w"
proof (cases "\<exists>w. ss_ordered_stop_waiting s = Some w \<and> open_child (ss_children s) w")
  case True
  with settle_ordered_stop_idle [of s] dr show ?thesis by (simp add: settle_parts)
next
  case False
  obtain target cursor where o: "ordered_stop (ss_children s) (ss_ordered_stop_cursor s) = (target, cursor)"
    by force
  have "upto_cursor k (ss_ordered_stop_cursor s)" using front fl dr k False by (auto simp: stop_frontier_def)
  then obtain t where "target = Some t" using ordered_stop_greatest [OF wf k o] by blast
  moreover have "open_child (ss_children s) t" using ordered_stop_target_spec [OF wf] o calculation by blast
  moreover have "settle_ordered_stop s = (case target of None \<Rightarrow> [] | Some c \<Rightarrow> [StopChild c],
     s\<lparr>ss_ordered_stop_waiting := target, ss_ordered_stop_cursor := cursor\<rparr>)"
    by (rule settle_ordered_stop_cases [OF fl dr _ o]) (use False in blast)
  ultimately show ?thesis using dr by (simp add: settle_parts)
qed

text \<open>
  C4: A drain never gets stuck. After any settlement of a draining scope of either flavor, the scope has
  finished, or some registered child that has not joined has been asked to stop. So a drain whose
  stop requests are all answered by the children joining has finished.
\<close>

theorem drain_never_stuck:
  assumes "sup_run flavor inputs = Inr (outs, s)" "distinct (admissions inputs)" "no_late_admission inputs"
    "is_draining (ss_lifecycle s)" "sup_step s (InEvent EvSettle) = Inr (out, s')"
  shows "(\<exists>r. FinishedWith r \<in> set (trace_effects (outs @ [out]))) \<or>
    (\<exists>k. is_incomplete s' k \<and> StopChild k \<in> set (trace_effects (outs @ [out])))"
proof -
  let ?ins = "inputs @ [InEvent EvSettle]"
  have r: "sup_run flavor ?ins = Inr (outs @ [out], s')"
    using assms(1,5) unfolding sup_run_snoc by blast
  have d: "distinct (admissions ?ins)" "no_late_admission ?ins"
    using assms(2,3)
    by (simp_all add: no_late_admission_snoc admissions_append)
      (simp_all add: admissions_def map_filter_simps)
  have s': "s' = snd (settle s)" using assms(5) unfolding sup_step_settle by blast
  have wf: "bt_wf (ss_children s)"
    using sup_run_inv [OF assms(1,2)] by (simp add: sup_inv_def sup_registry_wf_def registry_wf_def)
  note front = stop_frontier_run [OF r d]
  show ?thesis
  proof (cases "all_children_joined s")
    case True
    then have "ss_finish_emitted s'" unfolding s' by (rule settle_drained_finishes [OF assms(4)])
    then show ?thesis using finish_flag_trace [OF r] by blast
  next
    case False
    then obtain k where k: "open_child (ss_children s) k" by (auto simp: all_joined_open [OF wf])
    show ?thesis
    proof (cases flavor)
      case Dynamic
      with front k assms(4) sup_run_flavor [OF r] show ?thesis
        by (auto simp: stop_frontier_def s' is_incomplete_open)
    next
      case Ordered
      obtain w where w: "ss_ordered_stop_waiting s' = Some w" "open_child (ss_children s) w"
        using settle_waits [OF wf _ assms(4) k, of "trace_effects outs"] stop_frontier_run [OF assms(1-3)] sup_run_flavor [OF assms(1)] Ordered
        unfolding s' by blast
      with front show ?thesis by (auto simp: stop_frontier_def s' is_incomplete_open)
    qed
  qed
qed

theorem drain_never_stuck_witness:
  "\<exists>outs s out s'. sup_run Ordered demo_drain = Inr (outs, s) \<and>
     sup_step s (InEvent EvSettle) = Inr (out, s') \<and>
     ((\<exists>r. FinishedWith r \<in> set (trace_effects (outs @ [out]))) \<or>
      (\<exists>k. is_incomplete s' k \<and> StopChild k \<in> set (trace_effects (outs @ [out]))))"
proof -
  obtain outs s where r: "sup_run Ordered demo_drain = Inr (outs, s)" and d: "is_draining (ss_lifecycle s)"
    using demo_checkD [OF demo_drain_run] by blast
  have st: "sup_step s (InEvent EvSettle) = Inr (OutEvent (fst (settle s)), snd (settle s))"
    unfolding sup_step_settle by blast
  from drain_never_stuck [OF r demo_admissions(3) demo_no_late(1) d st] r st show ?thesis by blast
qed

section \<open>Starting in order\<close>

definition ready_events :: "sup_input list \<Rightarrow> child_key set" where
  "ready_events inputs = {k. InEvent (EvReady k) \<in> set inputs}"

text \<open>What startup knows of one child: whether it was spawned, and its readiness.\<close>

definition startup_view :: "supervisor_state \<Rightarrow> child_key \<Rightarrow> (bool \<times> startup_membership) option" where
  "startup_view s k = map_option (\<lambda>r. (cr_spawned_once r, cr_startup r)) (bt_get (ss_children s) k)"

lemma startup_view_modify:
  "(\<And>r. cr_spawned_once (f r) = cr_spawned_once r \<and> cr_startup (f r) = cr_startup r) \<Longrightarrow>
   startup_view (modify_child c f s) k = startup_view s k"
  by (cases "bt_get (ss_children s) k") (auto simp: startup_view_def modify_child_def)

lemma startup_view_transition [simp]:
  "startup_view (snd (transition_incarnation s c xs i)) k = startup_view s k"
  by (auto simp: transition_incarnation_def startup_view_modify split: option.splits)

text \<open>How one event may change it.\<close>

definition startup_move :: "event \<Rightarrow> child_key \<Rightarrow> bool \<times> startup_membership \<Rightarrow> bool \<times> startup_membership \<Rightarrow> bool" where
  "startup_move ev k v v' \<longleftrightarrow>
     (fst v \<longrightarrow> fst v') \<and>
     ((snd v = Runtime) = (snd v' = Runtime)) \<and>
     (snd v' = Initial True \<longrightarrow> snd v = Initial True \<or> ev = EvReady k)"

lemma startup_move_refl [simp]: "startup_move ev k v v"
  by (simp add: startup_move_def)

lemma startup_view_set_ready:
  "startup_view s k = Some v \<Longrightarrow> startup_view (modify_child c (set_ready b) s) k =
     Some (if k = c \<and> snd v \<noteq> Runtime then (fst v, Initial b) else v)"
  by (cases "bt_get (ss_children s) k"; cases "snd v")
    (auto simp: startup_view_def modify_child_def set_ready_def)

lemma step_startup_move:
  assumes "startup_view s k = Some v" "startup_view (snd (step s ev)) k = Some v'"
  shows "startup_move ev k v v'"
proof (cases ev)
  case (EvSpawned c)
  with assms show ?thesis
    by (auto simp: step_def apply_spawned_def startup_view_def modify_child_def startup_move_def
        split: option.splits if_splits)
next
  case (EvReady c)
  with assms startup_view_set_ready [OF assms(1), of c True] show ?thesis
    by (auto simp: step_def apply_ready_def startup_move_def split: option.splits if_splits)
next
  case (EvRestartPending c)
  have "startup_view (snd (transition_incarnation s c [InComplete] InRestartPending)) k = Some v"
    using assms(1) by simp
  note m = startup_view_set_ready [OF this, of c False]
  show ?thesis
    using assms m EvRestartPending
    by (auto simp: step_def apply_restart_pending_def startup_move_def split_def split: if_splits)
next
  case (EvReclaim c)
  with assms show ?thesis
    by (auto simp: step_def apply_reclaim_def startup_view_def Let_def split: option.splits if_splits)
next
  case EvSettle
  with assms show ?thesis by (auto simp: step_def startup_view_def)
next
  case (EvTerminalized c)
  with assms show ?thesis by (simp add: step_def apply_terminalized_def split_def)
qed (use assms in \<open>auto simp: step_def apply_removal_latched_def sample_removal_def startup_view_modify
      split: option.splits child_state.splits\<close>)

lemma step_startup_view_none: "startup_view s k = None \<Longrightarrow> startup_view (snd (step s ev)) k = None"
  using step_view [of s ev k] by (cases "child_state_of s k") (auto simp: startup_view_def child_state_of_def)

text \<open>
  Every initial child behind the startup cursor was spawned and was ready at some moment; a child
  that is ready now was reported ready.
\<close>

definition started_child :: "child_key \<Rightarrow> child_key set \<Rightarrow> bool \<times> startup_membership \<Rightarrow> bool" where
  "started_child k ready v \<longleftrightarrow> snd v = Runtime \<or> fst v \<and> k \<in> ready"

definition start_frontier :: "supervisor_state \<Rightarrow> child_key set \<Rightarrow> bool" where
  "start_frontier s ready \<longleftrightarrow>
     (\<forall>k v. startup_view s k = Some v \<longrightarrow>
        (before_cursor k (ss_next_ordered_start s) \<longrightarrow> started_child k ready v) \<and>
        (snd v = Initial True \<longrightarrow> k \<in> ready))"

lemma start_frontier_move:
  assumes inv: "start_frontier s ready" and sub: "ready \<subseteq> ready'"
    and cur: "ss_next_ordered_start s' = ss_next_ordered_start s"
    and view: "\<And>k v'. startup_view s' k = Some v' \<Longrightarrow>
      \<exists>v. startup_view s k = Some v \<and> startup_move ev k v v'"
    and ready: "\<And>k. ev = EvReady k \<Longrightarrow> k \<in> ready'"
  shows "start_frontier s' ready'"
  unfolding start_frontier_def
proof (intro allI impI)
  fix k v' assume v': "startup_view s' k = Some v'"
  then obtain v where v: "startup_view s k = Some v" "startup_move ev k v v'" using view by blast
  have "before_cursor k (ss_next_ordered_start s) \<longrightarrow> started_child k ready v"
      "snd v = Initial True \<longrightarrow> k \<in> ready"
    using inv v(1) unfolding start_frontier_def by blast+
  with v(2) sub cur ready [of k]
  show "(before_cursor k (ss_next_ordered_start s') \<longrightarrow> started_child k ready' v') \<and>
      (snd v' = Initial True \<longrightarrow> k \<in> ready')"
    by (auto simp: startup_move_def started_child_def)
qed

lemma start_frontier_same:
  assumes "start_frontier s ready" "ss_next_ordered_start s' = ss_next_ordered_start s"
    "ss_children s' = ss_children s" "ready \<subseteq> ready'"
  shows "start_frontier s' ready'"
proof (rule start_frontier_move [OF assms(1,4,2), where ev = EvSettle])
  fix k v' assume "startup_view s' k = Some v'"
  then have "startup_view s k = Some v'" using assms(3) by (simp add: startup_view_def)
  then show "\<exists>v. startup_view s k = Some v \<and> startup_move EvSettle k v v'" by (intro exI [of _ v']) simp
qed simp

lemma start_frontier_settle:
  assumes wf: "bt_wf (ss_children s)" and inv: "start_frontier s ready"
    and fl: "ss_flavor s = Ordered"
  shows "start_frontier (snd (settle_startup s)) ready"
proof (cases "is_starting (ss_lifecycle s)")
  case True
  obtain fin es c where o: "ordered_start (ss_children s) (ss_next_ordered_start s) = (fin, es, c)"
    by (cases "ordered_start (ss_children s) (ss_next_ordered_start s)") auto
  have next_start: "ss_next_ordered_start (snd (settle_startup s)) = c"
    using True fl by (simp add: settle_startup_def o Let_def split_def)
  have "(before_cursor k c \<longrightarrow> started_child k ready v) \<and> (snd v = Initial True \<longrightarrow> k \<in> ready)"
    if v: "startup_view s k = Some v" for k v
  proof -
    obtain r where r: "bt_get (ss_children s) k = Some r" "v = (cr_spawned_once r, cr_startup r)"
      using v by (auto simp: startup_view_def)
    have old: "before_cursor k (ss_next_ordered_start s) \<longrightarrow> started_child k ready v"
        "snd v = Initial True \<longrightarrow> k \<in> ready"
      using inv v unfolding start_frontier_def by blast+
    have "started_child k ready v" if "before_cursor k c" "\<not> before_cursor k (ss_next_ordered_start s)"
      using ordered_start_passed [OF wf r(1) o that(2,1)] old(2)
      by (cases "cr_startup r") (auto simp: r(2) start_passed_def started_child_def)
    with old show ?thesis by blast
  qed
  then show ?thesis unfolding start_frontier_def next_start by (simp add: startup_view_def)
qed (use inv in \<open>simp add: settle_startup_def\<close>)

definition start_bounded :: "supervisor_state \<Rightarrow> bool" where
  "start_bounded s \<longleftrightarrow>
     (\<forall>c. ss_next_ordered_start s = Some c \<longrightarrow> child_key_get c \<le> counter_current (ss_keys s))"

lemma settle_next_start [simp]:
  "ss_next_ordered_start (snd (settle s)) = ss_next_ordered_start (snd (settle_startup s))"
  "ss_keys (snd (settle s)) = ss_keys s"
  by (simp_all add: settle_parts)

lemma start_bounded_settle:
  assumes "start_bounded s" "keys_bounded s"
  shows "start_bounded (snd (settle s))"
proof -
  obtain fin es c where o: "ordered_start (ss_children s) (ss_next_ordered_start s) = (fin, es, c)"
    by (cases "ordered_start (ss_children s) (ss_next_ordered_start s)") auto
  have "child_key_get k \<le> counter_current (ss_keys s)" if "c = Some k" for k
    using ordered_start_end [OF o] that assms(2)
    by (auto simp: start_gate_def keys_bounded_def child_state_of_def split: option.splits)
  then show ?thesis
    using assms(1) by (auto simp: start_bounded_def settle_startup_def o Let_def split_def
        split: scope_flavor.splits)
qed

lemma start_bounded_step:
  assumes "start_bounded s" "keys_bounded s" "sup_step s inp = Inr (out, s')"
  shows "start_bounded s'"
proof (cases inp)
  case (InEvent ev)
  then have s': "s' = snd (step s ev)" using assms(3) by (auto split: prod.splits)
  show ?thesis
  proof (cases "ev = EvSettle")
    case True
    then show ?thesis using start_bounded_settle [OF assms(1,2)] by (simp add: s' step_def)
  next
    case False
    then show ?thesis using assms(1) by (simp add: s' start_bounded_def step_frame step_keys)
  qed
next
  case (InAdmit m b)
  then show ?thesis
    using assms(1,3) by (auto simp: run_bind_eq_Inr sup_admit_Inr start_bounded_def
        dest!: counter_successor_less split: if_splits)
qed (use assms in \<open>auto simp: run_bind_eq_Inr sup_fail_startup_def start_bounded_def
      dest!: sup_begin_drain_frame sup_force_frame split: prod.splits\<close>)

lemma start_frontier_admit:
  assumes inv: "start_frontier s ready" "start_bounded s" and fl: "ss_flavor s = Ordered"
    and admit: "sup_admit s m initial = Inr (k0, s')"
  shows "start_frontier s' ready"
  unfolding start_frontier_def
proof (intro allI impI)
  fix k v assume v: "startup_view s' k = Some v"
  obtain n where n: "counter_successor (counter_current (ss_keys s)) = Inr n" "k0 = ChildKey n"
      and nx: "ss_next_ordered_start s' = (if initial \<and> ss_next_ordered_start s = None then Some k0
        else ss_next_ordered_start s)"
      and vw: "startup_view s' k = (if k = k0 then Some (False, if initial then Initial False else Runtime)
        else startup_view s k)"
    using admit fl by (auto simp: sup_admit_Inr startup_view_def)
  have new: "\<not> before_cursor k0 (ss_next_ordered_start s')" if initial
    using that nx inv(2) counter_successor_less [OF n(1)] n(2)
    by (auto simp: before_cursor_def start_bounded_def less_child_key_def split: option.splits if_splits)
  show "(before_cursor k (ss_next_ordered_start s') \<longrightarrow> started_child k ready v) \<and>
      (snd v = Initial True \<longrightarrow> k \<in> ready)"
  proof (cases "k = k0")
    case True
    with v vw new show ?thesis by (auto simp: started_child_def split: if_splits)
  next
    case False
    with v vw have "startup_view s k = Some v" by simp
    moreover have "before_cursor k (ss_next_ordered_start s)" if "before_cursor k (ss_next_ordered_start s')"
      using that nx by (auto simp: before_cursor_def split: if_splits)
    ultimately show ?thesis using inv(1) unfolding start_frontier_def by blast
  qed
qed

lemma start_frontier_step:
  assumes inv: "start_frontier s ready" "start_bounded s" "sup_inv s" and fl: "ss_flavor s = Ordered"
    and st: "sup_step s inp = Inr (out, s')"
  shows "start_frontier s' (ready \<union> ready_events [inp])"
proof (cases inp)
  case (InEvent ev)
  then have s': "s' = snd (step s ev)" using st by (auto split: prod.splits)
  show ?thesis
  proof (cases "ev = EvSettle")
    case True
    have "bt_wf (ss_children s)" using inv(3) by (simp add: sup_inv_def sup_registry_wf_def registry_wf_def)
    from start_frontier_settle [OF this inv(1) fl] show ?thesis
      by (rule start_frontier_same) (simp_all add: s' True step_def)
  next
    case False
    show ?thesis
    proof (rule start_frontier_move [OF inv(1)])
      fix k v' assume v': "startup_view s' k = Some v'"
      then obtain v where "startup_view s k = Some v"
        using step_startup_view_none [of s k ev] by (cases "startup_view s k") (simp_all add: s')
      with step_startup_move v' show "\<exists>v. startup_view s k = Some v \<and> startup_move ev k v v'"
        by (auto simp: s')
    qed (use False in \<open>simp_all add: s' step_frame ready_events_def InEvent\<close>)
  qed
next
  case (InAdmit m b)
  then obtain k0 where "sup_admit s m b = Inr (k0, s')" using st by (auto simp: run_bind_eq_Inr)
  from start_frontier_admit [OF inv(1,2) fl this] show ?thesis by (simp add: ready_events_def InAdmit)
qed (rule start_frontier_same [OF inv(1)], use st in \<open>auto simp: run_bind_eq_Inr sup_fail_startup_def
      dest!: sup_begin_drain_frame sup_force_frame split: prod.splits\<close>)+

lemma start_frontier_run:
  "sup_run Ordered inputs = Inr (outs, s) \<Longrightarrow> distinct (admissions inputs) \<Longrightarrow>
   start_frontier s (ready_events inputs) \<and> start_bounded s"
proof (induction inputs arbitrary: outs s rule: rev_induct)
  case (snoc inp inputs)
  then obtain outs1 s1 out where r: "sup_run Ordered inputs = Inr (outs1, s1)"
      and st: "sup_step s1 inp = Inr (out, s)" and o: "outs = outs1 @ [out]"
    by (auto simp: sup_run_snoc)
  have d: "distinct (admissions inputs)" using snoc.prems(2) by (simp add: admissions_append)
  note ih = snoc.IH [OF r d] and inv = sup_run_inv [OF r d]
  have "ready_events (inputs @ [inp]) = ready_events inputs \<union> ready_events [inp]"
    by (auto simp: ready_events_def)
  with start_frontier_step [OF _ _ _ _ st] start_bounded_step [OF _ _ st] ih inv show ?case
    by (simp add: sup_inv_def)
qed (auto simp: sup_run_Nil supervisor_new_def start_frontier_def start_bounded_def startup_view_def)

text \<open>
  C18: An ordered scope starts its initial children one at a time in registration order: a settlement
  that starts a child starts only that one, which was never spawned and may be spawned now, and
  every initial child registered before it was spawned and was reported ready.
\<close>

theorem ordered_startup_order:
  assumes "sup_run Ordered inputs = Inr (outs, s)" "distinct (admissions inputs)"
    "StartChild c \<in> set (fst (settle s))"
  shows "is_starting (ss_lifecycle s) \<and>
    (\<forall>c'. StartChild c' \<in> set (fst (settle s)) \<longrightarrow> c' = c) \<and>
    (\<exists>r. bt_get (ss_children s) c = Some r \<and> startable r \<and> \<not> cr_spawned_once r) \<and>
    (\<forall>k. is_initial s k \<and> k < c \<longrightarrow> spawned_once s k \<and> InEvent (EvReady k) \<in> set inputs)"
proof -
  obtain fin es cur where o: "ordered_start (ss_children s) (ss_next_ordered_start s) = (fin, es, cur)"
    by (cases "ordered_start (ss_children s) (ss_next_ordered_start s)") auto
  have fl: "ss_flavor s = Ordered" by (rule sup_run_flavor [OF assms(1)])
  have "StartChild c \<in> set (fst (settle_startup s))" using assms(3) by (simp add: settle_parts)
  then have starting: "is_starting (ss_lifecycle s)" and c: "StartChild c \<in> set es"
    using fl by (auto simp: settle_startup_def o try_complete_startup_effects Let_def split_def split: if_splits)
  have es: "cur = Some c" "es = [StartChild c]"
      and r: "\<exists>r. bt_get (ss_children s) c = Some r \<and> startable r \<and> \<not> cr_spawned_once r"
    using ordered_start_effects [OF o] c by (auto split: option.splits if_splits)
  have only: "c' = c" if "StartChild c' \<in> set (fst (settle s))" for c'
    using that fl starting es
    by (auto simp: settle_parts settle_startup_def o try_complete_startup_effects Let_def split_def split: if_splits)
  let ?s1 = "snd (settle_startup s)"
  have wf: "bt_wf (ss_children s)"
    using sup_run_inv [OF assms(1,2)] by (simp add: sup_inv_def sup_registry_wf_def registry_wf_def)
  have fr: "start_frontier ?s1 (ready_events inputs)"
    using start_frontier_settle [OF wf _ fl] start_frontier_run [OF assms(1,2)] by blast
  have nx: "ss_next_ordered_start ?s1 = Some c"
    using starting fl es by (simp add: settle_startup_def o Let_def split_def)
  have "spawned_once s k \<and> InEvent (EvReady k) \<in> set inputs" if k: "is_initial s k" "k < c" for k
  proof -
    obtain r b where kr: "bt_get (ss_children s) k = Some r" "cr_startup r = Initial b"
      using k(1) by (auto simp: is_initial_def split: option.splits startup_membership.splits)
    then have "startup_view ?s1 k = Some (cr_spawned_once r, Initial b)" by (simp add: startup_view_def)
    with fr nx k(2) have "started_child k (ready_events inputs) (cr_spawned_once r, Initial b)"
      unfolding start_frontier_def by (simp add: before_cursor_def)
    with kr show ?thesis by (simp add: started_child_def spawned_once_def ready_events_def)
  qed
  with starting only r show ?thesis by blast
qed

theorem ordered_startup_order_witness:
  "\<exists>outs s. sup_run Ordered demo_start = Inr (outs, s) \<and> StartChild (ChildKey 2) \<in> set (fst (settle s)) \<and>
     (\<forall>k. is_initial s k \<and> k < ChildKey 2 \<longrightarrow> spawned_once s k \<and> InEvent (EvReady k) \<in> set demo_start)"
proof -
  obtain outs s where r: "sup_run Ordered demo_start = Inr (outs, s)"
      and f: "StartChild (ChildKey 2) \<in> set (fst (settle s))"
    using demo_checkD [OF demo_start_run] by blast
  with ordered_startup_order [OF r demo_admissions(1) f] show ?thesis by blast
qed

section \<open>Settlement reaches a fixed point\<close>

lemma settle_ordered_stop_again:
  assumes "bt_wf (ss_children s)"
  shows "fst (settle_ordered_stop (snd (settle_ordered_stop s))) = []"
proof (cases "ss_flavor s = Ordered \<and> is_draining (ss_lifecycle s) \<and>
    (\<forall>w. ss_ordered_stop_waiting s = Some w \<longrightarrow> \<not> open_child (ss_children s) w)")
  case True
  obtain target cursor where o: "ordered_stop (ss_children s) (ss_ordered_stop_cursor s) = (target, cursor)"
    by force
  have s': "snd (settle_ordered_stop s) = s\<lparr>ss_ordered_stop_waiting := target, ss_ordered_stop_cursor := cursor\<rparr>"
    using settle_ordered_stop_cases [of s target cursor] True o by simp
  show ?thesis
  proof (cases target)
    case None
    with o ordered_stop_none have "cursor = None" by blast
    with None s' True show ?thesis by (simp add: settle_ordered_stop_def)
  next
    case (Some t)
    with o ordered_stop_target_spec [OF assms] have "open_child (ss_children s) t" by blast
    with Some s' show ?thesis by (subst settle_ordered_stop_idle) auto
  qed
next
  case False
  then have "settle_ordered_stop s = ([], s)" by (intro settle_ordered_stop_idle) auto
  then show ?thesis by simp
qed

lemma settle_startup_again:
  assumes "\<forall>c. StartChild c \<notin> set (fst (settle_startup s))" "ss_children s' = ss_children s"
    "ss_flavor s' = ss_flavor s" "ss_lifecycle s' = ss_lifecycle (snd (settle_startup s))"
    "ss_next_ordered_start s' = ss_next_ordered_start (snd (settle_startup s))"
  shows "settle_startup s' = ([], s')"
proof (cases "is_starting (ss_lifecycle s')")
  case True
  then have start: "is_starting (ss_lifecycle s)"
      and nc: "StartupCompleted Scope_Running \<notin> set (fst (settle_startup s))"
    unfolding assms(4) is_starting_settle_startup by blast+
  have none: "fst (settle_startup s) = []"
    using nc assms(1) settle_startup_range [of s] by (cases "fst (settle_startup s)") auto
  show ?thesis
  proof (cases "ss_flavor s")
    case Dynamic
    with none start have "dynamic_starts (ss_children s) = []" "\<not> none_pending (ss_children s)"
      by (auto simp: settle_startup_def try_complete_startup_effects Let_def split_def split: if_splits)
    with Dynamic True assms(2,3) show ?thesis by (simp add: settle_startup_def try_complete_startup_def)
  next
    case Ordered
    obtain fin es c where o: "ordered_start (ss_children s) (ss_next_ordered_start s) = (fin, es, c)"
      by (cases "ordered_start (ss_children s) (ss_next_ordered_start s)") auto
    have "es = []" "fin \<longrightarrow> \<not> none_pending (ss_children s)"
      using none start Ordered
      by (auto simp: settle_startup_def o try_complete_startup_effects Let_def split_def split: if_splits)
    moreover have "ss_next_ordered_start s' = c"
      using assms(5) start Ordered by (simp add: settle_startup_def o Let_def split_def)
    ultimately show ?thesis
      using True Ordered assms(2,3) ordered_start_idem [OF o]
      by (auto simp: settle_startup_def try_complete_startup_def Let_def)
  qed
qed (simp add: settle_startup_def)

lemma settle_finish_again:
  assumes "ss_finish_emitted s' = ss_finish_emitted (snd (settle_finish s))" "ss_lifecycle s' = ss_lifecycle s"
    "ss_flavor s' = ss_flavor s" "ss_children s' = ss_children s"
  shows "fst (settle_finish s') = []"
  using assms by (auto simp: settle_finish_def all_children_joined_def split: option.splits)

lemma settle_ordered_stop_cong:
  assumes "ss_children s' = ss_children s" "ss_flavor s' = ss_flavor s" "ss_lifecycle s' = ss_lifecycle s"
    "ss_ordered_stop_cursor s' = ss_ordered_stop_cursor s" "ss_ordered_stop_waiting s' = ss_ordered_stop_waiting s"
  shows "fst (settle_ordered_stop s') = fst (settle_ordered_stop s)"
proof -
  have "is_incomplete s' = is_incomplete s" using assms(1) by (simp add: fun_eq_iff is_incomplete_open)
  with assms show ?thesis
    by (cases "ss_ordered_stop_waiting s") (simp_all add: settle_ordered_stop_def split_def)
qed

lemma settle_keeps [simp]:
  "ss_flavor (snd (settle s)) = ss_flavor s"
  "ss_lifecycle (snd (settle s)) = ss_lifecycle (snd (settle_startup s))"
  "ss_ordered_stop_cursor (snd (settle s)) = ss_ordered_stop_cursor (snd (settle_ordered_stop (snd (settle_startup s))))"
  "ss_ordered_stop_waiting (snd (settle s)) = ss_ordered_stop_waiting (snd (settle_ordered_stop (snd (settle_startup s))))"
  "ss_finish_emitted (snd (settle s)) =
     ss_finish_emitted (snd (settle_finish (snd (settle_ordered_stop (snd (settle_startup s))))))"
  by (simp_all add: settle_parts)

lemma settle_no_start_again:
  assumes wf: "bt_wf (ss_children s)" and ns: "\<forall>c. StartChild c \<notin> set (fst (settle s))"
  shows "fst (settle (snd (settle s))) = []"
proof -
  let ?s1 = "snd (settle_startup s)" and ?s' = "snd (settle s)"
  have "settle_startup ?s' = ([], ?s')"
    by (rule settle_startup_again [of s]) (use ns in \<open>simp_all add: settle_parts\<close>)
  moreover have stop: "fst (settle_ordered_stop ?s') = []"
    using settle_ordered_stop_again [of ?s1] wf
      settle_ordered_stop_cong [of ?s' "snd (settle_ordered_stop ?s1)"] by simp
  moreover have "fst (settle_finish (snd (settle_ordered_stop ?s'))) = []"
    by (rule settle_finish_again [of _ "snd (settle_ordered_stop ?s1)"]) simp_all
  ultimately show ?thesis by (simp add: settle_parts [of ?s'])
qed

lemma settle_start_again:
  assumes fl: "ss_flavor s = Ordered" and c: "StartChild c \<in> set (fst (settle s))"
  shows "fst (settle (snd (settle s))) = [StartChild c]"
proof -
  let ?s' = "snd (settle s)"
  obtain fin es cur where o: "ordered_start (ss_children s) (ss_next_ordered_start s) = (fin, es, cur)"
    by (cases "ordered_start (ss_children s) (ss_next_ordered_start s)") auto
  have "StartChild c \<in> set (fst (settle_startup s))" using c by (simp add: settle_parts)
  then have start: "is_starting (ss_lifecycle s)" and ces: "StartChild c \<in> set es"
    using fl by (auto simp: settle_startup_def o try_complete_startup_effects Let_def split_def split: if_splits)
  then have es: "cur = Some c" "es = [StartChild c]"
    using ordered_start_effects [OF o] by (auto split: option.splits if_splits)
  then have s1: "settle_startup s = ([StartChild c], s\<lparr>ss_next_ordered_start := Some c\<rparr>)"
    using start fl ordered_start_end [OF o] by (simp add: settle_startup_def o Let_def)
  have o': "ordered_start (ss_children s) (Some c) = (False, [StartChild c], Some c)"
    using ordered_start_idem [OF o] ordered_start_end [OF o] es by simp
  have "settle_startup ?s' = ([StartChild c], ?s'\<lparr>ss_next_ordered_start := Some c\<rparr>)"
    using start fl o' by (simp add: settle_startup_def [of ?s'] s1 Let_def)
  moreover have "\<not> is_draining (ss_lifecycle s)" "draining_reason (ss_lifecycle s) = None"
      "\<not> startup_complete (ss_lifecycle s)"
    using start by (simp_all add: is_starting_def is_draining_def draining_reason_def startup_complete_def)
  ultimately show ?thesis
    by (simp add: settle_parts [of ?s'] settle_ordered_stop_idle settle_finish_def finish_if_ready_def s1)
qed

text \<open>
  C36: Settlement reaches a fixed point. If it asks for no child start, an immediately repeated
  settlement emits nothing. If it asks for one in an ordered scope, the repeated settlement asks
  for exactly the same start again until the spawn is reported.
\<close>

theorem settle_stable:
  assumes "bt_wf (ss_children s)"
  shows "((\<forall>c. StartChild c \<notin> set (fst (settle s))) \<longrightarrow> fst (settle (snd (settle s))) = []) \<and>
    (ss_flavor s = Ordered \<and> StartChild c \<in> set (fst (settle s)) \<longrightarrow>
       fst (settle (snd (settle s))) = [StartChild c])"
  using settle_no_start_again [OF assms] settle_start_again [of s c] by blast

theorem settle_stable_witness:
  "\<exists>outs s. sup_run Ordered demo_start = Inr (outs, s) \<and> fst (settle (snd (settle s))) = [StartChild (ChildKey 2)]"
proof -
  obtain outs s where r: "sup_run Ordered demo_start = Inr (outs, s)"
      and f: "StartChild (ChildKey 2) \<in> set (fst (settle s))"
    using demo_checkD [OF demo_start_run] by blast
  have "bt_wf (ss_children s)"
    using sup_run_inv [OF r demo_admissions(1)] by (simp add: sup_inv_def sup_registry_wf_def registry_wf_def)
  from settle_stable [OF this, of "ChildKey 2"] f sup_run_flavor [OF r] r show ?thesis by blast
qed

section \<open>The life of a registration\<close>

lemma sup_run_keys_bounded: "sup_run flavor inputs = Inr (outs, s) \<Longrightarrow> keys_bounded s"
proof (induction inputs arbitrary: outs s rule: rev_induct)
  case (snoc inp inputs)
  then show ?case by (auto simp: sup_run_snoc dest: keys_bounded_step)
qed (auto simp: sup_run_Nil keys_bounded_new)

lemma event_view_None: "event_view ev k st = None \<Longrightarrow> ev = EvReclaim k \<and> state_joined st"
  by (cases ev) (auto simp: event_view_def split: if_splits)

text \<open>
  C8: Every registration moves only along the permitted edges: between two moments of a run a child
  that stays registered has moved along the incarnation cycle and the one-way removal latch, a
  child that has gone was reclaimed at a moment at which it had moved along those edges into the joined
  incarnation, and a joined child never leaves the joined incarnation.
\<close>

theorem registration_life:
  assumes "sup_run flavor inputs = Inr (outs, s)" "run_ops sup_step s inputs' = Inr (outs', s')"
    "child_state_of s k = Some st"
  shows "case child_state_of s' k of
       Some st' \<Rightarrow> child_edge\<^sup>*\<^sup>* st st' \<and> (state_joined st \<longrightarrow> state_joined st')
     | None \<Rightarrow> \<exists>pre post outs1 s1 st1. inputs' = pre @ InEvent (EvReclaim k) # post \<and>
         run_ops sup_step s pre = Inr (outs1, s1) \<and> child_state_of s1 k = Some st1 \<and>
         child_edge\<^sup>*\<^sup>* st st1 \<and> state_joined st1"
  (is "case _ of Some st' \<Rightarrow> ?kept st' | None \<Rightarrow> ?gone inputs'")
proof -
  have "(\<forall>st'. child_state_of s' k = Some st' \<longrightarrow> ?kept st') \<and> (child_state_of s' k = None \<longrightarrow> ?gone inputs')"
    using assms(2)
  proof (induction inputs' arbitrary: outs' s' rule: rev_induct)
    case Nil
    with assms(3) show ?case by simp
  next
    case (snoc inp inputs')
    then obtain outs1 s1 out where r: "run_ops sup_step s inputs' = Inr (outs1, s1)"
        and st: "sup_step s1 inp = Inr (out, s')" by (auto simp: run_ops_snoc)
    have "child_key_get k \<le> counter_current (ss_keys s)"
      using sup_run_keys_bounded [OF assms(1)] assms(3) by (auto simp: keys_bounded_def)
    also have "\<dots> \<le> counter_current (ss_keys s1)" using admitted_keys_increasing [OF r] by blast
    finally have fresh: "out \<noteq> OutAdmitted k"
      using sup_step_keys [OF st] by (cases inp) auto
    have inp: "(\<exists>ev. inp = InEvent ev \<and> child_state_of s' k = Option.bind (child_state_of s1 k) (event_view ev k)) \<or>
        child_state_of s' k = child_state_of s1 k"
      using sup_step_view [OF st, of k] fresh by (cases inp) auto
    show ?case
    proof (cases "child_state_of s1 k")
      case None
      with snoc.IH [OF r] have "?gone inputs'" by blast
      then have "?gone (inputs' @ [inp])" by (metis append.assoc append_Cons)
      with inp None show ?thesis by auto
    next
      case (Some st1)
      with snoc.IH [OF r] have ih: "child_edge\<^sup>*\<^sup>* st st1" "state_joined st \<longrightarrow> state_joined st1" by blast+
      have step1: "child_edge\<^sup>*\<^sup>* st st' \<and> (state_joined st \<longrightarrow> state_joined st')"
        if "st' = st1 \<or> child_edge st1 st'" for st'
        using that ih by (auto intro: rtranclp.rtrancl_into_rtrancl dest: child_edge_joined)
      consider ev where "inp = InEvent ev" "child_state_of s' k = event_view ev k st1"
        | "child_state_of s' k = Some st1"
        using inp Some by fastforce
      then show ?thesis
      proof cases
        case (1 ev)
        then show ?thesis
        proof (cases "event_view ev k st1")
          case None
          then have "ev = EvReclaim k" "state_joined st1" using event_view_None by blast+
          with 1(1) r Some ih(1) have "?gone (inputs' @ [inp])" by blast
          with 1(2) None show ?thesis by simp
        next
          case (Some st')
          with 1(2) step1 event_view_edge [of ev k st1] show ?thesis by auto
        qed
      next
        case 2
        with ih show ?thesis by simp
      qed
    qed
  qed
  then show ?thesis by (auto split: option.splits)
qed


theorem registration_life_witness:
  "\<exists>outs s outs' s' outs'' s'' st. sup_run Ordered demo_start = Inr (outs, s) \<and>
     run_ops sup_step s (drop (length demo_start) demo_end) = Inr (outs', s') \<and>
     child_state_of s' (ChildKey 1) = Some st \<and> child_edge\<^sup>*\<^sup>* (Resident InActive) st \<and>
     run_ops sup_step s (drop (length demo_start) demo_end @ [InEvent (EvReclaim (ChildKey 1))]) = Inr (outs'', s'') \<and>
     child_state_of s'' (ChildKey 1) = None \<and> (\<exists>st1. child_edge\<^sup>*\<^sup>* (Resident InActive) st1 \<and> state_joined st1)"
proof -
  have "\<exists>outs s outs' s' outs'' s'' st. sup_run Ordered demo_start = Inr (outs, s) \<and>
     child_state_of s (ChildKey 1) = Some (Resident InActive) \<and>
     run_ops sup_step s (drop (length demo_start) demo_end) = Inr (outs', s') \<and>
     child_state_of s' (ChildKey 1) = Some st \<and>
     run_ops sup_step s (drop (length demo_start) demo_end @ [InEvent (EvReclaim (ChildKey 1))]) = Inr (outs'', s'') \<and>
     child_state_of s'' (ChildKey 1) = None"
    by (simp add: demo_defs sup_eval cong: run_bind_weak_cong)
  then obtain outs s outs' s' outs'' s'' st where r: "sup_run Ordered demo_start = Inr (outs, s)"
     "child_state_of s (ChildKey 1) = Some (Resident InActive)"
     "run_ops sup_step s (drop (length demo_start) demo_end) = Inr (outs', s')"
     "child_state_of s' (ChildKey 1) = Some st"
     "run_ops sup_step s (drop (length demo_start) demo_end @ [InEvent (EvReclaim (ChildKey 1))]) = Inr (outs'', s'')"
     "child_state_of s'' (ChildKey 1) = None" by blast
  from r registration_life [OF r(1,3,2)] registration_life [OF r(1,5,2)] show ?thesis by auto
qed

end
