(* ===== verification/Waker.thy ===== *)
theory Waker
  imports Prelude
begin

text \<open>
  Panic containment and deferred waker effects: \<open>crates/shelterwood-core/src/panic.rs\<close> and
  \<open>crates/shelterwood-core/src/waker.rs\<close>. Application code (a waker's vtable, a payload's destructor) is a
  parameter that says with which payload it panics, if it does.
\<close>

section \<open>Panic payloads\<close>

text \<open>What becomes of a panic payload that is not handed on.\<close>

datatype 'p fate = Dropped 'p | Leaked 'p

definition discard_panic :: "('p \<Rightarrow> 'p option) \<Rightarrow> 'p option \<Rightarrow> 'p fate list" where
  "discard_panic drop_panic payload =
     (case payload of
        None \<Rightarrow> []
      | Some p \<Rightarrow>
          (case drop_panic p of
             None \<Rightarrow> [Dropped p]
           | Some hostile_payload \<Rightarrow> [Dropped p, Leaked hostile_payload]))"

definition keep_first_panic ::
  "('p \<Rightarrow> 'p option) \<Rightarrow> 'p option \<Rightarrow> 'p option \<Rightarrow> 'p option \<times> 'p fate list" where
  "keep_first_panic drop_panic first candidate =
     (if first = None then (candidate, []) else (first, discard_panic drop_panic candidate))"

record 'p unwind_panics =
  up_primary :: "'p option"
  up_cleanup :: "'p option"

text \<open>The result is the payload that is resumed, if any, and the fate of the others.\<close>

definition resume_preferred_panic ::
  "('p \<Rightarrow> 'p option) \<Rightarrow> bool \<Rightarrow> 'p unwind_panics \<Rightarrow> 'p option \<times> 'p fate list" where
  "resume_preferred_panic drop_panic panicking panics =
     (if panicking then
        (None, discard_panic drop_panic (up_primary panics) @ discard_panic drop_panic (up_cleanup panics))
      else case up_primary panics of
        Some payload \<Rightarrow> (Some payload, discard_panic drop_panic (up_cleanup panics))
      | None \<Rightarrow> (up_cleanup panics, []))"

text \<open>\<open>PanicAccumulator\<close>: its state is the first payload; \<open>outcome\<close> is the panic of the step it performed.\<close>

definition accumulator_run ::
  "('p \<Rightarrow> 'p option) \<Rightarrow> 'p option \<Rightarrow> 'p option \<Rightarrow> 'p option \<times> 'p fate list" where
  "accumulator_run drop_panic acc outcome = keep_first_panic drop_panic acc outcome"

definition accumulator_drop :: "('p \<Rightarrow> 'p option) \<Rightarrow> bool \<Rightarrow> 'p option \<Rightarrow> 'p option \<times> 'p fate list" where
  "accumulator_drop drop_panic panicking acc =
     resume_preferred_panic drop_panic panicking \<lparr>up_primary = None, up_cleanup = acc\<rparr>"

section \<open>Waker slots and effects\<close>

datatype 'd waker_action = Wake | DropInline | Run 'd

text \<open>\<open>std::task::Poll\<close>.\<close>

datatype 'o poll = Pending | Ready 'o

type_synonym 'w waker_slot = "'w option"
type_synonym ('w, 'd) waker_effects = "('w \<times> 'd waker_action) list"

definition slot_will_wake :: "('w \<Rightarrow> 'w \<Rightarrow> bool) \<Rightarrow> 'w waker_slot \<Rightarrow> 'w \<Rightarrow> bool" where
  "slot_will_wake will_wake slot waker =
     (case slot of None \<Rightarrow> False | Some registered \<Rightarrow> will_wake registered waker)"

definition effects_push :: "('w, 'd) waker_effects \<Rightarrow> 'w \<Rightarrow> 'd waker_action \<Rightarrow> ('w, 'd) waker_effects" where
  "effects_push effects waker action = effects @ [(waker, action)]"

definition slot_replace ::
  "'w waker_slot \<Rightarrow> 'w \<Rightarrow> ('w, 'd) waker_effects \<Rightarrow> 'w waker_slot \<times> ('w, 'd) waker_effects" where
  "slot_replace slot waker effects =
     (Some waker, case slot of None \<Rightarrow> effects | Some displaced \<Rightarrow> effects_push effects displaced DropInline)"

definition slot_take ::
  "'w waker_slot \<Rightarrow> 'd waker_action \<Rightarrow> ('w, 'd) waker_effects \<Rightarrow> 'w waker_slot \<times> ('w, 'd) waker_effects" where
  "slot_take slot action effects =
     (None, case slot of None \<Rightarrow> effects | Some waker \<Rightarrow> effects_push effects waker action)"

text \<open>
  \<open>WakerEffects::flush\<close>: the actions in the order they ran, the accumulator and the discarded payloads.
\<close>

fun waker_flush ::
  "('p \<Rightarrow> 'p option) \<Rightarrow> ('w \<Rightarrow> 'd waker_action \<Rightarrow> 'p option) \<Rightarrow> ('w, 'd) waker_effects \<Rightarrow> 'p option \<Rightarrow>
   ('w, 'd) waker_effects \<times> 'p option \<times> 'p fate list" where
  "waker_flush drop_panic act [] acc = ([], acc, [])"
| "waker_flush drop_panic act ((waker, action) # effects) acc =
     (let (acc1, fates1) = accumulator_run drop_panic acc (act waker action);
          (performed, acc2, fates2) = waker_flush drop_panic act effects acc1
      in ((waker, action) # performed, acc2, fates1 @ fates2))"

section \<open>Containment\<close>

fun first_some :: "'a option list \<Rightarrow> 'a option" where
  "first_some [] = None"
| "first_some (Some x # xs) = Some x"
| "first_some (None # xs) = first_some xs"

fun dropped_payloads :: "'p fate list \<Rightarrow> 'p list" where
  "dropped_payloads [] = []"
| "dropped_payloads (Dropped p # fates) = p # dropped_payloads fates"
| "dropped_payloads (Leaked p # fates) = dropped_payloads fates"

lemma dropped_payloads_append [simp]:
  "dropped_payloads (xs @ ys) = dropped_payloads xs @ dropped_payloads ys"
  by (induction xs rule: dropped_payloads.induct) auto

lemma dropped_discard [simp]:
  "dropped_payloads (discard_panic drop_panic payload) = (case payload of None \<Rightarrow> [] | Some p \<Rightarrow> [p])"
  by (auto simp: discard_panic_def split: option.splits)

definition raised :: "('w \<Rightarrow> 'd waker_action \<Rightarrow> 'p option) \<Rightarrow> ('w, 'd) waker_effects \<Rightarrow> 'p list" where
  "raised act effects = List.map_filter (\<lambda>(waker, action). act waker action) effects"

lemma waker_flush_accounts:
  "waker_flush drop_panic act effects acc = (performed, acc', fates) \<Longrightarrow>
     performed = effects \<and> acc' = first_some (acc # map (\<lambda>(waker, action). act waker action) effects) \<and>
     (case acc' of None \<Rightarrow> [] | Some p \<Rightarrow> [p]) @ dropped_payloads fates =
       (case acc of None \<Rightarrow> [] | Some p \<Rightarrow> [p]) @ raised act effects"
proof (induction effects arbitrary: acc performed acc' fates)
  case Nil
  then show ?case by (cases acc) (auto simp: raised_def map_filter_simps)
next
  case (Cons e effects)
  obtain waker action where e: "e = (waker, action)" by force
  obtain acc1 fates1 where a: "accumulator_run drop_panic acc (act waker action) = (acc1, fates1)" by force
  obtain performed2 acc2 fates2 where r: "waker_flush drop_panic act effects acc1 = (performed2, acc2, fates2)"
    by (cases "waker_flush drop_panic act effects acc1") auto
  have out: "performed = e # performed2" "acc' = acc2" "fates = fates1 @ fates2"
    using Cons.prems by (auto simp: e a r)
  show ?case
    using Cons.IH [OF r] a out
    by (cases acc; cases "act waker action")
      (auto simp: e accumulator_run_def keep_first_panic_def raised_def map_filter_simps split: option.splits)
qed

text \<open>
  C39: A panicking waker never keeps a later waker effect from running: a flush runs every pending action
  exactly once in the order it was queued, keeps the first panic for its caller, and drops every
  later payload, so none is lost and none is kept twice.
\<close>

theorem waker_flush_contains_panics:
  "\<exists>acc' fates. waker_flush drop_panic act effects acc = (effects, acc', fates) \<and>
     acc' = first_some (acc # map (\<lambda>(waker, action). act waker action) effects) \<and>
     (case acc' of None \<Rightarrow> [] | Some p \<Rightarrow> [p]) @ dropped_payloads fates =
       (case acc of None \<Rightarrow> [] | Some p \<Rightarrow> [p]) @ raised act effects"
proof -
  obtain performed acc' fates where "waker_flush drop_panic act effects acc = (performed, acc', fates)"
    by (cases "waker_flush drop_panic act effects acc") auto
  with waker_flush_accounts [OF this] show ?thesis by auto
qed

end
