(* ===== verification/Mailbox.thy ===== *)
theory Mailbox
  imports Policy Identity Waker
begin

text \<open>
  The actor mailbox: \<open>crates/shelterwood/src/mailbox/cell.rs\<close> with its \<open>state\<close>, \<open>operation\<close> and \<open>effects\<close>
  modules, and the bind token of \<open>mailbox.rs\<close>. Every method is one transaction under the mailbox mutex,
  so a method is one function from the cell to a result and a new cell. Reference-counted send
  operations and bind permits are indices into a store, which is part of the cell. What a
  transaction defers past its unlock is a list of actions in the order they run.
\<close>

section \<open>State\<close>

record binding =
  bd_incarnation :: incarnation
  bd_kind :: resolved_mailbox

datatype phase =
    Unbound
  | Bound binding
  | Frozen binding
  | Terminal "incarnation option"

fun phase_observation :: "phase \<Rightarrow> incarnation option" where
  "phase_observation (Bound b) = Some (bd_incarnation b)"
| "phase_observation (Frozen b) = Some (bd_incarnation b)"
| "phase_observation Unbound = None"
| "phase_observation (Terminal _) = None"

type_synonym accepted_sequence = u64

datatype receive_mode = Drain | LiveThrough accepted_sequence

fun mode_accepts :: "receive_mode \<Rightarrow> accepted_sequence \<Rightarrow> bool" where
  "mode_accepts Drain sequence = True"
| "mode_accepts (LiveThrough limit) sequence = (sequence \<le> limit)"

record 'm envelope =
  en_message :: 'm
  en_accepted_sequence :: accepted_sequence

type_synonym waiter_id = u64
type_synonym operation_ref = nat
type_synonym permit_ref = nat

record waiter_queue =
  wq_entries :: "(waiter_id, operation_ref) btree"
  wq_ids :: monotonic_counter

definition waiter_queue_new :: waiter_queue where
  "waiter_queue_new = \<lparr>wq_entries = [], wq_ids = counter_new\<rparr>"

record 'm mailbox_state =
  ms_kind :: "resolved_mailbox option"
  ms_bind_permit :: permit_ref
  ms_phase :: phase
  ms_last_bound :: "incarnation option"
  ms_waiters :: waiter_queue
  ms_queue :: "'m envelope list"
  ms_latest :: "'m envelope option"

text \<open>A send operation.\<close>

datatype 'm operation_outcome =
    Waiting 'm "incarnation option"
  | Accepted incarnation
  | Terminated 'm "incarnation option"
  | Retired

record ('m, 'w) operation_state =
  os_outcome :: "'m operation_outcome"
  os_waker :: "'w waker_slot"
  os_registration :: "waiter_id option"

text \<open>\<open>crate::runtime::dispose_waker\<close>, the one disposer the mailbox names.\<close>

datatype disposer = DisposeWaker

record ('m, 'w) mailbox_effects =
  me_pulse :: bool
  me_displaced :: "'m envelope list"
  me_isolate_displaced :: bool
  me_wakers :: "('w, disposer) waker_effects"

definition no_effects :: "('m, 'w) mailbox_effects" where
  "no_effects = \<lparr>me_pulse = False, me_displaced = [], me_isolate_displaced = False, me_wakers = []\<rparr>"

record 'm mailbox_payload =
  mp_queue :: "'m envelope list"
  mp_latest :: "'m envelope option"
  mp_retired :: "operation_ref list"

definition payload_unread :: "'m envelope list \<Rightarrow> 'm envelope option \<Rightarrow> 'm mailbox_payload" where
  "payload_unread queue latest = \<lparr>mp_queue = queue, mp_latest = latest, mp_retired = []\<rparr>"

text \<open>
  The teardown prepared by terminalization. \<open>td_changed\<close> says whether the change signal is still to be
  pulsed, and \<open>td_current\<close> is the waiter popped by the loop of
  \<open>Termination::finish\<close> whose registration is cleared but whose outcome is not yet decided.
\<close>

record 'm teardown =
  td_changed :: bool
  td_waiters :: waiter_queue
  td_current :: "operation_ref option"
  td_final :: "incarnation option"
  td_payload :: "'m mailbox_payload"

record ('m, 'w) mailbox_cell =
  mc_state :: "'m mailbox_state"
  mc_accepted :: u64
  mc_operations :: "('m, 'w) operation_state list"
  mc_permits :: "bool list"
  mc_effects :: "('m, 'w) mailbox_effects"
  mc_teardown :: "'m teardown option"

definition mailbox_new :: "('m, 'w) mailbox_cell" where
  "mailbox_new =
     \<lparr>mc_state =
        \<lparr>ms_kind = None, ms_bind_permit = 0, ms_phase = Unbound, ms_last_bound = None,
         ms_waiters = waiter_queue_new, ms_queue = [], ms_latest = None\<rparr>,
      mc_accepted = 0, mc_operations = [], mc_permits = [False], mc_effects = no_effects,
      mc_teardown = None\<rparr>"

abbreviation mc_phase :: "('m, 'w) mailbox_cell \<Rightarrow> phase" where
  "mc_phase c \<equiv> ms_phase (mc_state c)"

abbreviation mc_entries :: "('m, 'w) mailbox_cell \<Rightarrow> (waiter_id, operation_ref) btree" where
  "mc_entries c \<equiv> wq_entries (ms_waiters (mc_state c))"

definition upd_state ::
  "('m mailbox_state \<Rightarrow> 'm mailbox_state) \<Rightarrow> ('m, 'w) mailbox_cell \<Rightarrow> ('m, 'w) mailbox_cell" where
  "upd_state f c = c\<lparr>mc_state := f (mc_state c)\<rparr>"

definition upd_effects ::
  "(('m, 'w) mailbox_effects \<Rightarrow> ('m, 'w) mailbox_effects) \<Rightarrow> ('m, 'w) mailbox_cell \<Rightarrow> ('m, 'w) mailbox_cell" where
  "upd_effects f c = c\<lparr>mc_effects := f (mc_effects c)\<rparr>"

definition upd_operation ::
  "operation_ref \<Rightarrow> (('m, 'w) operation_state \<Rightarrow> ('m, 'w) operation_state) \<Rightarrow>
   ('m, 'w) mailbox_cell \<Rightarrow> ('m, 'w) mailbox_cell" where
  "upd_operation r f c = c\<lparr>mc_operations := (mc_operations c)[r := f (mc_operations c ! r)]\<rparr>"

definition pulse :: "('m, 'w) mailbox_cell \<Rightarrow> ('m, 'w) mailbox_cell" where
  "pulse c = upd_effects (\<lambda>e. e\<lparr>me_pulse := True\<rparr>) c"

definition set_phase :: "phase \<Rightarrow> ('m, 'w) mailbox_cell \<Rightarrow> ('m, 'w) mailbox_cell" where
  "set_phase p c = upd_state (\<lambda>s. s\<lparr>ms_phase := p\<rparr>) c"

section \<open>Effects past the unlock\<close>

datatype ('m, 'w) flush_action =
    Pulse
  | DisposeDetached "'m envelope list"
  | WakerAction 'w "disposer waker_action"
  | DropEnvelope "'m envelope"

definition flush :: "('m, 'w) mailbox_effects \<Rightarrow> ('m, 'w) flush_action list" where
  "flush e =
     (if me_pulse e then [Pulse] else []) @
     (if me_isolate_displaced e \<and> me_displaced e \<noteq> [] then [DisposeDetached (me_displaced e)] else []) @
     map (\<lambda>(waker, action). WakerAction waker action) (me_wakers e) @
     (if me_isolate_displaced e then [] else map DropEnvelope (me_displaced e))"

text \<open>\<open>MailboxTxn::finish\<close>: release the guard, then run the effects.\<close>

definition txn_finish ::
  "'r \<Rightarrow> ('m, 'w) mailbox_cell \<Rightarrow> ('r \<times> ('m, 'w) flush_action list) \<times> ('m, 'w) mailbox_cell" where
  "txn_finish output c = ((output, flush (mc_effects c)), c\<lparr>mc_effects := no_effects\<rparr>)"

section \<open>Send operations\<close>

definition operation_new ::
  "'m \<Rightarrow> incarnation option \<Rightarrow> waiter_id option \<Rightarrow> ('m, 'w) operation_state" where
  "operation_new message newest_observed registration =
     \<lparr>os_outcome = Waiting message newest_observed, os_waker = None, os_registration = registration\<rparr>"

definition clear_registration :: "('m, 'w) operation_state \<Rightarrow> ('m, 'w) operation_state" where
  "clear_registration s = s\<lparr>os_registration := None\<rparr>"

definition operation_observe ::
  "incarnation \<Rightarrow> ('m, 'w) operation_state \<Rightarrow> ('m, 'w) operation_state" where
  "operation_observe incarnation s =
     (case os_outcome s of
        Waiting message _ \<Rightarrow> s\<lparr>os_outcome := Waiting message (Some incarnation)\<rparr>
      | _ \<Rightarrow> s)"

definition operation_accept ::
  "incarnation \<Rightarrow> ('m, 'w) operation_state \<Rightarrow> ('w, disposer) waker_effects \<Rightarrow>
   'm option \<times> ('m, 'w) operation_state \<times> ('w, disposer) waker_effects" where
  "operation_accept incarnation s effects =
     (case os_outcome s of
        Waiting message _ \<Rightarrow>
          (case slot_take (os_waker s) Wake effects of
             (slot, effects') \<Rightarrow>
               (Some message, s\<lparr>os_outcome := Accepted incarnation, os_waker := slot\<rparr>, effects'))
      | _ \<Rightarrow> (None, s, effects))"

definition operation_terminate ::
  "incarnation option \<Rightarrow> ('m, 'w) operation_state \<Rightarrow> ('m, 'w) operation_state \<times> ('w, disposer) waker_effects" where
  "operation_terminate final_incarnation s =
     (case os_outcome s of
        Waiting message _ \<Rightarrow>
          (case slot_take (os_waker s) Wake [] of
             (slot, effects) \<Rightarrow>
               (s\<lparr>os_outcome := Terminated message final_incarnation, os_waker := slot\<rparr>, effects))
      | _ \<Rightarrow> (s, []))"

datatype 'm poll_result =
    PollAccepted incarnation
  | PollTerminated 'm "incarnation option"
  | PollPending
  | PollNeedsWakerClone

text \<open>
  \<open>SendOperation::poll\<close>. An offered replacement waker that the outcome refuses is dropped with its panic
  contained, and the outcome is read again.
\<close>

definition operation_poll_outcome ::
  "('w \<Rightarrow> 'w \<Rightarrow> bool) \<Rightarrow> 'w \<Rightarrow> ('m, 'w) operation_state \<Rightarrow>
   ('m poll_result \<times> ('w, disposer) waker_effects \<times> ('m, 'w) operation_state) run" where
  "operation_poll_outcome will_wake current s =
     (case os_outcome s of
        Accepted incarnation \<Rightarrow> Inr (PollAccepted incarnation, [], s)
      | Terminated message final_incarnation \<Rightarrow>
          Inr (PollTerminated message final_incarnation, [], s\<lparr>os_outcome := Retired\<rparr>)
      | Waiting message newest_observed \<Rightarrow>
          Inr (if slot_will_wake will_wake (os_waker s) current then PollPending else PollNeedsWakerClone, [], s)
      | Retired \<Rightarrow> Inl (Panic ''a retired send operation was polled''))"

definition operation_poll ::
  "('w \<Rightarrow> 'w \<Rightarrow> bool) \<Rightarrow> 'w option \<Rightarrow> 'w \<Rightarrow> ('m, 'w) operation_state \<Rightarrow>
   ('m poll_result \<times> ('w, disposer) waker_effects \<times> ('m, 'w) operation_state) run" where
  "operation_poll will_wake replacement current s =
     (case (replacement, os_outcome s) of
        (Some waker, Waiting message newest_observed) \<Rightarrow>
          (case slot_replace (os_waker s) waker [] of
             (slot, effects) \<Rightarrow> Inr (PollPending, effects, s\<lparr>os_waker := slot\<rparr>))
      | (Some waker, _) \<Rightarrow>
          run_bind (operation_poll_outcome will_wake current s)
            (\<lambda>(result, effects, s'). Inr (result, (waker, DropInline) # effects, s'))
      | (None, _) \<Rightarrow> operation_poll_outcome will_wake current s)"

section \<open>The waiter queue\<close>

definition waiters_park ::
  "'m \<Rightarrow> incarnation option \<Rightarrow> ('m, 'w) mailbox_cell \<Rightarrow> (operation_ref \<times> ('m, 'w) mailbox_cell) run" where
  "waiters_park message newest_observed c =
     run_bind (counter_mint (wq_ids (ms_waiters (mc_state c))))
       (\<lambda>(registration, ids).
          let operation = length (mc_operations c)
          in Inr (operation,
               upd_state (\<lambda>s. s\<lparr>ms_waiters :=
                   \<lparr>wq_entries = bt_insert registration operation (wq_entries (ms_waiters s)), wq_ids = ids\<rparr>\<rparr>)
                 (c\<lparr>mc_operations :=
                      mc_operations c @ [operation_new message newest_observed (Some registration)]\<rparr>)))"

definition waiters_observe_all ::
  "incarnation \<Rightarrow> ('m, 'w) mailbox_cell \<Rightarrow> ('m, 'w) mailbox_cell" where
  "waiters_observe_all incarnation c =
     fold (\<lambda>(_, r). upd_operation r (operation_observe incarnation)) (mc_entries c) c"

definition pop_first :: "waiter_queue \<Rightarrow> operation_ref option \<times> waiter_queue" where
  "pop_first q =
     (case wq_entries q of
        [] \<Rightarrow> (None, q)
      | (_, operation) # rest \<Rightarrow> (Some operation, q\<lparr>wq_entries := rest\<rparr>))"

section \<open>Acceptance\<close>

definition push_accepted ::
  "resolved_mailbox \<Rightarrow> 'm \<Rightarrow> ('m, 'w) mailbox_cell \<Rightarrow> ('m, 'w) mailbox_cell run" where
  "push_accepted kind message c =
     run_bind (atomic_counter_mint (mc_accepted c))
       (\<lambda>(sequence, accepted).
          let envelope = \<lparr>en_message = message, en_accepted_sequence = sequence\<rparr>;
              c1 = c\<lparr>mc_accepted := accepted\<rparr>
          in Inr (case kind of
               ResolvedQueue _ \<Rightarrow> upd_state (\<lambda>s. s\<lparr>ms_queue := ms_queue s @ [envelope]\<rparr>) c1
             | ResolvedLatest \<Rightarrow>
                 upd_state (\<lambda>s. s\<lparr>ms_latest := Some envelope\<rparr>)
                   (case ms_latest (mc_state c1) of
                      None \<Rightarrow> c1
                    | Some displaced \<Rightarrow>
                        upd_effects (\<lambda>e. e\<lparr>me_displaced := me_displaced e @ [displaced]\<rparr>) c1)))"

definition queue_full :: "resolved_mailbox \<Rightarrow> ('m, 'w) mailbox_cell \<Rightarrow> bool" where
  "queue_full kind c =
     (case kind of
        ResolvedQueue capacity \<Rightarrow> capacity \<le> length (ms_queue (mc_state c))
      | ResolvedLatest \<Rightarrow> False)"

text \<open>\<open>Inl\<close> hands the message back.\<close>

definition accept_locked ::
  "binding \<Rightarrow> 'm \<Rightarrow> ('m, 'w) mailbox_cell \<Rightarrow> (('m + incarnation) \<times> ('m, 'w) mailbox_cell) run" where
  "accept_locked binding message c =
     (if mc_entries c \<noteq> [] then Inr (Inl message, c)
      else if queue_full (bd_kind binding) c then Inr (Inl message, c)
      else
        run_bind (push_accepted (bd_kind binding) message c)
          (\<lambda>c1. Inr (Inr (bd_incarnation binding), pulse c1)))"

text \<open>One turn of the promotion loop: the popped operation leaves \<open>Waiting\<close> and its message is accepted.\<close>

definition promote_one ::
  "binding \<Rightarrow> operation_ref \<Rightarrow> ('m, 'w) mailbox_cell \<Rightarrow> ('m, 'w) mailbox_cell run" where
  "promote_one binding operation c =
     (let c1 = upd_operation operation clear_registration c;
          c2 = upd_operation operation (operation_observe (bd_incarnation binding)) c1
      in case operation_accept (bd_incarnation binding) (mc_operations c2 ! operation) (me_wakers (mc_effects c2)) of
           (message, s, wakers) \<Rightarrow>
             let c3 = upd_operation operation (\<lambda>_. s) (upd_effects (\<lambda>e. e\<lparr>me_wakers := wakers\<rparr>) c2)
             in case message of
                  None \<Rightarrow> Inr c3
                | Some m \<Rightarrow> push_accepted (bd_kind binding) m c3)"

lemma upd_simps [simp]:
  "mc_state (upd_state f c) = f (mc_state c)" "mc_accepted (upd_state f c) = mc_accepted c"
  "mc_operations (upd_state f c) = mc_operations c" "mc_permits (upd_state f c) = mc_permits c"
  "mc_effects (upd_state f c) = mc_effects c" "mc_teardown (upd_state f c) = mc_teardown c"
  "mc_state (upd_effects g c) = mc_state c" "mc_accepted (upd_effects g c) = mc_accepted c"
  "mc_operations (upd_effects g c) = mc_operations c" "mc_permits (upd_effects g c) = mc_permits c"
  "mc_effects (upd_effects g c) = g (mc_effects c)" "mc_teardown (upd_effects g c) = mc_teardown c"
  "mc_state (upd_operation r h c) = mc_state c" "mc_accepted (upd_operation r h c) = mc_accepted c"
  "mc_operations (upd_operation r h c) = (mc_operations c)[r := h (mc_operations c ! r)]"
  "mc_permits (upd_operation r h c) = mc_permits c"
  "mc_effects (upd_operation r h c) = mc_effects c" "mc_teardown (upd_operation r h c) = mc_teardown c"
  by (simp_all add: upd_state_def upd_effects_def upd_operation_def)

lemma pulse_simps [simp]:
  "mc_state (pulse c) = mc_state c" "mc_accepted (pulse c) = mc_accepted c"
  "mc_operations (pulse c) = mc_operations c" "mc_permits (pulse c) = mc_permits c"
  "mc_teardown (pulse c) = mc_teardown c"
  by (simp_all add: pulse_def)

lemma push_accepted_waiters: "push_accepted kind m c = Inr c' \<Longrightarrow> ms_waiters (mc_state c') = ms_waiters (mc_state c)"
  by (cases kind) (auto simp: push_accepted_def run_bind_eq_Inr Let_def split: option.splits)

lemma promote_one_waiters:
  "promote_one b r c = Inr c' \<Longrightarrow> ms_waiters (mc_state c') = ms_waiters (mc_state c)"
  by (auto simp: promote_one_def Let_def dest!: push_accepted_waiters split: prod.splits option.splits)

lemma run_bind_cong [fundef_cong]:
  "r = r' \<Longrightarrow> (\<And>x. r' = Inr x \<Longrightarrow> f x = g x) \<Longrightarrow> run_bind r f = run_bind r' g"
  by (cases r') auto

function promote_waiters :: "binding \<Rightarrow> ('m, 'w) mailbox_cell \<Rightarrow> ('m, 'w) mailbox_cell run" where
  "promote_waiters binding c =
     (if queue_full (bd_kind binding) c then Inr c
      else case pop_first (ms_waiters (mc_state c)) of
             (None, _) \<Rightarrow> Inr c
           | (Some operation, rest) \<Rightarrow>
               run_bind (promote_one binding operation (upd_state (\<lambda>s. s\<lparr>ms_waiters := rest\<rparr>) c))
                 (promote_waiters binding))"
  by pat_completeness auto
termination
  by (relation "measure (\<lambda>(b, c). length (mc_entries c))")
    (auto simp: pop_first_def dest!: promote_one_waiters split: list.splits)

declare promote_waiters.simps [simp del]

section \<open>Senders and the receiver\<close>

datatype 'm submission =
    SubmissionAccepted incarnation
  | SubmissionParked operation_ref
  | SubmissionTerminated 'm "incarnation option"

definition txn_park ::
  "'m \<Rightarrow> incarnation option \<Rightarrow> ('m, 'w) mailbox_cell \<Rightarrow> ('m submission \<times> ('m, 'w) mailbox_cell) run" where
  "txn_park message newest_observed c =
     run_bind (waiters_park message newest_observed c) (\<lambda>(r, c'). Inr (SubmissionParked r, c'))"

type_synonym ('r, 'm, 'w) transaction = "(('r \<times> ('m, 'w) flush_action list) \<times> ('m, 'w) mailbox_cell) run"

definition submit_locked ::
  "'m \<Rightarrow> ('m, 'w) mailbox_cell \<Rightarrow> ('m submission \<times> ('m, 'w) mailbox_cell) run" where
  "submit_locked message c =
     (case mc_phase c of
        Terminal final_incarnation \<Rightarrow> Inr (SubmissionTerminated message final_incarnation, c)
      | Bound binding \<Rightarrow>
          run_bind (accept_locked binding message c)
            (\<lambda>(accepted, c1).
               case accepted of
                 Inr incarnation \<Rightarrow> Inr (SubmissionAccepted incarnation, c1)
               | Inl message \<Rightarrow> txn_park message (Some (bd_incarnation binding)) c1)
      | Frozen binding \<Rightarrow> txn_park message (Some (bd_incarnation binding)) c
      | Unbound \<Rightarrow> txn_park message None c)"

definition submit :: "'m \<Rightarrow> ('m, 'w) mailbox_cell \<Rightarrow> ('m submission, 'm, 'w) transaction" where
  "submit message c =
     run_bind (submit_locked message c) (\<lambda>(submission, c'). Inr (txn_finish submission c'))"

datatype send_error_kind = NotRunning | Full | SendTerminated | TimedOut

record 'm send_error =
  se_actor_id :: child_id
  se_incarnation_observed :: "incarnation option"
  se_message :: 'm
  se_kind :: send_error_kind

definition try_send_locked ::
  "child_id \<Rightarrow> 'm \<Rightarrow> ('m, 'w) mailbox_cell \<Rightarrow> (('m send_error + incarnation) \<times> ('m, 'w) mailbox_cell) run" where
  "try_send_locked actor_id message c =
     (let send_error = (\<lambda>observed kind message.
            \<lparr>se_actor_id = actor_id, se_incarnation_observed = observed, se_message = message, se_kind = kind\<rparr>)
      in case mc_phase c of
           Terminal final_incarnation \<Rightarrow> Inr (Inl (send_error final_incarnation SendTerminated message), c)
         | Unbound \<Rightarrow> Inr (Inl (send_error None NotRunning message), c)
         | Frozen binding \<Rightarrow> Inr (Inl (send_error (Some (bd_incarnation binding)) NotRunning message), c)
         | Bound binding \<Rightarrow>
             run_bind (accept_locked binding message c)
               (\<lambda>(accepted, c1).
                  case accepted of
                    Inr incarnation \<Rightarrow> Inr (Inr incarnation, c1)
                  | Inl message \<Rightarrow> Inr (Inl (send_error (Some (bd_incarnation binding)) Full message), c1)))"

definition try_send ::
  "child_id \<Rightarrow> 'm \<Rightarrow> ('m, 'w) mailbox_cell \<Rightarrow> ('m send_error + incarnation, 'm, 'w) transaction" where
  "try_send actor_id message c =
     run_bind (try_send_locked actor_id message c) (\<lambda>(result, c'). Inr (txn_finish result c'))"

definition take_next ::
  "resolved_mailbox \<Rightarrow> receive_mode \<Rightarrow> 'm mailbox_state \<Rightarrow> 'm envelope option \<times> 'm mailbox_state" where
  "take_next kind mode s =
     (case kind of
        ResolvedQueue _ \<Rightarrow>
          (case ms_queue s of
             [] \<Rightarrow> (None, s)
           | item # rest \<Rightarrow>
               if mode_accepts mode (en_accepted_sequence item) then (Some item, s\<lparr>ms_queue := rest\<rparr>) else (None, s))
      | ResolvedLatest \<Rightarrow>
          (case ms_latest s of
             None \<Rightarrow> (None, s)
           | Some item \<Rightarrow>
               if mode_accepts mode (en_accepted_sequence item) then (Some item, s\<lparr>ms_latest := None\<rparr>) else (None, s)))"

definition receive ::
  "incarnation \<Rightarrow> receive_mode \<Rightarrow> ('m, 'w) mailbox_cell \<Rightarrow> ('m option, 'm, 'w) transaction" where
  "receive incarnation mode c =
     (let source =
            (case mc_phase c of
               Bound binding \<Rightarrow> if bd_incarnation binding = incarnation then Some (binding, True) else None
             | Frozen binding \<Rightarrow>
                 if mode = Drain \<and> bd_incarnation binding = incarnation then Some (binding, False) else None
             | _ \<Rightarrow> None)
      in case source of
           None \<Rightarrow> Inr (txn_finish None c)
         | Some (binding, live) \<Rightarrow>
             (case take_next (bd_kind binding) mode (mc_state c) of
                (None, _) \<Rightarrow> Inr (txn_finish None c)
              | (Some envelope, s) \<Rightarrow>
                  run_bind
                    (let c1 = upd_state (\<lambda>_. s) c in if live then promote_waiters binding c1 else Inr c1)
                    (\<lambda>c2. Inr (txn_finish (Some (en_message envelope)) c2))))"

section \<open>Withdrawal\<close>

datatype withdrawal_disposition = Inline | Isolated

fun disposition_action :: "withdrawal_disposition \<Rightarrow> disposer waker_action" where
  "disposition_action Inline = DropInline"
| "disposition_action Isolated = Run DisposeWaker"

datatype 'm withdrawal_outcome =
    OutWithdrawn 'm "incarnation option"
  | OutAccepted incarnation
  | OutTerminated 'm "incarnation option"

text \<open>\<open>Option::or\<close>.\<close>

definition option_or :: "'a option \<Rightarrow> 'a option \<Rightarrow> 'a option" where
  "option_or a b = (case a of Some x \<Rightarrow> Some x | None \<Rightarrow> b)"

text \<open>
  The outcome is absent only for a retired operation, which the source asserts never happens; the
  flag says whether a live registration was found detached, which it asserts happens only once the
  mailbox is terminal. The waker effects run last.
\<close>

record 'm withdrawal =
  wd_outcome :: "'m withdrawal_outcome option"
  wd_detached :: bool

definition withdraw ::
  "operation_ref \<Rightarrow> withdrawal_disposition \<Rightarrow> ('m, 'w) mailbox_cell \<Rightarrow> ('m withdrawal, 'm, 'w) transaction" where
  "withdraw operation disposition c =
     (let s = mc_operations c ! operation;
          outcome =
            (case os_outcome s of
               Waiting message newest_observed \<Rightarrow>
                 Some (OutWithdrawn message (option_or newest_observed (phase_observation (mc_phase c))))
             | Accepted incarnation \<Rightarrow> Some (OutAccepted incarnation)
             | Terminated message final_incarnation \<Rightarrow> Some (OutTerminated message final_incarnation)
             | Retired \<Rightarrow> None);
          (slot, wakers) = slot_take (os_waker s) (disposition_action disposition) [];
          c1 = upd_operation operation
                 (\<lambda>s. s\<lparr>os_outcome := Retired, os_waker := slot, os_registration := None\<rparr>) c;
          removed = (case os_registration s of None \<Rightarrow> None | Some i \<Rightarrow> bt_get (mc_entries c) i);
          c2 = (case os_registration s of
                  None \<Rightarrow> c1
                | Some i \<Rightarrow> upd_state (\<lambda>st. st\<lparr>ms_waiters := (ms_waiters st)\<lparr>wq_entries :=
                                bt_remove i (wq_entries (ms_waiters st))\<rparr>\<rparr>) c1);
          ((output, effects), c3) =
            txn_finish \<lparr>wd_outcome = outcome, wd_detached = (os_registration s \<noteq> None \<and> removed = None)\<rparr> c2
      in Inr ((output, effects @ map (\<lambda>(waker, action). WakerAction waker action) wakers), c3))"

section \<open>The binding lifecycle\<close>

definition token_claim :: "permit_ref \<Rightarrow> permit_ref \<Rightarrow> bool list \<Rightarrow> bool \<times> bool list" where
  "token_claim permit expected permits =
     (if permit = expected \<and> \<not> permits ! permit then (True, permits[permit := True]) else (False, permits))"

definition configure ::
  "resolved_mailbox \<Rightarrow> ('m, 'w) mailbox_cell \<Rightarrow> (permit_ref, 'm, 'w) transaction" where
  "configure mailbox c =
     (case ms_kind (mc_state c) of
        Some existing \<Rightarrow>
          if existing \<noteq> mailbox then Inl (Panic ''mailbox configuration changed after initialization'')
          else Inr (txn_finish (ms_bind_permit (mc_state c)) c)
      | None \<Rightarrow>
          let c1 = upd_state (\<lambda>s. s\<lparr>ms_kind := Some mailbox\<rparr>) c
          in Inr (txn_finish (ms_bind_permit (mc_state c1)) c1))"

definition bind_incarnation ::
  "permit_ref \<Rightarrow> incarnation \<Rightarrow> ('m, 'w) mailbox_cell \<Rightarrow> (unit, 'm, 'w) transaction" where
  "bind_incarnation token incarnation c =
     (case (mc_phase c, ms_kind (mc_state c)) of
        (Terminal _, _) \<Rightarrow> Inr (txn_finish () c)
      | (_, None) \<Rightarrow> Inl (Panic ''mailbox must be configured before its first bind'')
      | (Bound _, Some _) \<Rightarrow> Inl (Panic ''mailbox must close the prior incarnation before rebinding'')
      | (Frozen _, Some _) \<Rightarrow> Inl (Panic ''mailbox must close the prior incarnation before rebinding'')
      | (Unbound, Some kind) \<Rightarrow>
          (case token_claim token (ms_bind_permit (mc_state c)) (mc_permits c) of
             (False, _) \<Rightarrow> Inl (Panic ''mailbox bind token is foreign or was already consumed'')
           | (True, permits) \<Rightarrow>
               let binding = \<lparr>bd_incarnation = incarnation, bd_kind = kind\<rparr>;
                   c1 = upd_state (\<lambda>s. s\<lparr>ms_phase := Bound binding, ms_last_bound := Some incarnation\<rparr>)
                          (c\<lparr>mc_permits := permits\<rparr>);
                   c2 = waiters_observe_all incarnation c1
               in run_bind (promote_waiters binding c2)
                    (\<lambda>c3. Inr (txn_finish ()
                       (upd_effects (\<lambda>e. e\<lparr>me_isolate_displaced := True\<rparr>) (pulse c3))))))"

definition freeze :: "incarnation \<Rightarrow> ('m, 'w) mailbox_cell \<Rightarrow> (unit, 'm, 'w) transaction" where
  "freeze incarnation c =
     (case mc_phase c of
        Bound binding \<Rightarrow>
          if bd_incarnation binding \<noteq> incarnation then Inr (txn_finish () c)
          else Inr (txn_finish () (pulse (set_phase (Frozen binding) c)))
      | _ \<Rightarrow> Inr (txn_finish () c))"

definition take_payload :: "('m, 'w) mailbox_cell \<Rightarrow> 'm mailbox_payload \<times> ('m, 'w) mailbox_cell" where
  "take_payload c =
     (payload_unread (ms_queue (mc_state c)) (ms_latest (mc_state c)),
      upd_state (\<lambda>s. s\<lparr>ms_queue := [], ms_latest := None\<rparr>) c)"

definition reset_bind_permit :: "('m, 'w) mailbox_cell \<Rightarrow> permit_ref \<times> ('m, 'w) mailbox_cell" where
  "reset_bind_permit c =
     (let permit = length (mc_permits c)
      in (permit, upd_state (\<lambda>s. s\<lparr>ms_bind_permit := permit\<rparr>) (c\<lparr>mc_permits := mc_permits c @ [False]\<rparr>)))"

definition close ::
  "incarnation \<Rightarrow> ('m, 'w) mailbox_cell \<Rightarrow> ((permit_ref \<times> 'm mailbox_payload) option, 'm, 'w) transaction" where
  "close incarnation c =
     (if phase_observation (mc_phase c) \<noteq> Some incarnation then Inr (txn_finish None c)
      else
        let c1 = set_phase Unbound c;
            (token, c2) = reset_bind_permit c1;
            (payload, c3) = take_payload c2
        in Inr (txn_finish (Some (token, payload)) (pulse c3)))"

definition prepare_termination :: "('m, 'w) mailbox_cell \<Rightarrow> (bool, 'm, 'w) transaction" where
  "prepare_termination c =
     (case mc_phase c of
        Terminal _ \<Rightarrow> Inr (txn_finish False c)
      | _ \<Rightarrow>
          let final_incarnation = ms_last_bound (mc_state c);
              c1 = set_phase (Terminal final_incarnation) c;
              waiters = ms_waiters (mc_state c1);
              c2 = upd_state (\<lambda>s. s\<lparr>ms_waiters := waiter_queue_new\<rparr>) c1;
              (payload, c3) = take_payload c2
          in Inr (txn_finish True (c3\<lparr>mc_teardown :=
               Some \<lparr>td_changed = True, td_waiters = waiters, td_current = None, td_final = final_incarnation,
                     td_payload = payload\<rparr>\<rparr>)))"

text \<open>
  One step of the loop of \<open>Termination::finish\<close>, which runs with no mailbox lock held. A waiter takes two
  steps, since clearing its registration and deciding its outcome are two critical sections of the
  operation mutex. The step reports whether the loop has ended.
\<close>

definition termination_turn ::
  "'m teardown \<Rightarrow> ('m, 'w) mailbox_cell \<Rightarrow> (bool, 'm, 'w) transaction" where
  "termination_turn td c =
     (case td_current td of
        Some operation \<Rightarrow>
          (case operation_terminate (td_final td) (mc_operations c ! operation) of
             (s, wakers) \<Rightarrow>
               Inr ((False, map (\<lambda>(waker, action). WakerAction waker action) wakers),
                 (upd_operation operation (\<lambda>_. s) c)\<lparr>mc_teardown := Some (td\<lparr>td_current := None,
                    td_payload := (td_payload td)\<lparr>mp_retired := mp_retired (td_payload td) @ [operation]\<rparr>\<rparr>)\<rparr>))
      | None \<Rightarrow>
          (case pop_first (td_waiters td) of
             (None, _) \<Rightarrow> Inr ((True, []), c)
           | (Some operation, rest) \<Rightarrow>
               Inr ((False, []),
                 (upd_operation operation clear_registration c)\<lparr>mc_teardown :=
                    Some (td\<lparr>td_waiters := rest, td_current := Some operation\<rparr>)\<rparr>)))"

text \<open>\<open>MailboxTeardown::finish_framework\<close>: pulse the change signal, then run the loop.\<close>

definition teardown_step ::
  "('m, 'w) mailbox_cell \<Rightarrow> (bool, 'm, 'w) transaction" where
  "teardown_step c =
     (case mc_teardown c of
        None \<Rightarrow> Inr ((True, []), c)
      | Some td \<Rightarrow>
          if td_changed td then Inr ((False, [Pulse]), c\<lparr>mc_teardown := Some (td\<lparr>td_changed := False\<rparr>)\<rparr>)
          else termination_turn td c)"

section \<open>Traces\<close>

datatype ('m, 'w) mailbox_op =
    OpSubmit 'm
  | OpTrySend child_id 'm
  | OpReceive incarnation receive_mode
  | OpPoll operation_ref "'w option" 'w
  | OpWithdraw operation_ref withdrawal_disposition
  | OpConfigure resolved_mailbox
  | OpBind permit_ref incarnation
  | OpFreeze incarnation
  | OpClose incarnation
  | OpTerminate
  | OpTeardown

datatype 'm mailbox_result =
    ResSubmit "'m submission"
  | ResTrySend "'m send_error + incarnation"
  | ResReceive "'m option"
  | ResPoll "'m poll_result"
  | ResWithdraw "'m withdrawal"
  | ResConfigure permit_ref
  | ResUnit
  | ResClose "(permit_ref \<times> 'm mailbox_payload) option"
  | ResBool bool

definition as_result ::
  "('r \<Rightarrow> 'm mailbox_result) \<Rightarrow> ('r, 'm, 'w) transaction \<Rightarrow>
   (('m mailbox_result \<times> ('m, 'w) flush_action list) \<times> ('m, 'w) mailbox_cell) run" where
  "as_result f t = run_bind t (\<lambda>((r, effects), c). Inr ((f r, effects), c))"

text \<open>
  A dangling operation or permit index stands for a reference the program cannot hold; such a step does
  not exist.
\<close>

fun mailbox_step ::
  "('w \<Rightarrow> 'w \<Rightarrow> bool) \<Rightarrow> ('m, 'w) mailbox_cell \<Rightarrow> ('m, 'w) mailbox_op \<Rightarrow>
   (('m mailbox_result \<times> ('m, 'w) flush_action list) \<times> ('m, 'w) mailbox_cell) run" where
  "mailbox_step will_wake c (OpSubmit message) = as_result ResSubmit (submit message c)"
| "mailbox_step will_wake c (OpTrySend actor_id message) = as_result ResTrySend (try_send actor_id message c)"
| "mailbox_step will_wake c (OpReceive incarnation mode) = as_result ResReceive (receive incarnation mode c)"
| "mailbox_step will_wake c (OpPoll r replacement current) =
     (if length (mc_operations c) \<le> r then Inl (Panic ''no such operation'')
      else run_bind (operation_poll will_wake replacement current (mc_operations c ! r))
             (\<lambda>(result, wakers, s). Inr ((ResPoll result, map (\<lambda>(waker, action). WakerAction waker action) wakers),
                upd_operation r (\<lambda>_. s) c)))"
| "mailbox_step will_wake c (OpWithdraw r disposition) =
     (if length (mc_operations c) \<le> r then Inl (Panic ''no such operation'')
      else as_result ResWithdraw (withdraw r disposition c))"
| "mailbox_step will_wake c (OpConfigure kind) = as_result ResConfigure (configure kind c)"
| "mailbox_step will_wake c (OpBind token incarnation) =
     (if length (mc_permits c) \<le> token then Inl (Panic ''no such permit'')
      else as_result (\<lambda>_. ResUnit) (bind_incarnation token incarnation c))"
| "mailbox_step will_wake c (OpFreeze incarnation) = as_result (\<lambda>_. ResUnit) (freeze incarnation c)"
| "mailbox_step will_wake c (OpClose incarnation) = as_result ResClose (close incarnation c)"
| "mailbox_step will_wake c OpTerminate = as_result ResBool (prepare_termination c)"
| "mailbox_step will_wake c OpTeardown = as_result ResBool (teardown_step c)"

end
