(* ===== verification/Mailbox_Invariant.thy ===== *)
theory Mailbox_Invariant
  imports Mailbox "HOL-Library.Multiset"
begin

text \<open>
  The invariant of the mailbox and the ledger of its messages: every transaction of
  \<open>crates/shelterwood/src/mailbox/cell.rs\<close> keeps parked operations and waiter entries in step, keeps the
  content within its capacity, and neither loses nor duplicates a message.
\<close>

section \<open>Ownership of parked operations\<close>

lemma bt_remove_head: "bt_wf ((i, r) # rest) \<Longrightarrow> bt_remove i ((i, r) # rest) = rest"
  by (auto simp: bt_remove_def bt_wf_def bt_keys_def filter_id_conv)

lemma bt_get_head: "bt_get ((i, r) # rest) i = Some r"
  by (simp add: bt_get_def)

definition op_pending :: "('m, 'w) operation_state \<Rightarrow> 'm option" where
  "op_pending s = (case os_outcome s of Waiting m _ \<Rightarrow> Some m | _ \<Rightarrow> None)"

text \<open>
  A waiter queue against the registrations and pending messages of all operations: an operation is
  registered exactly if the queue holds it, and is then pending.
\<close>

definition registry_iff :: "(waiter_id, operation_ref) btree \<Rightarrow> waiter_id option list \<Rightarrow> bool" where
  "registry_iff E regs \<longleftrightarrow> (\<forall>i r. bt_get E i = Some r \<longleftrightarrow> r < length regs \<and> regs ! r = Some i)"

definition owners_wf ::
  "(waiter_id, operation_ref) btree \<Rightarrow> waiter_id option list \<Rightarrow> 'm option list \<Rightarrow> bool" where
  "owners_wf E regs pend \<longleftrightarrow>
     bt_wf E \<and> registry_iff E regs \<and> list_all2 (\<lambda>reg p. (reg = None) = (p = None)) regs pend"

lemma owners_registered:
  assumes "owners_wf E regs pend" "bt_get E i = Some r"
  shows "r < length regs \<and> regs ! r = Some i \<and> pend ! r \<noteq> None"
proof -
  have "r < length regs" "regs ! r = Some i" using assms by (auto simp: owners_wf_def registry_iff_def)
  moreover have "(regs ! r = None) = (pend ! r = None)"
    using assms(1) calculation(1) by (simp add: owners_wf_def list_all2_conv_all_nth)
  ultimately show ?thesis by simp
qed

lemma owners_Nil: "owners_wf [] [] []"
  by (simp add: owners_wf_def registry_iff_def)

lemma registry_insert:
  assumes "registry_iff E regs" "bt_get E i = None"
  shows "registry_iff (bt_insert i (length regs) E) (regs @ [Some i])"
  unfolding registry_iff_def
proof (intro allI)
  fix j r
  have "bt_get E j = Some r \<longleftrightarrow> r < length regs \<and> regs ! r = Some j" for j
    using assms(1) by (simp add: registry_iff_def)
  from this [of i] this [of j] assms(2)
  show "bt_get (bt_insert i (length regs) E) j = Some r \<longleftrightarrow>
      r < length (regs @ [Some i]) \<and> (regs @ [Some i]) ! r = Some j"
    by (auto simp: nth_append)
qed

lemma registry_remove:
  assumes "registry_iff E regs" "bt_get E i = Some r"
  shows "registry_iff (bt_remove i E) (regs[r := None])"
  unfolding registry_iff_def
proof (intro allI)
  fix j r'
  have iff: "bt_get E j = Some r' \<longleftrightarrow> r' < length regs \<and> regs ! r' = Some j" for j r'
    using assms(1) by (simp add: registry_iff_def)
  show "bt_get (bt_remove i E) j = Some r' \<longleftrightarrow> r' < length (regs[r := None]) \<and> (regs[r := None]) ! r' = Some j"
    using iff [of j r'] iff [of i r] iff [of i r'] assms(2) by (auto simp: nth_list_update)
qed

lemma owners_park:
  assumes "owners_wf E regs pend" "bt_get E i = None"
  shows "owners_wf (bt_insert i (length regs) E) (regs @ [Some i]) (pend @ [Some m])"
  using assms registry_insert [OF _ assms(2), of regs]
  by (simp add: owners_wf_def list_all2_appendI)

lemma owners_remove:
  assumes "owners_wf E regs pend" "bt_get E i = Some r"
  shows "owners_wf (bt_remove i E) (regs[r := None]) (pend[r := None])"
  using assms registry_remove [OF _ assms(2), of regs] by (simp add: owners_wf_def list_all2_update_cong)

lemma owners_retire:
  assumes "owners_wf E regs pend" "regs ! r = None"
  shows "owners_wf E (regs[r := None]) (pend[r := None])"
proof -
  have "regs[r := None] = regs" using assms(2) by (metis list_update_id)
  moreover have "list_all2 (\<lambda>reg p. (reg = None) = (p = None)) (regs[r := None]) (pend[r := None])"
    using assms(1) by (simp add: owners_wf_def list_all2_update_cong)
  ultimately show ?thesis using assms(1) by (simp add: owners_wf_def)
qed

text \<open>
  Once terminalization has detached the queue, a withdrawn operation leaves its entry behind. What
  remains is that a registered operation has its entry, and that a pending one is registered or is
  the one the teardown is deciding.
\<close>

definition detached_wf ::
  "(waiter_id, operation_ref) btree \<Rightarrow> operation_ref option \<Rightarrow> waiter_id option list \<Rightarrow> 'm option list \<Rightarrow> bool" where
  "detached_wf E cur regs pend \<longleftrightarrow>
     bt_wf E \<and> length pend = length regs \<and> (\<forall>i r. bt_get E i = Some r \<longrightarrow> r < length regs) \<and>
     (\<forall>r i. r < length regs \<and> regs ! r = Some i \<longrightarrow> bt_get E i = Some r) \<and>
     (\<forall>r. r < length regs \<and> regs ! r = None \<and> cur \<noteq> Some r \<longrightarrow> pend ! r = None) \<and>
     (\<forall>r. cur = Some r \<longrightarrow> r < length regs)"

lemma detached_wfI: "owners_wf E regs pend \<Longrightarrow> detached_wf E None regs pend"
  by (auto simp: owners_wf_def detached_wf_def registry_iff_def list_all2_conv_all_nth)

lemma detached_wfD:
  assumes "detached_wf E cur regs pend"
  shows "bt_get E i = Some r \<Longrightarrow> r < length regs"
    "r < length regs \<Longrightarrow> regs ! r = Some i \<Longrightarrow> bt_get E i = Some r"
    "r < length regs \<Longrightarrow> regs ! r = None \<Longrightarrow> cur \<noteq> Some r \<Longrightarrow> pend ! r = None"
    "length pend = length regs" "bt_wf E" "cur = Some r \<Longrightarrow> r < length regs"
  using assms unfolding detached_wf_def by blast+

lemma detached_wfI':
  assumes "bt_wf E" "length pend = length regs" "\<And>i r. bt_get E i = Some r \<Longrightarrow> r < length regs"
    "\<And>r i. r < length regs \<Longrightarrow> regs ! r = Some i \<Longrightarrow> bt_get E i = Some r"
    "\<And>r. r < length regs \<Longrightarrow> regs ! r = None \<Longrightarrow> cur \<noteq> Some r \<Longrightarrow> pend ! r = None"
    "\<And>r. cur = Some r \<Longrightarrow> r < length regs"
  shows "detached_wf E cur regs pend"
  unfolding detached_wf_def using assms by blast

lemma detached_pop:
  assumes d: "detached_wf ((i, r) # rest) None regs pend"
  shows "detached_wf rest (Some r) (regs[r := None]) pend"
proof (rule detached_wfI')
  have g: "bt_get rest j = (if j = i then None else bt_get ((i, r) # rest) j)" for j
    using bt_get_remove [of i "(i, r) # rest" j] bt_remove_head [OF detached_wfD(5) [OF d]] by simp
  show "bt_wf rest" using detached_wfD(5) [OF d] by (simp add: bt_wf_def bt_keys_def)
  show "length pend = length (regs[r := None])" by (simp add: detached_wfD(4) [OF d])
  show "r' < length (regs[r := None])" if "bt_get rest j = Some r'" for j r'
  proof -
    have "bt_get ((i, r) # rest) j = Some r'" using that g [of j] by (simp split: if_splits)
    from detached_wfD(1) [OF d this] show ?thesis by simp
  qed
  show "bt_get rest j = Some r'" if "r' < length (regs[r := None])" "(regs[r := None]) ! r' = Some j" for r' j
  proof -
    have "r' \<noteq> r" "regs ! r' = Some j" using that by (cases "r' = r"; simp)+
    from detached_wfD(2) [OF d _ this(2)] that(1) have "bt_get ((i, r) # rest) j = Some r'" by simp
    with \<open>r' \<noteq> r\<close> bt_get_head [of i r rest] show ?thesis unfolding g by (cases "j = i") simp_all
  qed
  show "pend ! r' = None" if "r' < length (regs[r := None])" "(regs[r := None]) ! r' = None" "Some r \<noteq> Some r'" for r'
    using that detached_wfD(3) [OF d, of r'] by simp
  show "r' < length (regs[r := None])" if "Some r = Some r'" for r'
    using detached_wfD(1) [OF d bt_get_head] that by simp
qed

lemma detached_clear:
  assumes d: "detached_wf E cur regs pend"
  shows "detached_wf E cur (regs[r := None]) (pend[r := None])"
proof (rule detached_wfI')
  show "bt_get E i = Some r'" if "r' < length (regs[r := None])" "(regs[r := None]) ! r' = Some i" for r' i
    using that by (cases "r' = r") (simp_all add: detached_wfD(2) [OF d])
  show "(pend[r := None]) ! r' = None"
    if "r' < length (regs[r := None])" "(regs[r := None]) ! r' = None" "cur \<noteq> Some r'" for r'
    using that detached_wfD(3) [OF d, of r'] detached_wfD(4) [OF d] by (cases "r' = r") simp_all
qed (use detached_wfD(1,4-6) [OF d] in simp_all)

lemma detached_decide:
  assumes d: "detached_wf E (Some r) regs pend"
  shows "detached_wf E None regs (pend[r := None])"
proof (rule detached_wfI')
  show "(pend[r := None]) ! r' = None" if "r' < length regs" "regs ! r' = None" for r'
    using that detached_wfD(3) [OF d, of r'] detached_wfD(4) [OF d] by (cases "r' = r") simp_all
  show "bt_get E i = Some r'" if "r' < length regs" "regs ! r' = Some i" for r' i
    using detached_wfD(2) [OF d that] .
  show "r' < length regs" if "bt_get E i = Some r'" for i r'
    using detached_wfD(1) [OF d that] .
qed (use detached_wfD(4,5) [OF d] in simp_all)

section \<open>What a promotion does\<close>

definition op_messages :: "('m, 'w) operation_state \<Rightarrow> 'm list" where
  "op_messages s = (case os_outcome s of Waiting m _ \<Rightarrow> [m] | Terminated m _ \<Rightarrow> [m] | _ \<Rightarrow> [])"

abbreviation mc_regs :: "('m, 'w) mailbox_cell \<Rightarrow> waiter_id option list" where
  "mc_regs c \<equiv> map os_registration (mc_operations c)"

abbreviation mc_pending :: "('m, 'w) mailbox_cell \<Rightarrow> 'm option list" where
  "mc_pending c \<equiv> map op_pending (mc_operations c)"

abbreviation mc_held :: "('m, 'w) mailbox_cell \<Rightarrow> 'm list list" where
  "mc_held c \<equiv> map op_messages (mc_operations c)"

lemma push_accepted_Inr:
  "push_accepted kind m c = Inr c' \<longleftrightarrow>
     (\<exists>n. checked_add_u64 (mc_accepted c) 1 = Some n \<and>
        c' = c\<lparr>mc_accepted := n,
               mc_state := (case kind of
                  ResolvedQueue _ \<Rightarrow> (mc_state c)\<lparr>ms_queue := ms_queue (mc_state c) @
                      [\<lparr>en_message = m, en_accepted_sequence = n\<rparr>]\<rparr>
                | ResolvedLatest \<Rightarrow> (mc_state c)\<lparr>ms_latest := Some \<lparr>en_message = m, en_accepted_sequence = n\<rparr>\<rparr>),
               mc_effects := (case (kind, ms_latest (mc_state c)) of
                  (ResolvedLatest, Some e) \<Rightarrow> (mc_effects c)\<lparr>me_displaced := me_displaced (mc_effects c) @ [e]\<rparr>
                | _ \<Rightarrow> mc_effects c)\<rparr>)"
proof (cases "checked_add_u64 (mc_accepted c) 1")
  case None
  then show ?thesis by (simp add: push_accepted_def atomic_counter_mint_def)
next
  case (Some n)
  then have "n = mc_accepted c + 1" by (simp add: checked_add_u64_Some)
  with Some show ?thesis
    by (cases kind; cases "ms_latest (mc_state c)"; cases c)
      (auto simp: push_accepted_def atomic_counter_mint_def upd_state_def upd_effects_def Let_def)
qed

text \<open>The effect of promoting a pending operation, short of accepting its message.\<close>

definition promoted :: "incarnation \<Rightarrow> operation_ref \<Rightarrow> ('m, 'w) mailbox_cell \<Rightarrow> ('m, 'w) mailbox_cell" where
  "promoted incarnation r c =
     upd_effects (\<lambda>e. e\<lparr>me_wakers := snd (slot_take (os_waker (mc_operations c ! r)) Wake (me_wakers e))\<rparr>)
       (upd_operation r (\<lambda>s. s\<lparr>os_registration := None, os_outcome := Accepted incarnation, os_waker := None\<rparr>) c)"

lemma promote_one_pending:
  assumes "r < length (mc_operations c)" "op_pending (mc_operations c ! r) = Some m"
  shows "promote_one b r c = push_accepted (bd_kind b) m (promoted (bd_incarnation b) r c)"
proof -
  obtain seen where o: "os_outcome (mc_operations c ! r) = Waiting m seen"
    using assms(2) by (auto simp: op_pending_def split: operation_outcome.splits)
  show ?thesis
    using assms(1) o
    by (cases c; cases "os_waker (mc_operations c ! r)")
      (simp_all add: promote_one_def promoted_def Let_def clear_registration_def operation_observe_def
        operation_accept_def slot_take_def upd_operation_def upd_effects_def split_def)
qed

lemma promoted_simps [simp]:
  "mc_state (promoted i r c) = mc_state c" "mc_accepted (promoted i r c) = mc_accepted c"
  "mc_permits (promoted i r c) = mc_permits c" "mc_teardown (promoted i r c) = mc_teardown c"
  "mc_regs (promoted i r c) = (mc_regs c)[r := None]"
  "mc_pending (promoted i r c) = (mc_pending c)[r := None]"
  "mc_held (promoted i r c) = (mc_held c)[r := []]"
  "me_displaced (mc_effects (promoted i r c)) = me_displaced (mc_effects c)"
  "length (mc_operations (promoted i r c)) = length (mc_operations c)"
  by (simp_all add: promoted_def map_update op_pending_def op_messages_def)

lemma push_accepted_frame:
  assumes "push_accepted kind m c = Inr c'"
  shows "mc_operations c' = mc_operations c" "mc_permits c' = mc_permits c" "mc_teardown c' = mc_teardown c"
    "ms_kind (mc_state c') = ms_kind (mc_state c)" "ms_phase (mc_state c') = ms_phase (mc_state c)"
    "ms_waiters (mc_state c') = ms_waiters (mc_state c)" "ms_bind_permit (mc_state c') = ms_bind_permit (mc_state c)"
    "ms_last_bound (mc_state c') = ms_last_bound (mc_state c)"
  using assms by (cases kind; auto simp: push_accepted_Inr)+

section \<open>The mailbox invariant\<close>

definition content_wf :: "'m mailbox_state \<Rightarrow> accepted_sequence \<Rightarrow> bool" where
  "content_wf s accepted \<longleftrightarrow>
     (case ms_kind s of
        None \<Rightarrow> ms_queue s = [] \<and> ms_latest s = None
      | Some (ResolvedQueue capacity) \<Rightarrow> length (ms_queue s) \<le> capacity \<and> ms_latest s = None
      | Some ResolvedLatest \<Rightarrow> ms_queue s = []) \<and>
     sorted_wrt (<) (map en_accepted_sequence (ms_queue s)) \<and>
     (\<forall>e \<in> set (ms_queue s) \<union> set_option (ms_latest s). en_accepted_sequence e \<le> accepted)"

definition waiter_ids_bounded :: "waiter_queue \<Rightarrow> bool" where
  "waiter_ids_bounded q \<longleftrightarrow> (\<forall>i \<in> set (bt_keys (wq_entries q)). i \<le> counter_current (wq_ids q))"

definition open_wf :: "('m, 'w) mailbox_cell \<Rightarrow> bool" where
  "open_wf c \<longleftrightarrow>
     owners_wf (mc_entries c) (mc_regs c) (mc_pending c) \<and> content_wf (mc_state c) (mc_accepted c) \<and>
     waiter_ids_bounded (ms_waiters (mc_state c)) \<and> mc_teardown c = None \<and>
     ms_bind_permit (mc_state c) < length (mc_permits c)"

definition bound_to :: "binding \<Rightarrow> ('m, 'w) mailbox_cell \<Rightarrow> bool" where
  "bound_to b c \<longleftrightarrow>
     ms_kind (mc_state c) = Some (bd_kind b) \<and> ms_last_bound (mc_state c) = Some (bd_incarnation b)"

text \<open>The messages in line: accepted ones in acceptance order, then parked ones in parking order.\<close>

definition line :: "('m, 'w) mailbox_cell \<Rightarrow> 'm list" where
  "line c = map en_message (ms_queue (mc_state c)) @ map (\<lambda>(i, r). the (mc_pending c ! r)) (mc_entries c)"

definition payload_messages :: "'m mailbox_payload \<Rightarrow> 'm list" where
  "payload_messages p = map en_message (mp_queue p) @ map en_message (case mp_latest p of None \<Rightarrow> [] | Some e \<Rightarrow> [e])"

text \<open>Every message the cell is responsible for.\<close>

definition cell_messages :: "('m, 'w) mailbox_cell \<Rightarrow> 'm multiset" where
  "cell_messages c =
     mset (map en_message (ms_queue (mc_state c))) +
     mset (map en_message (case ms_latest (mc_state c) of None \<Rightarrow> [] | Some e \<Rightarrow> [e])) +
     mset (concat (mc_held c)) +
     mset (map en_message (me_displaced (mc_effects c))) +
     (case mc_teardown c of None \<Rightarrow> {#} | Some td \<Rightarrow> mset (payload_messages (td_payload td)))"

lemma held_update:
  "r < length xs \<Longrightarrow> mset (concat (xs[r := ys])) + mset (xs ! r) = mset (concat xs) + mset ys"
  by (induction xs arbitrary: r) (auto split: nat.splits)

lemma content_wf_frame [simp]:
  "content_wf (s\<lparr>ms_waiters := w\<rparr>) a = content_wf s a" "content_wf (s\<lparr>ms_phase := ph\<rparr>) a = content_wf s a"
  "content_wf (s\<lparr>ms_last_bound := l\<rparr>) a = content_wf s a" "content_wf (s\<lparr>ms_bind_permit := p\<rparr>) a = content_wf s a"
  by (auto simp: content_wf_def split: option.splits resolved_mailbox.splits)

lemma content_wf_push:
  assumes "content_wf (mc_state c) (mc_accepted c)" "ms_kind (mc_state c) = Some kind" "\<not> queue_full kind c"
    "push_accepted kind m c = Inr c'"
  shows "content_wf (mc_state c') (mc_accepted c')"
proof -
  obtain n where n: "checked_add_u64 (mc_accepted c) 1 = Some n" and less: "mc_accepted c < n"
    using assms(4) by (auto simp: push_accepted_Inr dest: checked_succ_u64_less)
  have "sorted_wrt (<) (map en_accepted_sequence (ms_queue (mc_state c)) @ [n])"
    using assms(1) less by (force simp: content_wf_def sorted_wrt_append)
  moreover have "en_accepted_sequence e \<le> n" if "en_accepted_sequence e \<le> mc_accepted c" for e :: "'a envelope"
    using that less by simp
  ultimately show ?thesis
    using assms n by (cases kind) (auto simp: push_accepted_Inr content_wf_def queue_full_def)
qed

lemma cell_messages_push:
  assumes "push_accepted kind m c = Inr c'"
  shows "cell_messages c' = cell_messages c + {#m#}"
  using assms
  by (cases kind; cases "ms_latest (mc_state c)") (auto simp: push_accepted_Inr cell_messages_def)

lemma open_wf_push:
  assumes "open_wf c" "ms_kind (mc_state c) = Some kind" "\<not> queue_full kind c" "push_accepted kind m c = Inr c'"
  shows "open_wf c'"
  using assms(1) content_wf_push [OF _ assms(2-4)] push_accepted_frame [OF assms(4)]
  by (simp add: open_wf_def)

lemma line_push:
  assumes "push_accepted (ResolvedQueue n) m c = Inr c'" "mc_entries c = []"
  shows "line c' = line c @ [m]"
  using assms by (auto simp: push_accepted_Inr line_def)

subsection \<open>Promotion keeps the invariant, the line and every message\<close>

definition drop_waiter :: "waiter_queue \<Rightarrow> ('m, 'w) mailbox_cell \<Rightarrow> ('m, 'w) mailbox_cell" where
  "drop_waiter rest c = upd_state (\<lambda>s. s\<lparr>ms_waiters := rest\<rparr>) c"

lemma drop_waiter_simps [simp]:
  "mc_state (drop_waiter rest c) = (mc_state c)\<lparr>ms_waiters := rest\<rparr>"
  "mc_accepted (drop_waiter rest c) = mc_accepted c" "mc_operations (drop_waiter rest c) = mc_operations c"
  "mc_permits (drop_waiter rest c) = mc_permits c" "mc_effects (drop_waiter rest c) = mc_effects c"
  "mc_teardown (drop_waiter rest c) = mc_teardown c"
  by (simp_all add: drop_waiter_def)

lemma line_pending_other:
  assumes "owners_wf ((i, r) # rest) regs pend"
  shows "map (\<lambda>(i, r'). the (pend[r := None] ! r')) rest = map (\<lambda>(i, r'). the (pend ! r')) rest"
proof -
  have wf: "bt_wf ((i, r) # rest)" using assms by (simp add: owners_wf_def)
  have ne: "r' \<noteq> r" if "(j, r') \<in> set rest" for j r'
  proof
    assume r': "r' = r"
    have "bt_get ((i, r) # rest) j = Some r'" using that wf by (simp add: bt_get_Some_iff)
    from owners_registered [OF assms this] owners_registered [OF assms bt_get_head] r' have "j = i" by simp
    with that wf show False by (auto simp: bt_wf_def bt_keys_def)
  qed
  show ?thesis using ne by (force intro!: map_cong)
qed

lemma promote_turn:
  assumes wf: "open_wf c" and kind: "ms_kind (mc_state c) = Some (bd_kind b)"
    and room: "\<not> queue_full (bd_kind b) c" and E: "mc_entries c = (i, r) # rest"
    and p: "promote_one b r (drop_waiter ((ms_waiters (mc_state c))\<lparr>wq_entries := rest\<rparr>) c) = Inr c'"
  shows "open_wf c' \<and> mc_entries c' = rest \<and> cell_messages c' = cell_messages c \<and>
    ms_kind (mc_state c') = ms_kind (mc_state c) \<and> mc_phase c' = mc_phase c \<and>
    ms_last_bound (mc_state c') = ms_last_bound (mc_state c) \<and>
    (\<forall>n. bd_kind b = ResolvedQueue n \<longrightarrow> line c' = line c)"
proof -
  let ?c1 = "drop_waiter ((ms_waiters (mc_state c))\<lparr>wq_entries := rest\<rparr>) c"
  have own: "owners_wf ((i, r) # rest) (mc_regs c) (mc_pending c)" using wf E by (simp add: open_wf_def)
  note reg = owners_registered [OF own bt_get_head]
  then obtain m where r: "r < length (mc_operations c)" "op_pending (mc_operations c ! r) = Some m" by auto
  have held: "mc_held c ! r = [m]"
    using r by (auto simp: op_pending_def op_messages_def split: operation_outcome.splits)
  let ?c2 = "promoted (bd_incarnation b) r ?c1"
  have push: "push_accepted (bd_kind b) m ?c2 = Inr c'"
    using p promote_one_pending [of r ?c1 m b] r by simp
  have c2: "mc_state ?c2 = (mc_state c)\<lparr>ms_waiters := (ms_waiters (mc_state c))\<lparr>wq_entries := rest\<rparr>\<rparr>"
    by simp
  have "owners_wf rest (mc_regs ?c2) (mc_pending ?c2)"
    using owners_remove [OF own bt_get_head] own bt_remove_head [of i r rest]
    by (simp add: owners_wf_def)
  then have wf2: "open_wf ?c2"
    using wf E by (simp add: open_wf_def c2 waiter_ids_bounded_def bt_keys_def)
  have room2: "\<not> queue_full (bd_kind b) ?c2" using room by (simp add: queue_full_def split: resolved_mailbox.splits)
  have kind2: "ms_kind (mc_state ?c2) = Some (bd_kind b)" using kind by (simp add: c2)
  have "cell_messages ?c2 + {#m#} = cell_messages c"
    using held_update [of r "mc_held c" "[]"] r(1) held by (simp add: cell_messages_def c2)
  then have msgs: "cell_messages c' = cell_messages c" using cell_messages_push [OF push] by simp
  have line: "line c' = line c" if q: "bd_kind b = ResolvedQueue n" for n
  proof -
    have "ms_queue (mc_state c') = ms_queue (mc_state c) @ [\<lparr>en_message = m, en_accepted_sequence = mc_accepted c'\<rparr>]"
      using push by (auto simp: push_accepted_Inr q c2)
    moreover have "mc_pending c' = (mc_pending c)[r := None]"
      using push_accepted_frame(1) [OF push] by simp
    moreover have "mc_entries c' = rest" using push_accepted_frame(6) [OF push] by (simp add: c2)
    ultimately show ?thesis
      using E r line_pending_other [OF own] by (simp add: line_def)
  qed
  show ?thesis
    using open_wf_push [OF wf2 kind2 room2 push] msgs line push_accepted_frame [OF push] by (simp add: c2)
qed

lemma promote_waiters_spec:
  "promote_waiters b c = Inr c' \<Longrightarrow> open_wf c \<Longrightarrow> ms_kind (mc_state c) = Some (bd_kind b) \<Longrightarrow>
     open_wf c' \<and> (mc_entries c' \<noteq> [] \<longrightarrow> queue_full (bd_kind b) c') \<and> cell_messages c' = cell_messages c \<and>
     ms_kind (mc_state c') = ms_kind (mc_state c) \<and> mc_phase c' = mc_phase c \<and>
     ms_last_bound (mc_state c') = ms_last_bound (mc_state c) \<and>
     (\<forall>n. bd_kind b = ResolvedQueue n \<longrightarrow> line c' = line c)"
proof (induction b c rule: promote_waiters.induct)
  case (1 b c)
  show ?case
  proof (cases "queue_full (bd_kind b) c \<or> mc_entries c = []")
    case True
    then have "c' = c"
      using "1.prems"(1)
      by (cases "queue_full (bd_kind b) c") (simp_all add: promote_waiters.simps [of b c] pop_first_def)
    with True "1.prems" show ?thesis by auto
  next
    case False
    then obtain i r rest where E: "mc_entries c = (i, r) # rest" by (cases "mc_entries c") auto
    let ?w = "(ms_waiters (mc_state c))\<lparr>wq_entries := rest\<rparr>"
    obtain c1 where p: "promote_one b r (drop_waiter ?w c) = Inr c1" and rec: "promote_waiters b c1 = Inr c'"
      using "1.prems"(1) False E
      by (auto simp: promote_waiters.simps [of b c] pop_first_def run_bind_eq_Inr drop_waiter_def)
    have room: "\<not> queue_full (bd_kind b) c" using False by blast
    note turn = promote_turn [OF "1.prems"(2,3) room E p]
    have "open_wf c' \<and> (mc_entries c' \<noteq> [] \<longrightarrow> queue_full (bd_kind b) c') \<and> cell_messages c' = cell_messages c1 \<and>
      ms_kind (mc_state c') = ms_kind (mc_state c1) \<and> mc_phase c' = mc_phase c1 \<and>
      ms_last_bound (mc_state c') = ms_last_bound (mc_state c1) \<and>
      (\<forall>n. bd_kind b = ResolvedQueue n \<longrightarrow> line c' = line c1)"
      using "1.IH" [OF room, of "Some r" ?w r c1] turn rec p E "1.prems"(3)
      by (simp add: pop_first_def drop_waiter_def)
    with turn show ?thesis by auto
  qed
qed

subsection \<open>Parking\<close>

lemma bt_insert_last: "\<forall>k \<in> set (bt_keys m). k < i \<Longrightarrow> bt_insert i v m = m @ [(i, v)]"
  by (induction m) (auto simp: bt_keys_def)

lemma waiters_park_spec:
  assumes park: "waiters_park m seen c = Inr (r, c')" and wf: "open_wf c"
  shows "open_wf c' \<and> line c' = line c @ [m] \<and> cell_messages c' = cell_messages c + {#m#} \<and>
    mc_entries c' \<noteq> [] \<and> mc_effects c' = mc_effects c \<and>
    mc_state c' = (mc_state c)\<lparr>ms_waiters := ms_waiters (mc_state c')\<rparr>"
proof -
  let ?w = "ms_waiters (mc_state c)" and ?r = "length (mc_operations c)"
  obtain i where i: "counter_successor (counter_current (wq_ids ?w)) = Inr i"
      and c': "c' = upd_state (\<lambda>s. s\<lparr>ms_waiters := \<lparr>wq_entries = bt_insert i ?r (mc_entries c), wq_ids = \<lparr>counter_current = i\<rparr>\<rparr>\<rparr>)
                 (c\<lparr>mc_operations := mc_operations c @ [operation_new m seen (Some i)]\<rparr>)"
    using park by (auto simp: waiters_park_def run_bind_eq_Inr counter_mint_Inr Let_def upd_state_def)
  have less: "counter_current (wq_ids ?w) < i" by (rule counter_successor_less [OF i])
  have own: "owners_wf (mc_entries c) (mc_regs c) (mc_pending c)" using wf by (simp add: open_wf_def)
  have below: "\<forall>k \<in> set (bt_keys (mc_entries c)). k < i"
    using wf less by (auto simp: open_wf_def waiter_ids_bounded_def)
  then have E: "mc_entries c' = mc_entries c @ [(i, ?r)]" by (simp add: c' bt_insert_last)
  have "bt_get (mc_entries c) i = None" using below by (auto simp: bt_get_None_iff)
  from owners_park [OF own this, of m]
  have "owners_wf (mc_entries c') (mc_regs c') (mc_pending c')"
    by (simp add: c' operation_new_def op_pending_def)
  then have wf': "open_wf c'"
    using wf below less by (auto simp: open_wf_def c' waiter_ids_bounded_def)
  have inE: "r' < ?r" if "(j, r') \<in> set (mc_entries c)" for j r'
    using that own owners_registered [OF own, of j r'] by (simp add: bt_get_Some_iff owners_wf_def)
  then have same: "map (\<lambda>(i, r). the (mc_pending c' ! r)) (mc_entries c) = map (\<lambda>(i, r). the (mc_pending c ! r)) (mc_entries c)"
    by (force simp: c' nth_append intro!: map_cong)
  have "the (mc_pending c' ! ?r) = m" by (simp add: c' operation_new_def op_pending_def nth_append)
  with same have "line c' = line c @ [m]" unfolding line_def E by (simp add: c')
  moreover have "cell_messages c' = cell_messages c + {#m#}"
    by (simp add: cell_messages_def c' operation_new_def op_messages_def)
  ultimately show ?thesis using wf' E by (simp add: c')
qed

subsection \<open>Finishing a transaction\<close>

fun action_messages :: "('m, 'w) flush_action \<Rightarrow> 'm list" where
  "action_messages (DisposeDetached es) = map en_message es"
| "action_messages (DropEnvelope e) = [en_message e]"
| "action_messages _ = []"

definition effect_messages :: "('m, 'w) flush_action list \<Rightarrow> 'm multiset" where
  "effect_messages as = mset (concat (map action_messages as))"

lemma effect_messages_simps [simp]:
  "effect_messages [] = {#}" "effect_messages (as @ bs) = effect_messages as + effect_messages bs"
  "effect_messages (map (\<lambda>(waker, action). WakerAction waker action) ws) = {#}"
proof -
  show "effect_messages (map (\<lambda>(waker, action). WakerAction waker action) ws) = {#}"
    by (induction ws) (auto simp: effect_messages_def)
qed (simp_all add: effect_messages_def)

lemma effect_messages_atoms [simp]:
  "effect_messages [Pulse] = {#}" "effect_messages [DisposeDetached es] = mset (map en_message es)"
  "effect_messages (map DropEnvelope es) = mset (map en_message es)"
proof -
  show "effect_messages (map DropEnvelope es) = mset (map en_message es)"
    by (induction es) (simp_all add: effect_messages_def)
qed (simp_all add: effect_messages_def)

lemma flush_messages: "effect_messages (flush e) = mset (map en_message (me_displaced e))"
  by (simp add: flush_def)

lemma txn_finish_messages:
  "txn_finish output c = ((output', effects), c') \<Longrightarrow>
     output' = output \<and> c' = c\<lparr>mc_effects := no_effects\<rparr> \<and>
     cell_messages c = cell_messages c' + effect_messages effects"
  by (auto simp: txn_finish_def cell_messages_def flush_messages no_effects_def)

lemma no_effects_displaced [simp]: "me_displaced no_effects = []"
  by (simp add: no_effects_def)

section \<open>Every operation keeps the invariant and every message\<close>

definition closed_wf :: "incarnation option \<Rightarrow> ('m, 'w) mailbox_cell \<Rightarrow> bool" where
  "closed_wf final c \<longleftrightarrow>
     final = ms_last_bound (mc_state c) \<and> ms_queue (mc_state c) = [] \<and> ms_latest (mc_state c) = None \<and>
     mc_entries c = [] \<and>
     (\<exists>td. mc_teardown c = Some td \<and> td_final td = final \<and>
        detached_wf (wq_entries (td_waiters td)) (td_current td) (mc_regs c) (mc_pending c))"

definition phase_wf :: "('m, 'w) mailbox_cell \<Rightarrow> bool" where
  "phase_wf c \<longleftrightarrow>
     (case mc_phase c of
        Unbound \<Rightarrow> open_wf c \<and> ms_queue (mc_state c) = [] \<and> ms_latest (mc_state c) = None
      | Bound b \<Rightarrow> open_wf c \<and> bound_to b c \<and> (mc_entries c \<noteq> [] \<longrightarrow> queue_full (bd_kind b) c)
      | Frozen b \<Rightarrow> open_wf c \<and> bound_to b c
      | Terminal final \<Rightarrow> closed_wf final c)"

definition cell_wf :: "('m, 'w) mailbox_cell \<Rightarrow> bool" where
  "cell_wf c \<longleftrightarrow> mc_effects c = no_effects \<and> phase_wf c"

lemma wf_effects [simp]:
  "open_wf (c\<lparr>mc_effects := e\<rparr>) = open_wf c" "closed_wf f (c\<lparr>mc_effects := e\<rparr>) = closed_wf f c"
  "bound_to b (c\<lparr>mc_effects := e\<rparr>) = bound_to b c" "queue_full k (c\<lparr>mc_effects := e\<rparr>) = queue_full k c"
  "line (c\<lparr>mc_effects := e\<rparr>) = line c"
  by (simp_all add: open_wf_def closed_wf_def bound_to_def queue_full_def line_def split: resolved_mailbox.splits)

lemma phase_wf_effects [simp]: "phase_wf (c\<lparr>mc_effects := e\<rparr>) = phase_wf c"
  by (auto simp: phase_wf_def split: phase.splits)

lemma pulse_wf [simp]:
  "open_wf (pulse c) = open_wf c" "bound_to b (pulse c) = bound_to b c" "queue_full k (pulse c) = queue_full k c"
  "line (pulse c) = line c" "cell_messages (pulse c) = cell_messages c" "phase_wf (pulse c) = phase_wf c"
  by (simp_all add: pulse_def upd_effects_def cell_messages_def)

lemma pulse_displaced [simp]: "me_displaced (mc_effects (pulse c)) = me_displaced (mc_effects c)"
  by (simp add: pulse_def)

lemma accept_locked_spec:
  assumes acc: "accept_locked b m c = Inr (res, c')" and wf: "open_wf c" and kind: "ms_kind (mc_state c) = Some (bd_kind b)"
  shows "case res of
      Inl m' \<Rightarrow> m' = m \<and> c' = c \<and> (mc_entries c \<noteq> [] \<or> queue_full (bd_kind b) c)
    | Inr inc \<Rightarrow> inc = bd_incarnation b \<and> open_wf c' \<and> mc_entries c' = [] \<and>
        cell_messages c' = cell_messages c + {#m#} \<and> mc_phase c' = mc_phase c \<and>
        ms_kind (mc_state c') = ms_kind (mc_state c) \<and> ms_last_bound (mc_state c') = ms_last_bound (mc_state c) \<and>
        (\<forall>n. bd_kind b = ResolvedQueue n \<longrightarrow> line c' = line c @ [m])"
proof (cases "mc_entries c \<noteq> [] \<or> queue_full (bd_kind b) c")
  case True
  with acc show ?thesis by (auto simp: accept_locked_def split: if_splits)
next
  case False
  then obtain c1 where p: "push_accepted (bd_kind b) m c = Inr c1" and r: "res = Inr (bd_incarnation b)" "c' = pulse c1"
    using acc by (auto simp: accept_locked_def run_bind_eq_Inr)
  have "line c1 = line c @ [m]" if "bd_kind b = ResolvedQueue n" for n
    using line_push [of n m c c1] p that False by simp
  with False open_wf_push [OF wf kind _ p] cell_messages_push [OF p] push_accepted_frame [OF p] show ?thesis
    by (simp add: r)
qed

lemma cell_wf_finish:
  "phase_wf c \<Longrightarrow> txn_finish output c = ((output', effects), c') \<Longrightarrow> cell_wf c'"
  by (auto simp: txn_finish_def cell_wf_def)

lemma queue_full_cong: "ms_queue (mc_state c') = ms_queue (mc_state c) \<Longrightarrow> queue_full k c' = queue_full k c"
  by (simp add: queue_full_def split: resolved_mailbox.splits)

lemma park_phase_wf:
  assumes "waiters_park m seen c = Inr (r, c')" "phase_wf c" "\<forall>f. mc_phase c \<noteq> Terminal f"
    "\<forall>b. mc_phase c = Bound b \<longrightarrow> mc_entries c \<noteq> [] \<or> queue_full (bd_kind b) c"
  shows "phase_wf c' \<and> line c' = line c @ [m] \<and> cell_messages c' = cell_messages c + {#m#} \<and> mc_phase c' = mc_phase c"
proof -
  have wf: "open_wf c" using assms(2,3) by (auto simp: phase_wf_def split: phase.splits)
  note p = waiters_park_spec [OF assms(1) wf]
  then have s: "mc_phase c' = mc_phase c" "ms_queue (mc_state c') = ms_queue (mc_state c)"
    "ms_latest (mc_state c') = ms_latest (mc_state c)" "ms_kind (mc_state c') = ms_kind (mc_state c)"
    "ms_last_bound (mc_state c') = ms_last_bound (mc_state c)"
    by (metis mailbox_state.select_convs mailbox_state.surjective mailbox_state.update_convs(5))+
  have "phase_wf c'"
    using assms(2-4) p queue_full_cong [OF s(2)] unfolding phase_wf_def s bound_to_def
    by (cases "mc_phase c") auto
  with p s show ?thesis by simp
qed

definition submission_messages :: "'m submission \<Rightarrow> 'm multiset" where
  "submission_messages s = (case s of SubmissionTerminated m _ \<Rightarrow> {#m#} | _ \<Rightarrow> {#})"

definition mc_latest_kind :: "('m, 'w) mailbox_cell \<Rightarrow> bool" where
  "mc_latest_kind c \<longleftrightarrow> ms_kind (mc_state c) = Some ResolvedLatest"

text \<open>The part of a submission before its effects run.\<close>

lemma submit_locked_spec:
  assumes wf: "phase_wf c" and r: "submit_locked m c = Inr (sub, c')"
  shows "phase_wf c' \<and> cell_messages c + {#m#} = cell_messages c' + submission_messages sub \<and>
    mc_phase c' = mc_phase c \<and>
    (if \<exists>f. mc_phase c = Terminal f then c' = c
     else \<not> mc_latest_kind c \<longrightarrow> line c' = line c @ [m])"
proof (cases "mc_phase c")
  case (Terminal f)
  with r wf show ?thesis by (auto simp: submit_locked_def submission_messages_def)
next
  case Unbound
  then obtain op where op: "waiters_park m None c = Inr (op, c')" "sub = SubmissionParked op"
    using r by (auto simp: submit_locked_def txn_park_def run_bind_eq_Inr)
  with park_phase_wf [OF op(1) wf] Unbound show ?thesis by (simp add: submission_messages_def)
next
  case (Frozen b)
  then obtain op where op: "waiters_park m (Some (bd_incarnation b)) c = Inr (op, c')" "sub = SubmissionParked op"
    using r by (auto simp: submit_locked_def txn_park_def run_bind_eq_Inr)
  with park_phase_wf [OF op(1) wf] Frozen show ?thesis by (simp add: submission_messages_def)
next
  case (Bound b)
  have o: "open_wf c" "ms_kind (mc_state c) = Some (bd_kind b)"
    using wf Bound by (auto simp: phase_wf_def bound_to_def)
  obtain res c1 where a: "accept_locked b m c = Inr (res, c1)" and k: "(case res of
        Inr incarnation \<Rightarrow> Inr (SubmissionAccepted incarnation, c1)
      | Inl message \<Rightarrow> txn_park message (Some (bd_incarnation b)) c1) = Inr (sub, c')"
    using r Bound by (auto simp: submit_locked_def run_bind_eq_Inr)
  note spec = accept_locked_spec [OF a o]
  show ?thesis
  proof (cases res)
    case (Inl m')
    then obtain op where op: "waiters_park m (Some (bd_incarnation b)) c = Inr (op, c')" "sub = SubmissionParked op"
      using k spec by (auto simp: txn_park_def run_bind_eq_Inr)
    with park_phase_wf [OF op(1) wf] Bound spec Inl show ?thesis by (simp add: submission_messages_def)
  next
    case (Inr inc)
    then have "sub = SubmissionAccepted inc" "c' = c1" using k by auto
    moreover have "line c1 = line c @ [m]" if "\<not> mc_latest_kind c"
      using spec Inr o that by (cases "bd_kind b") (auto simp: mc_latest_kind_def)
    ultimately show ?thesis
      using spec Inr Bound wf by (simp add: submission_messages_def phase_wf_def bound_to_def)
  qed
qed

lemma submit_spec:
  assumes wf: "cell_wf c" and s: "submit m c = Inr ((sub, effects), c')"
  shows "cell_wf c' \<and> cell_messages c + {#m#} = cell_messages c' + submission_messages sub + effect_messages effects \<and>
    mc_phase c' = mc_phase c \<and>
    (if \<exists>f. mc_phase c = Terminal f then c' = c else \<not> mc_latest_kind c \<longrightarrow> line c' = line c @ [m])"
proof -
  obtain c1 where l: "submit_locked m c = Inr (sub, c1)" and f: "txn_finish sub c1 = ((sub, effects), c')"
    using s by (auto simp: submit_def run_bind_eq_Inr txn_finish_def)
  have "phase_wf c" using wf by (simp add: cell_wf_def)
  note l = submit_locked_spec [OF this l]
  have c': "c' = c1\<lparr>mc_effects := no_effects\<rparr>" and m: "cell_messages c1 = cell_messages c' + effect_messages effects"
    using txn_finish_messages [OF f] by auto
  have "c' = c" if "\<exists>f. mc_phase c = Terminal f"
    using that l wf by (simp add: c' cell_wf_def)
  with l m cell_wf_finish [OF _ f] show ?thesis by (auto simp: c' split: if_splits)
qed

text \<open>What every transaction owes: the invariant, and that no message appears or vanishes.\<close>

definition accounts ::
  "('m, 'w) mailbox_cell \<Rightarrow> 'm multiset \<Rightarrow> 'm multiset \<Rightarrow> ('m, 'w) flush_action list \<Rightarrow> ('m, 'w) mailbox_cell \<Rightarrow> bool" where
  "accounts c given returned effects c' \<longleftrightarrow>
     cell_wf c' \<and> cell_messages c + given = cell_messages c' + returned + effect_messages effects"

lemma accounts_finish:
  assumes "txn_finish output c1 = ((output', effects), c')" "phase_wf c1"
    "cell_messages c + given = cell_messages c1 + returned"
  shows "accounts c given returned effects c' \<and> output' = output \<and> c' = c1\<lparr>mc_effects := no_effects\<rparr>"
  using txn_finish_messages [OF assms(1)] cell_wf_finish [OF assms(2,1)] assms(3) by (simp add: accounts_def)

lemma accounts_same: "cell_wf c \<Longrightarrow> accounts c {#} {#} [] c"
  by (simp add: accounts_def)

lemma cell_wf_same [simp]: "cell_wf c \<Longrightarrow> c\<lparr>mc_effects := no_effects\<rparr> = c"
  by (cases c) (simp add: cell_wf_def)

lemma finish_unchanged:
  assumes "cell_wf c" "txn_finish output c = ((output', effects), c')"
  shows "output' = output \<and> c' = c \<and> effect_messages effects = {#}"
  using txn_finish_messages [OF assms(2)] assms(1) by auto

definition try_send_messages :: "'m send_error + incarnation \<Rightarrow> 'm multiset" where
  "try_send_messages r = (case r of Inl e \<Rightarrow> {#se_message e#} | Inr _ \<Rightarrow> {#})"

lemma try_send_locked_spec:
  assumes wf: "phase_wf c" and r: "try_send_locked a m c = Inr (res, c')"
  shows "phase_wf c' \<and> cell_messages c + {#m#} = cell_messages c' + try_send_messages res \<and> mc_phase c' = mc_phase c \<and>
    (case res of
       Inl e \<Rightarrow> c' = c \<and> se_message e = m \<and>
         (case mc_phase c of
            Terminal f \<Rightarrow> se_kind e = SendTerminated \<and> se_incarnation_observed e = f
          | Unbound \<Rightarrow> se_kind e = NotRunning \<and> se_incarnation_observed e = None
          | Frozen b \<Rightarrow> se_kind e = NotRunning \<and> se_incarnation_observed e = Some (bd_incarnation b)
          | Bound b \<Rightarrow> se_kind e = Full \<and> se_incarnation_observed e = Some (bd_incarnation b) \<and> queue_full (bd_kind b) c)
     | Inr inc \<Rightarrow> phase_observation (mc_phase c) = Some inc \<and> (\<not> mc_latest_kind c \<longrightarrow> line c' = line c @ [m]))"
proof (cases "mc_phase c")
  case (Bound b)
  have o: "open_wf c" "ms_kind (mc_state c) = Some (bd_kind b)" "mc_entries c \<noteq> [] \<longrightarrow> queue_full (bd_kind b) c"
    using wf Bound by (auto simp: phase_wf_def bound_to_def)
  obtain acc c1 where a: "accept_locked b m c = Inr (acc, c1)"
    using r Bound by (auto simp: try_send_locked_def run_bind_eq_Inr Let_def)
  note spec = accept_locked_spec [OF a o(1,2)]
  show ?thesis
  proof (cases acc)
    case (Inl m')
    with r a spec Bound o wf show ?thesis
      by (auto simp: try_send_locked_def try_send_messages_def Let_def)
  next
    case (Inr inc)
    have "line c1 = line c @ [m]" if "\<not> mc_latest_kind c"
      using spec Inr o that by (cases "bd_kind b") (auto simp: mc_latest_kind_def)
    with r a spec Bound o wf Inr show ?thesis
      by (simp add: try_send_locked_def try_send_messages_def Let_def phase_wf_def bound_to_def)
        (auto simp: phase_wf_def bound_to_def)
  qed
qed (use wf r in \<open>auto simp: try_send_locked_def try_send_messages_def Let_def\<close>)

lemma try_send_spec:
  assumes wf: "cell_wf c" and s: "try_send a m c = Inr ((res, effects), c')"
  shows "accounts c {#m#} (try_send_messages res) effects c' \<and>
    (case res of Inl _ \<Rightarrow> c' = c | Inr _ \<Rightarrow> mc_phase c' = mc_phase c \<and> (\<not> mc_latest_kind c \<longrightarrow> line c' = line c @ [m]))"
proof -
  obtain c1 where l: "try_send_locked a m c = Inr (res, c1)" and f: "txn_finish res c1 = ((res, effects), c')"
    using s by (auto simp: try_send_def run_bind_eq_Inr txn_finish_def)
  have "phase_wf c" using wf by (simp add: cell_wf_def)
  note l = try_send_locked_spec [OF this l]
  have "cell_messages c + {#m#} = cell_messages c1 + try_send_messages res" "phase_wf c1" using l by blast+
  note a = accounts_finish [OF f this(2,1)]
  then have c': "c' = c1\<lparr>mc_effects := no_effects\<rparr>" by blast
  show ?thesis
  proof (cases res)
    case (Inl e)
    then have "c1 = c" using l by simp
    with a Inl wf show ?thesis by auto
  next
    case (Inr inc)
    with l a c' show ?thesis by simp
  qed
qed

subsection \<open>Receiving\<close>

definition option_messages :: "'m option \<Rightarrow> 'm multiset" where
  "option_messages r = (case r of None \<Rightarrow> {#} | Some m \<Rightarrow> {#m#})"

lemma take_next_spec:
  assumes t: "take_next (bd_kind b) mode (mc_state c) = (Some e, s)" and wf: "open_wf c"
    and kind: "ms_kind (mc_state c) = Some (bd_kind b)"
  shows "open_wf (upd_state (\<lambda>_. s) c) \<and> cell_messages c = cell_messages (upd_state (\<lambda>_. s) c) + {#en_message e#} \<and>
    mode_accepts mode (en_accepted_sequence e) \<and>
    ms_kind s = ms_kind (mc_state c) \<and> ms_phase s = mc_phase c \<and> ms_last_bound s = ms_last_bound (mc_state c) \<and>
    ms_waiters s = ms_waiters (mc_state c) \<and>
    (\<not> mc_latest_kind c \<longrightarrow> line c = en_message e # line (upd_state (\<lambda>_. s) c))"
proof (cases "bd_kind b")
  case (ResolvedQueue n)
  then obtain rest where q: "ms_queue (mc_state c) = e # rest" "s = (mc_state c)\<lparr>ms_queue := rest\<rparr>"
      "mode_accepts mode (en_accepted_sequence e)"
    using t by (auto simp: take_next_def split: list.splits if_splits)
  have "content_wf s (mc_accepted c)"
    using wf kind ResolvedQueue by (auto simp: open_wf_def content_wf_def q)
  with wf q show ?thesis by (simp add: open_wf_def cell_messages_def line_def)
next
  case ResolvedLatest
  then have q: "ms_latest (mc_state c) = Some e" "s = (mc_state c)\<lparr>ms_latest := None\<rparr>"
      "mode_accepts mode (en_accepted_sequence e)"
    using t by (auto simp: take_next_def split: option.splits if_splits)
  have "content_wf s (mc_accepted c)"
    using wf kind ResolvedLatest by (auto simp: open_wf_def content_wf_def q)
  with wf q kind ResolvedLatest show ?thesis by (simp add: open_wf_def cell_messages_def mc_latest_kind_def)
qed

lemma receive_spec:
  assumes wf: "cell_wf c" and s: "receive inc mode c = Inr ((res, effects), c')"
  shows "accounts c {#} (option_messages res) effects c' \<and> mc_phase c' = mc_phase c \<and>
    ms_kind (mc_state c') = ms_kind (mc_state c) \<and>
    (case res of
       None \<Rightarrow> c' = c
     | Some m \<Rightarrow> phase_observation (mc_phase c) = Some inc \<and> (\<not> mc_latest_kind c \<longrightarrow> line c = m # line c'))"
proof (cases res)
  case None
  then have "txn_finish None c = ((None, effects), c')"
    using s by (auto simp: receive_def run_bind_eq_Inr txn_finish_def Let_def
        split: option.splits prod.splits phase.splits if_splits)
  from finish_unchanged [OF wf this] wf None show ?thesis by (simp add: accounts_def option_messages_def)
next
  case (Some m)
  then obtain b live e s1 c2 where src: "(live \<and> mc_phase c = Bound b) \<or> (\<not> live \<and> mc_phase c = Frozen b)"
      "bd_incarnation b = inc"
      and t: "take_next (bd_kind b) mode (mc_state c) = (Some e, s1)"
      and p: "(if live then promote_waiters b (upd_state (\<lambda>_. s1) c) else Inr (upd_state (\<lambda>_. s1) c)) = Inr c2"
      and f: "txn_finish (Some m) c2 = ((Some m, effects), c')" and m: "m = en_message e"
    using s by (auto simp: receive_def run_bind_eq_Inr txn_finish_def Let_def
        split: option.splits prod.splits phase.splits if_splits)
  let ?c1 = "upd_state (\<lambda>_. s1) c"
  have o: "open_wf c" "ms_kind (mc_state c) = Some (bd_kind b)" "bound_to b c"
    using wf src(1) by (auto simp: cell_wf_def phase_wf_def bound_to_def)
  note take = take_next_spec [OF t o(1,2)]
  have spec: "open_wf c2 \<and> cell_messages c2 = cell_messages ?c1 \<and> mc_phase c2 = mc_phase c \<and>
      ms_kind (mc_state c2) = ms_kind (mc_state c) \<and> ms_last_bound (mc_state c2) = ms_last_bound (mc_state c) \<and>
      (live \<and> mc_entries c2 \<noteq> [] \<longrightarrow> queue_full (bd_kind b) c2) \<and> (\<not> mc_latest_kind c \<longrightarrow> line c2 = line ?c1)"
  proof (cases live)
    case True
    then have "promote_waiters b ?c1 = Inr c2" using p by simp
    from promote_waiters_spec [OF this] take o show ?thesis
      by (cases "bd_kind b") (auto simp: mc_latest_kind_def)
  next
    case False
    with p take show ?thesis by auto
  qed
  have "phase_wf c2"
    using src(1) spec o(3) by (auto simp: phase_wf_def bound_to_def)
  moreover have "cell_messages c + {#} = cell_messages c2 + option_messages res"
    using spec take by (simp add: option_messages_def Some m)
  ultimately have "accounts c {#} (option_messages res) effects c' \<and> c' = c2\<lparr>mc_effects := no_effects\<rparr>"
    using accounts_finish [OF f] by blast
  with spec take src show ?thesis by (auto simp: Some m)
qed

subsection \<open>Polling and withdrawing\<close>

lemma map_update_same: "f y = f (xs ! r) \<Longrightarrow> map f (xs[r := y]) = map f xs"
  by (metis list_update_beyond list_update_id map_update not_le_imp_less nth_map)

lemma upd_operation_wf:
  assumes "cell_wf c" "os_registration s = os_registration (mc_operations c ! r)"
    "op_pending s = op_pending (mc_operations c ! r)"
  shows "cell_wf (upd_operation r (\<lambda>_. s) c) \<and> line (upd_operation r (\<lambda>_. s) c) = line c"
proof -
  have same: "mc_regs (upd_operation r (\<lambda>_. s) c) = mc_regs c" "mc_pending (upd_operation r (\<lambda>_. s) c) = mc_pending c"
    using assms(2,3) by (simp_all add: map_update_same)
  have "open_wf (upd_operation r (\<lambda>_. s) c) = open_wf c" "closed_wf f (upd_operation r (\<lambda>_. s) c) = closed_wf f c" for f
    unfolding open_wf_def closed_wf_def same by simp_all
  moreover have "bound_to b (upd_operation r (\<lambda>_. s) c) = bound_to b c"
      "queue_full k (upd_operation r (\<lambda>_. s) c) = queue_full k c" for b k
    by (auto simp: bound_to_def intro!: queue_full_cong)
  moreover have "line (upd_operation r (\<lambda>_. s) c) = line c" unfolding line_def same by simp
  ultimately show ?thesis using assms(1) by (auto simp: cell_wf_def phase_wf_def split: phase.splits)
qed

definition poll_messages :: "'m poll_result \<Rightarrow> 'm multiset" where
  "poll_messages r = (case r of PollTerminated m _ \<Rightarrow> {#m#} | _ \<Rightarrow> {#})"

lemma operation_poll_spec:
  assumes "operation_poll ww replacement current s = Inr (res, wakers, s')"
  shows "os_registration s' = os_registration s \<and> op_pending s' = op_pending s \<and>
    mset (op_messages s) = mset (op_messages s') + poll_messages res"
proof -
  have o: "os_registration s' = os_registration s \<and> op_pending s' = op_pending s \<and>
      mset (op_messages s) = mset (op_messages s') + poll_messages res"
    if "operation_poll_outcome ww current s = Inr (res, w, s')" for w
    using that by (auto simp: operation_poll_outcome_def op_pending_def op_messages_def poll_messages_def
        split: operation_outcome.splits)
  show ?thesis
  proof (cases replacement)
    case None
    with assms o show ?thesis by (simp add: operation_poll_def)
  next
    case (Some w)
    show ?thesis
    proof (cases "\<exists>m seen. os_outcome s = Waiting m seen")
      case True
      with assms Some show ?thesis
        by (auto simp: operation_poll_def slot_replace_def op_pending_def op_messages_def poll_messages_def)
    next
      case False
      then have "operation_poll ww replacement current s =
          run_bind (operation_poll_outcome ww current s)
            (\<lambda>(result, effects, s'). Inr (result, (w, DropInline) # effects, s'))"
        by (auto simp: operation_poll_def Some split: operation_outcome.splits)
      with assms o show ?thesis by (auto simp: run_bind_eq_Inr)
    qed
  qed
qed

lemma cell_messages_upd_operation:
  "r < length (mc_operations c) \<Longrightarrow>
   cell_messages (upd_operation r (\<lambda>_. s) c) + mset (op_messages (mc_operations c ! r)) =
   cell_messages c + mset (op_messages s)"
  using held_update [of r "mc_held c" "op_messages s"]
  by (simp add: cell_messages_def map_update)

definition withdrawal_messages :: "'m withdrawal \<Rightarrow> 'm multiset" where
  "withdrawal_messages w =
     (case wd_outcome w of
        Some (OutWithdrawn m _) \<Rightarrow> {#m#}
      | Some (OutTerminated m _) \<Rightarrow> {#m#}
      | _ \<Rightarrow> {#})"

text \<open>A withdrawal is the retirement of the operation, the removal of its entry, and the end of the transaction.\<close>

definition retire_operation :: "operation_ref \<Rightarrow> ('m, 'w) mailbox_cell \<Rightarrow> ('m, 'w) mailbox_cell" where
  "retire_operation r c =
     upd_operation r (\<lambda>s. s\<lparr>os_outcome := Retired, os_waker := None, os_registration := None\<rparr>) c"

definition remove_entry :: "waiter_id option \<Rightarrow> ('m, 'w) mailbox_cell \<Rightarrow> ('m, 'w) mailbox_cell" where
  "remove_entry reg c =
     (case reg of
        None \<Rightarrow> c
      | Some i \<Rightarrow> drop_waiter ((ms_waiters (mc_state c))\<lparr>wq_entries := bt_remove i (mc_entries c)\<rparr>) c)"

lemma remove_entry_simps [simp]:
  "mc_accepted (remove_entry reg c) = mc_accepted c" "mc_operations (remove_entry reg c) = mc_operations c"
  "mc_permits (remove_entry reg c) = mc_permits c" "mc_effects (remove_entry reg c) = mc_effects c"
  "mc_teardown (remove_entry reg c) = mc_teardown c" "mc_phase (remove_entry reg c) = mc_phase c"
  "ms_kind (mc_state (remove_entry reg c)) = ms_kind (mc_state c)"
  "ms_last_bound (mc_state (remove_entry reg c)) = ms_last_bound (mc_state c)"
  "ms_queue (mc_state (remove_entry reg c)) = ms_queue (mc_state c)"
  "ms_latest (mc_state (remove_entry reg c)) = ms_latest (mc_state c)"
  "ms_bind_permit (mc_state (remove_entry reg c)) = ms_bind_permit (mc_state c)"
  "wq_ids (ms_waiters (mc_state (remove_entry reg c))) = wq_ids (ms_waiters (mc_state c))"
  "mc_entries (remove_entry reg c) = (case reg of None \<Rightarrow> mc_entries c | Some i \<Rightarrow> bt_remove i (mc_entries c))"
  by (cases reg; simp add: remove_entry_def)+

lemma remove_entry_content [simp]: "content_wf (mc_state (remove_entry reg c)) a = content_wf (mc_state c) a"
  by (cases reg) (simp_all add: remove_entry_def)

lemma retire_simps [simp]:
  "mc_state (retire_operation r c) = mc_state c" "mc_accepted (retire_operation r c) = mc_accepted c"
  "mc_permits (retire_operation r c) = mc_permits c" "mc_teardown (retire_operation r c) = mc_teardown c"
  "mc_effects (retire_operation r c) = mc_effects c"
  "mc_regs (retire_operation r c) = (mc_regs c)[r := None]"
  "mc_pending (retire_operation r c) = (mc_pending c)[r := None]"
  "mc_held (retire_operation r c) = (mc_held c)[r := []]"
  by (simp_all add: retire_operation_def map_update op_pending_def op_messages_def)

lemma withdraw_locked:
  assumes "withdraw r disposition c = Inr ((w, effects), c')" "cell_wf c"
  shows "c' = remove_entry (os_registration (mc_operations c ! r)) (retire_operation r c)"
    "effect_messages effects = {#}"
    "wd_outcome w = (case os_outcome (mc_operations c ! r) of
        Waiting m seen \<Rightarrow> Some (OutWithdrawn m (option_or seen (phase_observation (mc_phase c))))
      | Accepted inc \<Rightarrow> Some (OutAccepted inc)
      | Terminated m f \<Rightarrow> Some (OutTerminated m f)
      | Retired \<Rightarrow> None)"
    "wd_detached w \<longleftrightarrow> (\<exists>i. os_registration (mc_operations c ! r) = Some i \<and> bt_get (mc_entries c) i = None)"
proof -
  let ?s = "mc_operations c ! r"
  let ?c2 = "remove_entry (os_registration ?s) (retire_operation r c)"
  have e: "mc_effects ?c2 = no_effects" using assms(2) by (simp add: cell_wf_def)
  then have same: "?c2\<lparr>mc_effects := no_effects\<rparr> = ?c2" by (cases ?c2) simp
  have "flush no_effects = ([] :: ('a, 'b) flush_action list)" by (simp add: flush_def no_effects_def)
  then show "c' = ?c2" "effect_messages effects = {#}"
    "wd_outcome w = (case os_outcome ?s of
        Waiting m seen \<Rightarrow> Some (OutWithdrawn m (option_or seen (phase_observation (mc_phase c))))
      | Accepted inc \<Rightarrow> Some (OutAccepted inc)
      | Terminated m f \<Rightarrow> Some (OutTerminated m f)
      | Retired \<Rightarrow> None)"
    "wd_detached w \<longleftrightarrow> (\<exists>i. os_registration ?s = Some i \<and> bt_get (mc_entries c) i = None)"
    using assms(1) e same
    by (cases "os_registration ?s"; auto simp: withdraw_def Let_def slot_take_def txn_finish_def retire_operation_def
        remove_entry_def drop_waiter_def)+
qed

lemma line_remove:
  assumes own: "owners_wf E regs pend" and i: "bt_get E i = Some r"
  shows "\<exists>xs ys. map (\<lambda>(i, r). the (pend ! r)) E = xs @ the (pend ! r) # ys \<and>
    map (\<lambda>(i, r'). the (pend[r := None] ! r')) (bt_remove i E) = xs @ ys"
proof -
  have wf: "bt_wf E" using own by (simp add: owners_wf_def)
  have "(i, r) \<in> set E" using i wf by (simp add: bt_get_Some_iff)
  then obtain us vs where E: "E = us @ (i, r) # vs" by (auto dest: split_list)
  have ne: "j \<noteq> i \<and> r' \<noteq> r" if "(j, r') \<in> set us \<union> set vs" for j r'
  proof -
    have "j \<noteq> i" using that wf by (auto simp: E bt_wf_def bt_keys_def sorted_wrt_append)
    moreover have "bt_get E j = Some r'" using that wf by (auto simp: bt_get_Some_iff E)
    ultimately show ?thesis using owners_registered [OF own] i by (metis option.inject)
  qed
  have "filter (\<lambda>e. fst e \<noteq> i) us = us" "filter (\<lambda>e. fst e \<noteq> i) vs = vs"
    unfolding filter_id_conv using ne by fastforce+
  then have "bt_remove i E = us @ vs" by (simp add: E bt_remove_def)
  moreover have "map (\<lambda>(i, r'). the (pend[r := None] ! r')) (us @ vs) = map (\<lambda>(i, r'). the (pend ! r')) (us @ vs)"
    using ne by (force intro!: map_cong)
  ultimately show ?thesis
    by (intro exI [of _ "map (\<lambda>(i, r). the (pend ! r)) us"] exI [of _ "map (\<lambda>(i, r). the (pend ! r)) vs"])
      (simp add: E)
qed

lemma retire_open_wf:
  assumes wf: "open_wf c" and r: "r < length (mc_operations c)"
  shows "open_wf (remove_entry (os_registration (mc_operations c ! r)) (retire_operation r c)) \<and>
    (case op_pending (mc_operations c ! r) of
       None \<Rightarrow> line (remove_entry (os_registration (mc_operations c ! r)) (retire_operation r c)) = line c
     | Some m \<Rightarrow> \<exists>xs ys. line c = xs @ m # ys \<and>
         line (remove_entry (os_registration (mc_operations c ! r)) (retire_operation r c)) = xs @ ys)"
proof -
  let ?reg = "os_registration (mc_operations c ! r)"
  let ?c' = "remove_entry ?reg (retire_operation r c)"
  have own: "owners_wf (mc_entries c) (mc_regs c) (mc_pending c)" using wf by (simp add: open_wf_def)
  show ?thesis
  proof (cases ?reg)
    case None
    then have reg: "mc_regs c ! r = None" using r by simp
    have "mc_pending c ! r = None"
      using own reg r by (auto simp: owners_wf_def list_all2_conv_all_nth)
    then have p: "op_pending (mc_operations c ! r) = None" using r by simp
    have "(mc_pending c)[r := None] = mc_pending c" using p r by (metis list_update_id nth_map)
    then have "line ?c' = line c" by (simp add: line_def None)
    moreover have "open_wf ?c'"
      using wf owners_retire [OF own reg] by (simp add: open_wf_def None waiter_ids_bounded_def)
    ultimately show ?thesis by (simp add: p)
  next
    case (Some i)
    then have i: "bt_get (mc_entries c) i = Some r"
      using own r by (simp add: owners_wf_def registry_iff_def)
    obtain m where m: "op_pending (mc_operations c ! r) = Some m"
      using owners_registered [OF own i] r by auto
    obtain xs ys where "map (\<lambda>(i, r). the (mc_pending c ! r)) (mc_entries c) = xs @ m # ys"
        "map (\<lambda>(i, r'). the ((mc_pending c)[r := None] ! r')) (bt_remove i (mc_entries c)) = xs @ ys"
      using line_remove [OF own i] m r by auto
    then have "\<exists>xs ys. line c = xs @ m # ys \<and> line ?c' = xs @ ys"
      by (intro exI [of _ "map en_message (ms_queue (mc_state c)) @ xs"] exI [of _ ys]) (simp add: line_def Some)
    moreover have "open_wf ?c'"
      using wf owners_remove [OF own i] by (simp add: open_wf_def Some waiter_ids_bounded_def)
    ultimately show ?thesis by (simp add: m)
  qed
qed

lemma withdraw_spec:
  assumes wf: "cell_wf c" and r: "r < length (mc_operations c)"
    and w: "withdraw r disposition c = Inr ((w, effects), c')"
  shows "accounts c {#} (withdrawal_messages w) effects c' \<and> mc_phase c' = mc_phase c \<and>
    ms_kind (mc_state c') = ms_kind (mc_state c) \<and>
    (wd_outcome w = None \<longleftrightarrow> os_outcome (mc_operations c ! r) = Retired) \<and>
    (wd_detached w \<longrightarrow> (\<exists>f. mc_phase c = Terminal f)) \<and>
    ((\<forall>f. mc_phase c \<noteq> Terminal f) \<longrightarrow>
      (case op_pending (mc_operations c ! r) of
         None \<Rightarrow> line c' = line c
       | Some m \<Rightarrow> \<exists>xs ys. line c = xs @ m # ys \<and> line c' = xs @ ys))"
proof -
  note l = withdraw_locked [OF w wf]
  have "mset (concat ((mc_held c)[r := []])) + mset (op_messages (mc_operations c ! r)) = mset (concat (mc_held c))"
    using held_update [of r "mc_held c" "[]"] r by simp
  then have "cell_messages c = cell_messages c' + mset (op_messages (mc_operations c ! r))"
    by (simp add: l(1) cell_messages_def)
  moreover have "withdrawal_messages w = mset (op_messages (mc_operations c ! r))"
    by (simp add: withdrawal_messages_def l(3) op_messages_def split: operation_outcome.splits)
  ultimately have msgs: "cell_messages c = cell_messages c' + withdrawal_messages w" by simp
  have eff: "mc_effects c' = no_effects" using wf by (simp add: l(1) cell_wf_def)
  have frame: "mc_phase c' = mc_phase c" "ms_kind (mc_state c') = ms_kind (mc_state c)"
    "wd_outcome w = None \<longleftrightarrow> os_outcome (mc_operations c ! r) = Retired"
    by (simp_all add: l split: operation_outcome.splits)
  show ?thesis
  proof (cases "\<exists>f. mc_phase c = Terminal f")
    case True
    then obtain f td where td: "mc_phase c = Terminal f" "mc_teardown c = Some td" and cw: "closed_wf f c"
      using wf by (auto simp: cell_wf_def phase_wf_def closed_wf_def)
    then have "closed_wf f c'"
      using detached_clear [of "wq_entries (td_waiters td)" "td_current td" "mc_regs c" "mc_pending c" r]
      by (cases "os_registration (mc_operations c ! r)") (auto simp: closed_wf_def l(1) bt_remove_def)
    then have "cell_wf c'" using td(1) eff frame by (simp add: cell_wf_def phase_wf_def)
    with msgs l(2) frame True show ?thesis by (auto simp: accounts_def)
  next
    case False
    then have o: "open_wf c" using wf by (auto simp: cell_wf_def phase_wf_def split: phase.splits)
    note ret = retire_open_wf [OF o r, folded l(1)]
    have "mc_entries c' \<noteq> [] \<longrightarrow> mc_entries c \<noteq> []"
      by (auto simp: l(1) bt_remove_def split: option.splits)
    moreover have "queue_full k c' = queue_full k c" "bound_to b c' = bound_to b c" for k b
      by (auto simp: l(1) bound_to_def intro!: queue_full_cong)
    moreover have "ms_queue (mc_state c') = ms_queue (mc_state c)" "ms_latest (mc_state c') = ms_latest (mc_state c)"
      by (simp_all add: l(1))
    ultimately have "phase_wf c'"
      using False wf ret frame(1) by (auto simp: cell_wf_def phase_wf_def split: phase.splits)
    moreover have "\<not> wd_detached w"
      using o r unfolding l(4) by (auto simp: open_wf_def owners_wf_def registry_iff_def)
    ultimately show ?thesis
      using msgs l(2) frame False ret eff by (simp add: accounts_def cell_wf_def)
  qed
qed

subsection \<open>The binding lifecycle\<close>

lemma operation_observe_simps [simp]:
  "os_registration (operation_observe inc s) = os_registration s" "op_pending (operation_observe inc s) = op_pending s"
  "op_messages (operation_observe inc s) = op_messages s"
  by (auto simp: operation_observe_def op_pending_def op_messages_def split: operation_outcome.splits)

lemma observe_all_fold:
  "mc_regs (fold (\<lambda>(_, r). upd_operation r (operation_observe inc)) es c) = mc_regs c \<and>
   mc_pending (fold (\<lambda>(_, r). upd_operation r (operation_observe inc)) es c) = mc_pending c \<and>
   mc_held (fold (\<lambda>(_, r). upd_operation r (operation_observe inc)) es c) = mc_held c \<and>
   mc_state (fold (\<lambda>(_, r). upd_operation r (operation_observe inc)) es c) = mc_state c \<and>
   mc_accepted (fold (\<lambda>(_, r). upd_operation r (operation_observe inc)) es c) = mc_accepted c \<and>
   mc_permits (fold (\<lambda>(_, r). upd_operation r (operation_observe inc)) es c) = mc_permits c \<and>
   mc_effects (fold (\<lambda>(_, r). upd_operation r (operation_observe inc)) es c) = mc_effects c \<and>
   mc_teardown (fold (\<lambda>(_, r). upd_operation r (operation_observe inc)) es c) = mc_teardown c"
  by (induction es arbitrary: c) (simp_all add: map_update_same split_def)

lemma observe_all_simps [simp]:
  "mc_regs (waiters_observe_all inc c) = mc_regs c" "mc_pending (waiters_observe_all inc c) = mc_pending c"
  "mc_held (waiters_observe_all inc c) = mc_held c" "mc_state (waiters_observe_all inc c) = mc_state c"
  "mc_accepted (waiters_observe_all inc c) = mc_accepted c" "mc_permits (waiters_observe_all inc c) = mc_permits c"
  "mc_effects (waiters_observe_all inc c) = mc_effects c" "mc_teardown (waiters_observe_all inc c) = mc_teardown c"
  using observe_all_fold [of inc "mc_entries c" c] by (simp_all add: waiters_observe_all_def)

lemma bind_spec:
  assumes wf: "cell_wf c" and b: "bind_incarnation token inc c = Inr (((), effects), c')"
  shows "accounts c {#} {#} effects c' \<and> ms_kind (mc_state c') = ms_kind (mc_state c) \<and>
    (if \<exists>f. mc_phase c = Terminal f then c' = c
     else mc_phase c = Unbound \<and> phase_observation (mc_phase c') = Some inc \<and>
       (\<exists>kind. mc_phase c' = Bound \<lparr>bd_incarnation = inc, bd_kind = kind\<rparr>) \<and>
       (\<not> mc_latest_kind c \<longrightarrow> line c' = line c))"
proof (cases "\<exists>f. mc_phase c = Terminal f")
  case True
  then have "txn_finish () c = (((), effects), c')" using b by (auto simp: bind_incarnation_def)
  from finish_unchanged [OF wf this] wf True show ?thesis by (simp add: accounts_def)
next
  case False
  obtain kind permits where ph: "mc_phase c = Unbound" and kind: "ms_kind (mc_state c) = Some kind"
      and tok: "token_claim token (ms_bind_permit (mc_state c)) (mc_permits c) = (True, permits)"
    using b False by (auto simp: bind_incarnation_def split: phase.splits option.splits prod.splits bool.splits)
  let ?b = "\<lparr>bd_incarnation = inc, bd_kind = kind\<rparr>"
  let ?c1 = "upd_state (\<lambda>s. s\<lparr>ms_phase := Bound ?b, ms_last_bound := Some inc\<rparr>) (c\<lparr>mc_permits := permits\<rparr>)"
  let ?c2 = "waiters_observe_all inc ?c1"
  obtain c3 where p: "promote_waiters ?b ?c2 = Inr c3"
      and f: "txn_finish () (upd_effects (\<lambda>e. e\<lparr>me_isolate_displaced := True\<rparr>) (pulse c3)) = (((), effects), c')"
    using b ph kind tok by (auto simp: bind_incarnation_def run_bind_eq_Inr Let_def)
  have o: "open_wf c" using wf ph by (simp add: cell_wf_def phase_wf_def)
  have "length permits = length (mc_permits c)" using tok by (auto simp: token_claim_def split: if_splits)
  with o have o2: "open_wf ?c2" by (simp add: open_wf_def)
  have m2: "cell_messages ?c2 = cell_messages c" by (simp add: cell_messages_def)
  have l2: "line ?c2 = line c" unfolding line_def by simp
  have "ms_kind (mc_state ?c2) = Some (bd_kind ?b)" using kind by simp
  note spec = promote_waiters_spec [OF p o2 this]
  let ?c4 = "upd_effects (\<lambda>e. e\<lparr>me_isolate_displaced := True\<rparr>) (pulse c3)"
  have c4: "?c4 = c3\<lparr>mc_effects := mc_effects ?c4\<rparr>" by (simp add: upd_effects_def pulse_def)
  have pw3: "phase_wf c3" using spec kind by (simp add: phase_wf_def bound_to_def)
  then have pw: "phase_wf ?c4" by (subst c4) simp
  have ms: "cell_messages c + {#} = cell_messages ?c4 + {#}"
    using spec m2 by (simp add: cell_messages_def pulse_def)
  note a = accounts_finish [OF f pw ms]
  then have c': "c' = c3\<lparr>mc_effects := no_effects\<rparr>" by (simp add: upd_effects_def pulse_def)
  have "line c3 = line c" if "\<not> mc_latest_kind c"
    using spec l2 kind that by (cases kind) (auto simp: mc_latest_kind_def)
  with a spec ph kind show ?thesis by (simp add: c')
qed

lemma freeze_spec:
  assumes wf: "cell_wf c" and s: "freeze inc c = Inr (((), effects), c')"
  shows "accounts c {#} {#} effects c' \<and> ms_kind (mc_state c') = ms_kind (mc_state c) \<and> line c' = line c \<and>
    (c' = c \<or> (\<exists>b. mc_phase c = Bound b \<and> bd_incarnation b = inc \<and> mc_phase c' = Frozen b))"
proof (cases "\<exists>b. mc_phase c = Bound b \<and> bd_incarnation b = inc")
  case False
  then have "txn_finish () c = (((), effects), c')" using s by (auto simp: freeze_def split: phase.splits if_splits)
  from finish_unchanged [OF wf this] wf show ?thesis by (auto simp: accounts_def)
next
  case True
  then obtain b where b: "mc_phase c = Bound b" "bd_incarnation b = inc" by blast
  let ?c1 = "pulse (set_phase (Frozen b) c)"
  have f: "txn_finish () ?c1 = (((), effects), c')" using s b by (simp add: freeze_def)
  have "open_wf (set_phase (Frozen b) c)" "bound_to b (set_phase (Frozen b) c)"
    using wf b by (auto simp: cell_wf_def phase_wf_def set_phase_def open_wf_def bound_to_def)
  then have pw: "phase_wf ?c1" by (simp add: phase_wf_def) (simp add: set_phase_def)
  have ms: "cell_messages c + {#} = cell_messages ?c1 + {#}" by (simp add: cell_messages_def set_phase_def)
  from accounts_finish [OF f pw ms] b show ?thesis by (auto simp: set_phase_def line_def)
qed

lemma open_wf_clear:
  assumes "open_wf c"
  shows "open_wf (upd_state (\<lambda>s. s\<lparr>ms_queue := [], ms_latest := None\<rparr>) c)"
proof -
  have "content_wf ((mc_state c)\<lparr>ms_queue := [], ms_latest := None\<rparr>) (mc_accepted c)"
    by (auto simp: content_wf_def split: option.splits resolved_mailbox.splits)
  with assms show ?thesis by (simp add: open_wf_def)
qed

definition close_messages :: "(permit_ref \<times> 'm mailbox_payload) option \<Rightarrow> 'm multiset" where
  "close_messages r = (case r of None \<Rightarrow> {#} | Some (_, payload) \<Rightarrow> mset (payload_messages payload))"

lemma close_spec:
  assumes wf: "cell_wf c" and s: "close inc c = Inr ((res, effects), c')"
  shows "accounts c {#} (close_messages res) effects c' \<and> ms_kind (mc_state c') = ms_kind (mc_state c) \<and>
    (case res of
       None \<Rightarrow> c' = c
     | Some (token, payload) \<Rightarrow>
         phase_observation (mc_phase c) = Some inc \<and> mc_phase c' = Unbound \<and>
         line c = map en_message (mp_queue payload) @ line c')"
proof (cases "phase_observation (mc_phase c) = Some inc")
  case False
  then have f: "txn_finish None c = ((res, effects), c')" using s by (simp add: close_def)
  from finish_unchanged [OF wf f] wf show ?thesis by (auto simp: accounts_def close_messages_def)
next
  case True
  let ?c3 = "upd_state (\<lambda>s. s\<lparr>ms_queue := [], ms_latest := None\<rparr>)
    (upd_state (\<lambda>s. s\<lparr>ms_phase := Unbound, ms_bind_permit := length (mc_permits c)\<rparr>)
      (c\<lparr>mc_permits := mc_permits c @ [False]\<rparr>))"
  let ?pay = "payload_unread (ms_queue (mc_state c)) (ms_latest (mc_state c))"
  have f: "txn_finish (Some (length (mc_permits c), ?pay)) (pulse ?c3) = ((res, effects), c')"
    using s True by (simp add: close_def Let_def reset_bind_permit_def take_payload_def set_phase_def upd_state_def)
  have o: "open_wf c" and td: "mc_teardown c = None"
    using wf True by (auto simp: cell_wf_def phase_wf_def open_wf_def split: phase.splits)
  then have "open_wf (upd_state (\<lambda>s. s\<lparr>ms_phase := Unbound, ms_bind_permit := length (mc_permits c)\<rparr>)
      (c\<lparr>mc_permits := mc_permits c @ [False]\<rparr>))"
    by (simp add: open_wf_def)
  from open_wf_clear [OF this] have pw: "phase_wf (pulse ?c3)" by (simp add: phase_wf_def)
  have ms: "cell_messages c + {#} = cell_messages (pulse ?c3) + close_messages (Some (length (mc_permits c), ?pay))"
    using td by (simp add: cell_messages_def close_messages_def payload_messages_def payload_unread_def)
  have line: "line c = map en_message (mp_queue ?pay) @ line ?c3"
    by (simp add: line_def payload_unread_def)
  from accounts_finish [OF f pw ms] True line show ?thesis by auto
qed

lemma terminate_spec:
  assumes wf: "cell_wf c" and s: "prepare_termination c = Inr ((res, effects), c')"
  shows "accounts c {#} {#} effects c' \<and> ms_kind (mc_state c') = ms_kind (mc_state c) \<and>
    (if \<exists>f. mc_phase c = Terminal f then c' = c \<and> \<not> res
     else res \<and> mc_phase c' = Terminal (ms_last_bound (mc_state c)))"
proof (cases "\<exists>f. mc_phase c = Terminal f")
  case True
  then have f: "txn_finish False c = ((res, effects), c')" using s by (auto simp: prepare_termination_def)
  from finish_unchanged [OF wf f] wf True show ?thesis by (auto simp: accounts_def)
next
  case False
  let ?td = "\<lparr>td_changed = True, td_waiters = ms_waiters (mc_state c), td_current = None, td_final = ms_last_bound (mc_state c),
    td_payload = payload_unread (ms_queue (mc_state c)) (ms_latest (mc_state c))\<rparr>"
  let ?c1 = "(upd_state (\<lambda>s. s\<lparr>ms_phase := Terminal (ms_last_bound s), ms_waiters := waiter_queue_new,
      ms_queue := [], ms_latest := None\<rparr>) c)\<lparr>mc_teardown := Some ?td\<rparr>"
  have f: "txn_finish True ?c1 = ((res, effects), c')"
    using s False by (cases "mc_phase c") (auto simp: prepare_termination_def Let_def take_payload_def set_phase_def upd_state_def)
  have o: "open_wf c" using wf False by (auto simp: cell_wf_def phase_wf_def split: phase.splits)
  have "detached_wf (mc_entries c) None (mc_regs c) (mc_pending c)"
    using o by (auto simp: open_wf_def intro: detached_wfI)
  then have pw: "phase_wf ?c1" by (simp add: phase_wf_def closed_wf_def waiter_queue_new_def)
  have ms: "cell_messages c + {#} = cell_messages ?c1 + {#}"
    using o by (simp add: cell_messages_def open_wf_def payload_messages_def payload_unread_def)
  from accounts_finish [OF f pw ms] False show ?thesis by auto
qed

lemma closed_wf_detached:
  assumes "closed_wf f c" "mc_state c' = mc_state c" "mc_teardown c' = Some td"
    "td_final td = (case mc_teardown c of None \<Rightarrow> None | Some td' \<Rightarrow> td_final td')"
    "detached_wf (wq_entries (td_waiters td)) (td_current td) (mc_regs c') (mc_pending c')"
  shows "closed_wf f c'"
  using assms by (auto simp: closed_wf_def)

lemma termination_turn_spec:
  assumes wf: "cell_wf c" and Some: "mc_teardown c = Some td" and s: "termination_turn td c = Inr ((res, effects), c')"
  shows "accounts c {#} {#} effects c' \<and> mc_state c' = mc_state c"
proof -
  obtain f where cw: "mc_phase c = Terminal f" "closed_wf f c"
    using wf Some by (auto simp: cell_wf_def phase_wf_def open_wf_def closed_wf_def split: phase.splits)
  then have d: "detached_wf (wq_entries (td_waiters td)) (td_current td) (mc_regs c) (mc_pending c)"
    using Some by (simp add: closed_wf_def)
  have eff: "mc_effects c = no_effects" using wf by (simp add: cell_wf_def)
  show ?thesis
  proof (cases "td_current td")
    case cur: (Some r)
    then have r: "r < length (mc_operations c)" using detached_wfD(6) [OF d] by simp
    obtain st wakers where t: "operation_terminate (td_final td) (mc_operations c ! r) = (st, wakers)" by force
    have st: "os_registration st = os_registration (mc_operations c ! r)" "op_pending st = None"
      "op_messages st = op_messages (mc_operations c ! r)"
      using t by (auto simp: operation_terminate_def slot_take_def op_pending_def op_messages_def
          split: operation_outcome.splits)
    let ?td = "td\<lparr>td_current := None, td_payload := (td_payload td)\<lparr>mp_retired := mp_retired (td_payload td) @ [r]\<rparr>\<rparr>"
    have c': "c' = (upd_operation r (\<lambda>_. st) c)\<lparr>mc_teardown := Some ?td\<rparr>"
        "effects = map (\<lambda>(waker, action). WakerAction waker action) wakers"
      using s by (auto simp: termination_turn_def Some cur t)
    have "mc_regs c' = mc_regs c" "mc_held c' = mc_held c"
      using st by (simp_all add: c' map_update_same)
    moreover have "mc_pending c' = (mc_pending c)[r := None]" using st by (simp add: c' map_update)
    ultimately have "detached_wf (wq_entries (td_waiters ?td)) (td_current ?td) (mc_regs c') (mc_pending c')"
        and held: "mc_held c' = mc_held c"
      using detached_decide [of "wq_entries (td_waiters td)" r "mc_regs c" "mc_pending c"] d cur by simp_all
    then have "cell_wf c'" using cw eff Some closed_wf_detached [of f c c' ?td] by (simp add: c' cell_wf_def phase_wf_def)
    moreover have "cell_messages c' = cell_messages c"
      unfolding cell_messages_def held by (simp add: c' Some payload_messages_def)
    ultimately show ?thesis by (simp add: accounts_def c')
  next
    case cur: None
    show ?thesis
    proof (cases "wq_entries (td_waiters td)")
      case Nil
      with s wf Some cur show ?thesis by (auto simp: termination_turn_def accounts_def pop_first_def)
    next
      case (Cons e rest)
      obtain i r where e: "e = (i, r)" by force
      let ?td = "td\<lparr>td_waiters := (td_waiters td)\<lparr>wq_entries := rest\<rparr>, td_current := Some r\<rparr>"
      have c': "c' = (upd_operation r clear_registration c)\<lparr>mc_teardown := Some ?td\<rparr>" "effects = []"
        using s by (auto simp: termination_turn_def Some cur pop_first_def Cons e)
      have "mc_regs c' = (mc_regs c)[r := None]" by (simp add: c' map_update clear_registration_def)
      moreover have "mc_pending c' = mc_pending c" "mc_held c' = mc_held c"
        by (simp_all add: c' map_update_same clear_registration_def op_pending_def op_messages_def)
      ultimately have "detached_wf (wq_entries (td_waiters ?td)) (td_current ?td) (mc_regs c') (mc_pending c')"
          and held: "mc_held c' = mc_held c"
        using detached_pop [of i r rest "mc_regs c" "mc_pending c"] d cur Cons e by simp_all
      then have "cell_wf c'" using cw eff Some closed_wf_detached [of f c c' ?td] by (simp add: c' cell_wf_def phase_wf_def)
      moreover have "cell_messages c' = cell_messages c"
        unfolding cell_messages_def held by (simp add: c' Some)
      ultimately show ?thesis by (simp add: accounts_def c')
    qed
  qed
qed

lemma teardown_spec:
  assumes wf: "cell_wf c" and s: "teardown_step c = Inr ((res, effects), c')"
  shows "accounts c {#} {#} effects c' \<and> mc_state c' = mc_state c"
proof (cases "mc_teardown c")
  case None
  with s wf show ?thesis by (simp add: teardown_step_def accounts_def)
next
  case (Some td)
  show ?thesis
  proof (cases "td_changed td")
    case False
    with s Some have "termination_turn td c = Inr ((res, effects), c')" by (simp add: teardown_step_def)
    with termination_turn_spec [OF wf Some] show ?thesis by blast
  next
    case True
    then have c': "c' = c\<lparr>mc_teardown := Some (td\<lparr>td_changed := False\<rparr>)\<rparr>" "effects = [Pulse]"
      using s Some by (auto simp: teardown_step_def)
    obtain f where "mc_phase c = Terminal f" "closed_wf f c"
      using wf Some by (auto simp: cell_wf_def phase_wf_def open_wf_def closed_wf_def split: phase.splits)
    then have "cell_wf c'"
      using wf Some by (simp add: c' cell_wf_def phase_wf_def closed_wf_def)
    moreover have "cell_messages c' = cell_messages c" by (simp add: c' Some cell_messages_def)
    ultimately show ?thesis by (simp add: accounts_def c')
  qed
qed

end
