(* ===== verification/Mailbox_Order.thy ===== *)
theory Mailbox_Order imports Mailbox_Invariant begin

text \<open>
  Traces of a mailbox cell. A trace starts from \<open>mailbox_new\<close> and interleaves the calls of senders, the
  receiver, the lifecycle owner and the teardown worker in any order. The theory lifts the per-call
  specifications of \<open>Mailbox_Invariant\<close> to traces: conservation of messages, capacity, the
  first-in first-out abstraction, terminalization, live batches and the verdicts of the fail-fast calls.
\<close>

section \<open>Reachable mailboxes\<close>

fun op_input :: "('m, 'w) mailbox_op \<Rightarrow> 'm multiset" where
  "op_input (OpSubmit m) = {#m#}"
| "op_input (OpTrySend _ m) = {#m#}"
| "op_input _ = {#}"

fun result_messages :: "'m mailbox_result \<Rightarrow> 'm multiset" where
  "result_messages (ResSubmit s) = submission_messages s"
| "result_messages (ResTrySend r) = try_send_messages r"
| "result_messages (ResReceive r) = option_messages r"
| "result_messages (ResPoll r) = poll_messages r"
| "result_messages (ResWithdraw w) = withdrawal_messages w"
| "result_messages (ResClose r) = close_messages r"
| "result_messages _ = {#}"

lemma as_result_Inr:
  "as_result f t = Inr ((res, effects), c') \<longleftrightarrow> (\<exists>r. t = Inr ((r, effects), c') \<and> res = f r)"
  by (auto simp: as_result_def run_bind_eq_Inr)

lemma configure_spec:
  assumes wf: "cell_wf c" and s: "configure kind c = Inr ((res, effects), c')"
  shows "accounts c {#} {#} effects c' \<and> line c' = line c \<and> mc_phase c' = mc_phase c \<and>
    ms_kind (mc_state c') = Some kind \<and> (\<forall>k. ms_kind (mc_state c) = Some k \<longrightarrow> k = kind \<and> c' = c)"
proof (cases "ms_kind (mc_state c)")
  case (Some k)
  then have k: "k = kind" and f: "txn_finish (ms_bind_permit (mc_state c)) c = ((res, effects), c')"
    using s by (auto simp: configure_def split: if_splits)
  from finish_unchanged [OF wf f] wf Some k show ?thesis by (auto simp: accounts_def)
next
  case None
  let ?c1 = "upd_state (\<lambda>s. s\<lparr>ms_kind := Some kind\<rparr>) c"
  have f: "txn_finish (ms_bind_permit (mc_state ?c1)) ?c1 = ((res, effects), c')"
    using s None by (simp add: configure_def Let_def)
  have "open_wf ?c1" if "open_wf c"
    using that None by (cases kind) (auto simp: open_wf_def content_wf_def)
  moreover have "\<not> bound_to b c" for b using None by (simp add: bound_to_def)
  ultimately have pw: "phase_wf ?c1"
    using wf by (cases "mc_phase c") (auto simp: cell_wf_def phase_wf_def closed_wf_def)
  have ms: "cell_messages c + {#} = cell_messages ?c1 + {#}" by (simp add: cell_messages_def)
  from accounts_finish [OF f pw ms] None show ?thesis by (auto simp: line_def)
qed

lemma poll_spec:
  assumes wf: "cell_wf c" and r: "r < length (mc_operations c)"
    and p: "operation_poll ww replacement current (mc_operations c ! r) = Inr (res, wakers, s)"
  shows "accounts c {#} (poll_messages res) (map (\<lambda>(waker, action). WakerAction waker action) wakers)
      (upd_operation r (\<lambda>_. s) c) \<and> line (upd_operation r (\<lambda>_. s) c) = line c"
proof -
  note s = operation_poll_spec [OF p]
  have "cell_messages c = cell_messages (upd_operation r (\<lambda>_. s) c) + poll_messages res"
    using cell_messages_upd_operation [OF r, of s] s by simp
  with s upd_operation_wf [OF wf, of s r] show ?thesis by (simp add: accounts_def)
qed

text \<open>One step of a trace.\<close>

lemma mailbox_step_accounts:
  assumes wf: "cell_wf c" and s: "mailbox_step ww c op = Inr ((res, effects), c')"
  shows "accounts c (op_input op) (result_messages res) effects c'"
proof (cases op)
  case (OpSubmit m)
  then obtain r where r: "submit m c = Inr ((r, effects), c')" "res = ResSubmit r" using s by (auto simp: as_result_Inr)
  from submit_spec [OF wf r(1)] r(2) OpSubmit show ?thesis by (simp add: accounts_def)
next
  case (OpTrySend a m)
  then obtain r where r: "try_send a m c = Inr ((r, effects), c')" "res = ResTrySend r" using s by (auto simp: as_result_Inr)
  from try_send_spec [OF wf r(1)] r(2) OpTrySend show ?thesis by simp
next
  case (OpReceive inc mode)
  then obtain r where r: "receive inc mode c = Inr ((r, effects), c')" "res = ResReceive r" using s by (auto simp: as_result_Inr)
  from receive_spec [OF wf r(1)] r(2) OpReceive show ?thesis by simp
next
  case (OpPoll r replacement current)
  then obtain p wakers st where p: "r < length (mc_operations c)" "res = ResPoll p"
      "operation_poll ww replacement current (mc_operations c ! r) = Inr (p, wakers, st)"
      "effects = map (\<lambda>(waker, action). WakerAction waker action) wakers" "c' = upd_operation r (\<lambda>_. st) c"
    using s by (auto simp: run_bind_eq_Inr split: if_splits)
  from poll_spec [OF wf p(1,3)] p(2,4,5) OpPoll show ?thesis by simp
next
  case (OpWithdraw r d)
  then obtain w where w: "r < length (mc_operations c)" "withdraw r d c = Inr ((w, effects), c')" "res = ResWithdraw w"
    using s by (auto simp: as_result_Inr split: if_splits)
  from withdraw_spec [OF wf w(1,2)] w(3) OpWithdraw show ?thesis by simp
next
  case (OpConfigure k)
  then obtain r where r: "configure k c = Inr ((r, effects), c')" "res = ResConfigure r" using s by (auto simp: as_result_Inr)
  from configure_spec [OF wf r(1)] r(2) OpConfigure show ?thesis by simp
next
  case (OpBind token inc)
  then have r: "bind_incarnation token inc c = Inr (((), effects), c')" "res = ResUnit"
    using s by (auto simp: as_result_Inr split: if_splits)
  from bind_spec [OF wf r(1)] r(2) OpBind show ?thesis by simp
next
  case (OpFreeze inc)
  then have r: "freeze inc c = Inr (((), effects), c')" "res = ResUnit" using s by (auto simp: as_result_Inr)
  from freeze_spec [OF wf r(1)] r(2) OpFreeze show ?thesis by simp
next
  case (OpClose inc)
  then obtain r where r: "close inc c = Inr ((r, effects), c')" "res = ResClose r" using s by (auto simp: as_result_Inr)
  from close_spec [OF wf r(1)] r(2) OpClose show ?thesis by simp
next
  case OpTerminate
  then obtain r where r: "prepare_termination c = Inr ((r, effects), c')" "res = ResBool r" using s by (auto simp: as_result_Inr)
  from terminate_spec [OF wf r(1)] r(2) OpTerminate show ?thesis by simp
next
  case OpTeardown
  then obtain r where r: "teardown_step c = Inr ((r, effects), c')" "res = ResBool r" using s by (auto simp: as_result_Inr)
  from teardown_spec [OF wf r(1)] r(2) OpTeardown show ?thesis by simp
qed

definition mailbox_run ::
  "('w \<Rightarrow> 'w \<Rightarrow> bool) \<Rightarrow> ('m, 'w) mailbox_op list \<Rightarrow>
   (('m mailbox_result \<times> ('m, 'w) flush_action list) list \<times> ('m, 'w) mailbox_cell) run" where
  "mailbox_run ww ops = run_ops (mailbox_step ww) mailbox_new ops"

lemma mailbox_new_wf: "cell_wf mailbox_new" "cell_messages mailbox_new = {#}" "line mailbox_new = []"
  by (simp_all add: mailbox_new_def cell_wf_def phase_wf_def open_wf_def owners_Nil content_wf_def
      waiter_ids_bounded_def waiter_queue_new_def cell_messages_def line_def)

lemma mailbox_run_accounts:
  "mailbox_run ww ops = Inr (outs, c) \<Longrightarrow>
   cell_wf c \<and> (\<Sum>op \<leftarrow> ops. op_input op) =
     cell_messages c + (\<Sum>(res, effects) \<leftarrow> outs. result_messages res + effect_messages effects)"
proof (induction ops arbitrary: outs c rule: rev_induct)
  case Nil
  then show ?case using mailbox_new_wf by (simp add: mailbox_run_def)
next
  case (snoc op ops)
  then obtain outs1 c1 res effects where r: "mailbox_run ww ops = Inr (outs1, c1)"
      and s: "mailbox_step ww c1 op = Inr ((res, effects), c)" and o: "outs = outs1 @ [(res, effects)]"
    by (auto simp: mailbox_run_def run_ops_snoc)
  note ih = snoc.IH [OF r]
  have "accounts c1 (op_input op) (result_messages res) effects c"
    by (rule mailbox_step_accounts [OF _ s]) (use ih in blast)
  with ih show ?case by (auto simp: accounts_def o ac_simps)
qed

section \<open>Properties\<close>

text \<open>
  C1: No message is lost or duplicated. Over any interleaving of senders, the receiver, polls,
  withdrawals, binds, closes, terminalization and its teardown, the messages given to a mailbox are
  exactly those it still holds (accepted, parked or awaiting their sender) together with those it
  delivered, handed back, displaced or passed to disposal.
\<close>

theorem mailbox_conserves_messages:
  assumes "mailbox_run ww ops = Inr (outs, c)"
  shows "(\<Sum>op \<leftarrow> ops. op_input op) =
    cell_messages c + (\<Sum>(res, effects) \<leftarrow> outs. result_messages res + effect_messages effects)"
  using mailbox_run_accounts [OF assms] by blast

text \<open>
  C23: A reachable mailbox is within its capacity: a queue never exceeds it, a latest-value mailbox holds
  at most one value, an unbound or terminal mailbox holds nothing unread, and a bound mailbox parks
  senders only while it is full. Accepted sequence numbers increase along the queue and never
  exceed the accepted counter.
\<close>

theorem mailbox_within_capacity:
  assumes "mailbox_run ww ops = Inr (outs, c)"
  shows "(case ms_kind (mc_state c) of
       Some (ResolvedQueue capacity) \<Rightarrow> length (ms_queue (mc_state c)) \<le> capacity \<and> ms_latest (mc_state c) = None
     | _ \<Rightarrow> ms_queue (mc_state c) = []) \<and>
    (case mc_phase c of
       Bound b \<Rightarrow> ms_kind (mc_state c) = Some (bd_kind b) \<and> (mc_entries c \<noteq> [] \<longrightarrow> queue_full (bd_kind b) c)
     | Frozen b \<Rightarrow> ms_kind (mc_state c) = Some (bd_kind b)
     | _ \<Rightarrow> ms_queue (mc_state c) = [] \<and> ms_latest (mc_state c) = None) \<and>
    sorted_wrt (<) (map en_accepted_sequence (ms_queue (mc_state c))) \<and>
    (\<forall>e \<in> set (ms_queue (mc_state c)) \<union> set_option (ms_latest (mc_state c)). en_accepted_sequence e \<le> mc_accepted c)"
proof -
  have wf: "phase_wf c" using mailbox_run_accounts [OF assms] by (simp add: cell_wf_def)
  show ?thesis
  proof (cases "\<exists>f. mc_phase c = Terminal f")
    case True
    with wf show ?thesis by (auto simp: phase_wf_def closed_wf_def split: option.splits resolved_mailbox.splits)
  next
    case False
    then have "content_wf (mc_state c) (mc_accepted c)"
      using wf by (auto simp: phase_wf_def open_wf_def split: phase.splits)
    moreover have "case mc_phase c of
       Bound b \<Rightarrow> ms_kind (mc_state c) = Some (bd_kind b) \<and> (mc_entries c \<noteq> [] \<longrightarrow> queue_full (bd_kind b) c)
     | Frozen b \<Rightarrow> ms_kind (mc_state c) = Some (bd_kind b)
     | _ \<Rightarrow> ms_queue (mc_state c) = [] \<and> ms_latest (mc_state c) = None"
      using wf False by (auto simp: phase_wf_def bound_to_def split: phase.splits)
    ultimately show ?thesis
      by (auto simp: content_wf_def split: option.splits resolved_mailbox.splits)
  qed
qed

subsection \<open>First in, first out\<close>

text \<open>The line of a queue as an abstract machine: what each answered call does to it.\<close>

definition quiet :: "('m, 'w) mailbox_op \<Rightarrow> 'm mailbox_result \<Rightarrow> bool" where
  "quiet op res =
     (case op of
        OpTrySend _ _ \<Rightarrow> \<exists>e. res = ResTrySend (Inl e)
      | OpReceive _ _ \<Rightarrow> res = ResReceive None
      | OpPoll _ _ _ \<Rightarrow> \<exists>p. res = ResPoll p
      | OpWithdraw _ _ \<Rightarrow> \<exists>w. res = ResWithdraw w \<and> (\<forall>m seen. wd_outcome w \<noteq> Some (OutWithdrawn m seen))
      | OpConfigure _ \<Rightarrow> \<exists>t. res = ResConfigure t
      | OpBind _ _ \<Rightarrow> res = ResUnit
      | OpFreeze _ \<Rightarrow> res = ResUnit
      | OpClose _ \<Rightarrow> res = ResClose None
      | OpTeardown \<Rightarrow> \<exists>b. res = ResBool b
      | _ \<Rightarrow> False)"

lemma quiet_simps [simp]:
  "quiet (OpTrySend a m) (ResTrySend (Inl e))" "quiet (OpReceive inc mode) (ResReceive None)"
  "quiet (OpPoll r w1 w2) (ResPoll p)"
  "quiet (OpWithdraw r d) (ResWithdraw w) = (\<forall>m seen. wd_outcome w \<noteq> Some (OutWithdrawn m seen))"
  "quiet (OpConfigure k) (ResConfigure t)" "quiet (OpBind t inc) ResUnit" "quiet (OpFreeze inc) ResUnit"
  "quiet (OpClose inc) (ResClose None)" "quiet OpTeardown (ResBool b)"
  by (simp_all add: quiet_def)

inductive fifo_move :: "'m list \<Rightarrow> ('m, 'w) mailbox_op \<Rightarrow> 'm mailbox_result \<Rightarrow> 'm list \<Rightarrow> bool" where
  accepted: "fifo_move l (OpSubmit m) (ResSubmit (SubmissionAccepted inc)) (l @ [m])"
| parked: "fifo_move l (OpSubmit m) (ResSubmit (SubmissionParked r)) (l @ [m])"
| sent: "fifo_move l (OpTrySend a m) (ResTrySend (Inr inc)) (l @ [m])"
| delivered: "fifo_move (m # l) (OpReceive inc mode) (ResReceive (Some m)) l"
| withdrawn: "wd_outcome w = Some (OutWithdrawn m seen) \<Longrightarrow>
    fifo_move (xs @ m # ys) (OpWithdraw r d) (ResWithdraw w) (xs @ ys)"
| closed: "fifo_move (map en_message (mp_queue p) @ l) (OpClose inc) (ResClose (Some (t, p))) l"
| terminated: "fifo_move l OpTerminate (ResBool True) []"
| unmoved: "quiet op res \<Longrightarrow> fifo_move l op res l"

lemma line_terminal: "cell_wf c \<Longrightarrow> mc_phase c = Terminal f \<Longrightarrow> line c = []"
  by (simp add: cell_wf_def phase_wf_def closed_wf_def line_def)

lemma withdraw_moves:
  assumes wf: "cell_wf c" and live: "\<forall>f. mc_phase c \<noteq> Terminal f" and r: "r < length (mc_operations c)"
    and w: "withdraw r d c = Inr ((w, effects), c')"
  shows "fifo_move (line c) (OpWithdraw r d) (ResWithdraw w) (line c')"
proof (cases "op_pending (mc_operations c ! r)")
  case None
  then have "\<forall>m seen. wd_outcome w \<noteq> Some (OutWithdrawn m seen)"
    using withdraw_locked(3) [OF w wf] by (auto simp: op_pending_def split: operation_outcome.splits)
  with None live withdraw_spec [OF wf r w] show ?thesis by (auto intro: fifo_move.unmoved)
next
  case (Some m)
  then obtain seen where "wd_outcome w = Some (OutWithdrawn m seen)"
    using withdraw_locked(3) [OF w wf] by (auto simp: op_pending_def split: operation_outcome.splits)
  with Some live withdraw_spec [OF wf r w] show ?thesis by (auto intro: fifo_move.withdrawn)
qed

lemma submit_not_terminated:
  assumes "submit m c = Inr ((sub, effects), c')" "\<forall>f. mc_phase c \<noteq> Terminal f"
  shows "\<forall>m f. sub \<noteq> SubmissionTerminated m f"
proof (cases "mc_phase c")
  case (Bound b)
  then obtain acc c1 c2 where a: "accept_locked b m c = Inr (acc, c1)" "submit_locked m c = Inr (sub, c2)"
    using assms(1) by (auto simp: submit_def submit_locked_def run_bind_eq_Inr txn_finish_def)
  with Bound show ?thesis
    by (cases acc) (auto simp: submit_locked_def txn_park_def run_bind_eq_Inr)
qed (use assms in \<open>auto simp: submit_def submit_locked_def txn_park_def run_bind_eq_Inr txn_finish_def\<close>)

lemma mailbox_step_moves:
  assumes wf: "cell_wf c" and s: "mailbox_step ww c op = Inr ((res, effects), c')"
    and live: "\<forall>f. mc_phase c \<noteq> Terminal f" and kind: "\<not> mc_latest_kind c"
  shows "fifo_move (line c) op res (line c')"
proof (cases op)
  case (OpSubmit m)
  then obtain sub where sub: "submit m c = Inr ((sub, effects), c')" "res = ResSubmit sub"
    using s by (auto simp: as_result_Inr)
  have "\<forall>m f. sub \<noteq> SubmissionTerminated m f"
    by (rule submit_not_terminated [OF sub(1) live])
  with submit_spec [OF wf sub(1)] live kind sub(2) OpSubmit show ?thesis
    by (cases sub) (auto intro: fifo_move.intros)
next
  case (OpTrySend a m)
  then obtain r where r: "try_send a m c = Inr ((r, effects), c')" "res = ResTrySend r"
    using s by (auto simp: as_result_Inr)
  with try_send_spec [OF wf r(1)] kind OpTrySend show ?thesis
    by (cases r) (auto intro: fifo_move.intros)
next
  case (OpReceive inc mode)
  then obtain r where r: "receive inc mode c = Inr ((r, effects), c')" "res = ResReceive r"
    using s by (auto simp: as_result_Inr)
  with receive_spec [OF wf r(1)] kind OpReceive show ?thesis
    by (cases r) (auto intro: fifo_move.intros)
next
  case (OpPoll r replacement current)
  then obtain p wakers st where "r < length (mc_operations c)" "res = ResPoll p"
      "operation_poll ww replacement current (mc_operations c ! r) = Inr (p, wakers, st)"
      "c' = upd_operation r (\<lambda>_. st) c"
    using s by (auto simp: run_bind_eq_Inr split: if_splits)
  with poll_spec [OF wf] OpPoll show ?thesis by (simp add: fifo_move.unmoved)
next
  case (OpWithdraw r d)
  then obtain w where w: "r < length (mc_operations c)" "withdraw r d c = Inr ((w, effects), c')" "res = ResWithdraw w"
    using s by (auto simp: as_result_Inr split: if_splits)
  from withdraw_moves [OF wf live w(1,2)] w(3) OpWithdraw show ?thesis by simp
next
  case (OpConfigure k)
  then obtain r where r: "configure k c = Inr ((r, effects), c')" "res = ResConfigure r"
    using s by (auto simp: as_result_Inr)
  from configure_spec [OF wf r(1)] r(2) OpConfigure show ?thesis by (simp add: fifo_move.unmoved)
next
  case (OpBind token inc)
  then have b: "bind_incarnation token inc c = Inr (((), effects), c')" "res = ResUnit"
    using s by (auto simp: as_result_Inr split: if_splits)
  from bind_spec [OF wf b(1)] live kind have "line c' = line c" by auto
  with b(2) OpBind show ?thesis by (simp add: fifo_move.unmoved)
next
  case (OpFreeze inc)
  then have f: "freeze inc c = Inr (((), effects), c')" "res = ResUnit"
    using s by (auto simp: as_result_Inr)
  from freeze_spec [OF wf f(1)] f(2) OpFreeze show ?thesis by (simp add: fifo_move.unmoved)
next
  case (OpClose inc)
  then obtain r where r: "close inc c = Inr ((r, effects), c')" "res = ResClose r"
    using s by (auto simp: as_result_Inr)
  with close_spec [OF wf r(1)] OpClose show ?thesis
    by (cases r) (auto intro: fifo_move.intros)
next
  case OpTerminate
  then obtain r where r: "prepare_termination c = Inr ((r, effects), c')" "res = ResBool r"
    using s by (auto simp: as_result_Inr)
  with terminate_spec [OF wf r(1)] live have "r" "\<exists>f. mc_phase c' = Terminal f" "cell_wf c'"
    by (auto simp: accounts_def)
  then have "line c' = []" using line_terminal by blast
  then show ?thesis using r(2) \<open>r\<close> OpTerminate by (simp add: fifo_move.terminated)
next
  case OpTeardown
  then obtain r where r: "teardown_step c = Inr ((r, effects), c')" "res = ResBool r"
    using s by (auto simp: as_result_Inr)
  have "mc_teardown c = None" using wf live by (auto simp: cell_wf_def phase_wf_def open_wf_def split: phase.splits)
  with r OpTeardown show ?thesis by (auto simp: termination_turn_def teardown_step_def intro: fifo_move.unmoved)
qed

text \<open>
  C2: A queue mailbox is a first-in first-out line. Its line is the accepted messages followed by the
  parked ones. Every accepted or parked submission joins at the end, a receive takes the head, a
  withdrawal removes just the withdrawn message, a close removes just the unread ones, and no
  other call, a bind or a promotion of parked senders included, moves anything. So no sender
  overtakes another across backpressure and restarts.
\<close>

theorem mailbox_refines_fifo:
  assumes "mailbox_run ww ops = Inr (outs, c)" "mailbox_step ww c op = Inr ((res, effects), c')"
    "ms_kind (mc_state c) \<noteq> Some ResolvedLatest" "\<forall>f. mc_phase c \<noteq> Terminal f"
  shows "fifo_move (line c) op res (line c')"
proof -
  have "cell_wf c" using mailbox_run_accounts [OF assms(1)] by blast
  from mailbox_step_moves [OF this assms(2,4)] assms(3) show ?thesis
    by (simp add: mc_latest_kind_def)
qed

subsection \<open>Terminality\<close>

definition td_work :: "('m, 'w) mailbox_cell \<Rightarrow> nat" where
  "td_work c =
     (case mc_teardown c of
        None \<Rightarrow> 0
      | Some td \<Rightarrow> (if td_changed td then 1 else 0) + 2 * length (wq_entries (td_waiters td)) +
          (case td_current td of None \<Rightarrow> 0 | Some _ \<Rightarrow> 1))"

lemma finish_eq: "cell_wf c \<Longrightarrow> txn_finish output c = ((output, flush no_effects), c)"
  by (simp add: txn_finish_def) (simp add: cell_wf_def)

lemma terminal_results:
  assumes wf: "cell_wf c" and t: "mc_phase c = Terminal f"
  shows "submit m c = Inr ((SubmissionTerminated m f, flush no_effects), c)"
    "try_send a m c = Inr ((Inl \<lparr>se_actor_id = a, se_incarnation_observed = f, se_message = m, se_kind = SendTerminated\<rparr>,
       flush no_effects), c)"
    "receive inc mode c = Inr ((None, flush no_effects), c)"
    "bind_incarnation token inc c = Inr (((), flush no_effects), c)"
    "freeze inc c = Inr (((), flush no_effects), c)"
    "close inc c = Inr ((None, flush no_effects), c)"
    "prepare_termination c = Inr ((False, flush no_effects), c)"
  using wf t
  by (simp_all add: submit_def submit_locked_def try_send_def try_send_locked_def receive_def
      bind_incarnation_def freeze_def close_def prepare_termination_def finish_eq)

lemma terminal_step:
  assumes wf: "cell_wf c" and t: "mc_phase c = Terminal f" and s: "mailbox_step ww c op = Inr ((res, effects), c')"
  shows "mc_phase c' = Terminal f \<and> mc_accepted c' = mc_accepted c \<and>
    td_work c' = td_work c - (if op = OpTeardown then 1 else 0)"
proof (cases op)
  case (OpWithdraw r d)
  then obtain w where w: "withdraw r d c = Inr ((w, effects), c')"
    using s by (auto simp: as_result_Inr split: if_splits)
  from withdraw_locked(1) [OF w wf] t OpWithdraw show ?thesis by (simp add: td_work_def)
next
  case (OpPoll r replacement current)
  with s t show ?thesis by (auto simp: run_bind_eq_Inr td_work_def split: if_splits)
next
  case (OpConfigure k)
  with s t show ?thesis
    by (auto simp: as_result_Inr configure_def txn_finish_def Let_def td_work_def split: option.splits if_splits)
next
  case OpTeardown
  then obtain r where r: "teardown_step c = Inr ((r, effects), c')" using s by (auto simp: as_result_Inr)
  obtain td where td: "mc_teardown c = Some td" using wf t by (auto simp: cell_wf_def phase_wf_def closed_wf_def)
  show ?thesis
  proof (cases "td_current td")
    case None
    with r t td OpTeardown show ?thesis
      by (cases "wq_entries (td_waiters td)") (auto simp: termination_turn_def teardown_step_def td_work_def pop_first_def split: if_splits)
  next
    case (Some r0)
    with r t td OpTeardown show ?thesis by (auto simp: termination_turn_def teardown_step_def td_work_def split: prod.splits if_splits)
  qed
qed (use s t terminal_results [OF wf t] in \<open>auto simp: as_result_def split: if_splits\<close>)

lemma terminal_run:
  assumes "cell_wf c" "mc_phase c = Terminal f" "run_ops (mailbox_step ww) c ops = Inr (outs, c')"
  shows "cell_wf c' \<and> mc_phase c' = Terminal f \<and> mc_accepted c' = mc_accepted c \<and>
    td_work c' = td_work c - count_list ops OpTeardown"
  using assms(3)
proof (induction ops arbitrary: outs c' rule: rev_induct)
  case Nil
  with assms show ?case by simp
next
  case (snoc op ops)
  then obtain outs1 c1 res effects where r: "run_ops (mailbox_step ww) c ops = Inr (outs1, c1)"
      and s: "mailbox_step ww c1 op = Inr ((res, effects), c')"
    by (auto simp: run_ops_snoc)
  note ih = snoc.IH [OF r]
  have "cell_wf c'" using mailbox_step_accounts [OF _ s] ih by (auto simp: accounts_def)
  moreover have "mc_phase c' = Terminal f \<and> mc_accepted c' = mc_accepted c1 \<and>
    td_work c' = td_work c1 - (if op = OpTeardown then 1 else 0)"
    by (rule terminal_step [OF _ _ s]) (use ih in blast)+
  ultimately show ?case using ih by auto
qed

lemma teardown_done:
  assumes "cell_wf c" "mc_phase c = Terminal f" "td_work c = 0" "r < length (mc_operations c)"
  shows "op_pending (mc_operations c ! r) = None"
proof -
  obtain td where td: "mc_teardown c = Some td"
      "detached_wf (wq_entries (td_waiters td)) (td_current td) (mc_regs c) (mc_pending c)"
    using assms(1,2) by (auto simp: cell_wf_def phase_wf_def closed_wf_def)
  have e: "wq_entries (td_waiters td) = []" "td_current td = None"
    using assms(3) td(1) by (auto simp: td_work_def split: option.splits)
  have "mc_regs c ! r = None"
    using detached_wfD(2) [OF td(2), of r] assms(4) e by (cases "mc_regs c ! r") auto
  then show ?thesis using detached_wfD(3) [OF td(2), of r] assms(4) e by simp
qed

text \<open>
  C10: Terminalization is final and answers every sender. Once a mailbox is terminal it stays terminal
  with the same final incarnation and accepts nothing more: every later submission is handed its
  message back. After as many teardown steps as terminalization left work for, with any other
  calls interleaved, no send operation is still waiting.
\<close>

theorem terminal_mailbox_answers_senders:
  assumes "mailbox_run ww ops = Inr (outs, c)" "mc_phase c = Terminal f"
    "run_ops (mailbox_step ww) c ops' = Inr (outs', c')"
  shows "mc_phase c' = Terminal f \<and> mc_accepted c' = mc_accepted c \<and>
    submit m c' = Inr ((SubmissionTerminated m f, []), c') \<and>
    (td_work c \<le> count_list ops' OpTeardown \<longrightarrow>
       (\<forall>s \<in> set (mc_operations c'). op_pending s = None))"
proof -
  have wf: "cell_wf c" using mailbox_run_accounts [OF assms(1)] by blast
  note r = terminal_run [OF wf assms(2,3)]
  have "flush no_effects = ([] :: ('a, 'b) flush_action list)" by (simp add: flush_def no_effects_def)
  then have "submit m c' = Inr ((SubmissionTerminated m f, []), c')"
    using terminal_results(1) [of c' f m] r by simp
  moreover have "op_pending s = None" if "td_work c \<le> count_list ops' OpTeardown" "s \<in> set (mc_operations c')" for s
    using that teardown_done [of c' f] r by (auto simp: in_set_conv_nth)
  ultimately show ?thesis using r by blast
qed

subsection \<open>Bounded receive batches\<close>

definition envelopes :: "('m, 'w) mailbox_cell \<Rightarrow> 'm envelope list" where
  "envelopes c = ms_queue (mc_state c) @ (case ms_latest (mc_state c) of None \<Rightarrow> [] | Some e \<Rightarrow> [e])"

text \<open>How many unread envelopes were accepted no later than a limit.\<close>

definition unread_through :: "accepted_sequence \<Rightarrow> ('m, 'w) mailbox_cell \<Rightarrow> nat" where
  "unread_through limit c = length (filter (\<lambda>e. en_accepted_sequence e \<le> limit) (envelopes c))"

definition advances :: "accepted_sequence \<Rightarrow> ('m, 'w) mailbox_cell \<Rightarrow> ('m, 'w) mailbox_cell \<Rightarrow> bool" where
  "advances limit c c' \<longleftrightarrow>
     (limit \<le> mc_accepted c \<longrightarrow> mc_accepted c \<le> mc_accepted c' \<and> unread_through limit c' \<le> unread_through limit c)"

lemma advances_refl: "advances limit c c"
  by (simp add: advances_def)

lemma advances_trans: "advances limit a b \<Longrightarrow> advances limit b c \<Longrightarrow> advances limit a c"
  by (auto simp: advances_def)

lemma advances_same: "envelopes c' = envelopes c \<Longrightarrow> mc_accepted c' = mc_accepted c \<Longrightarrow> advances limit c c'"
  by (simp add: advances_def unread_through_def)

lemma advances_push:
  assumes "push_accepted kind m c = Inr c'"
  shows "advances limit c c'"
proof -
  obtain n where n: "checked_add_u64 (mc_accepted c) 1 = Some n" and less: "mc_accepted c < n"
    using assms by (auto simp: push_accepted_Inr dest: checked_succ_u64_less)
  have "\<not> n \<le> limit" if "limit \<le> mc_accepted c" using that less by simp
  moreover have "mc_accepted c' = n" "envelopes c' =
      (case kind of
         ResolvedQueue _ \<Rightarrow> ms_queue (mc_state c) @ [\<lparr>en_message = m, en_accepted_sequence = n\<rparr>] @
           (case ms_latest (mc_state c) of None \<Rightarrow> [] | Some e \<Rightarrow> [e])
       | ResolvedLatest \<Rightarrow> ms_queue (mc_state c) @ [\<lparr>en_message = m, en_accepted_sequence = n\<rparr>])"
    using assms n by (cases kind; auto simp: push_accepted_Inr envelopes_def)+
  ultimately show ?thesis
    using less by (cases kind) (simp_all add: advances_def unread_through_def envelopes_def less_imp_le)
qed

lemma advances_promote:
  "promote_waiters b c = Inr c' \<Longrightarrow> open_wf c \<Longrightarrow> ms_kind (mc_state c) = Some (bd_kind b) \<Longrightarrow> advances limit c c'"
proof (induction b c rule: promote_waiters.induct)
  case (1 b c)
  show ?case
  proof (cases "queue_full (bd_kind b) c \<or> mc_entries c = []")
    case True
    then have "c' = c"
      using "1.prems"(1)
      by (cases "queue_full (bd_kind b) c") (simp_all add: promote_waiters.simps [of b c] pop_first_def)
    then show ?thesis by (simp add: advances_refl)
  next
    case False
    then obtain i r rest where E: "mc_entries c = (i, r) # rest" by (cases "mc_entries c") auto
    let ?w = "(ms_waiters (mc_state c))\<lparr>wq_entries := rest\<rparr>"
    obtain c1 where p: "promote_one b r (drop_waiter ?w c) = Inr c1" and rec: "promote_waiters b c1 = Inr c'"
      using "1.prems"(1) False E
      by (auto simp: promote_waiters.simps [of b c] pop_first_def run_bind_eq_Inr drop_waiter_def)
    have room: "\<not> queue_full (bd_kind b) c" using False by blast
    note turn = promote_turn [OF "1.prems"(2,3) room E p]
    have own: "owners_wf (mc_entries c) (mc_regs c) (mc_pending c)" using "1.prems"(2) by (simp add: open_wf_def)
    obtain m where m: "r < length (mc_operations c)" "op_pending (mc_operations c ! r) = Some m"
      using owners_registered [OF own, of i r] E bt_get_head [of i r rest] by auto
    then have "push_accepted (bd_kind b) m (promoted (bd_incarnation b) r (drop_waiter ?w c)) = Inr c1"
      using p promote_one_pending [of r "drop_waiter ?w c" m b] by simp
    from advances_push [OF this] have "advances limit c c1"
      by (rule advances_trans [OF advances_same, rotated 2]) (simp_all add: envelopes_def)
    moreover have "advances limit c1 c'"
      using "1.IH" [OF room, of "Some r" ?w r c1] turn rec p E "1.prems"(3)
      by (simp add: pop_first_def drop_waiter_def)
    ultimately show ?thesis by (rule advances_trans)
  qed
qed

lemma advances_effects [simp]: "advances limit a (c\<lparr>mc_effects := e\<rparr>) = advances limit a c"
  by (simp add: advances_def unread_through_def envelopes_def)

lemma receive_advances:
  assumes wf: "cell_wf c" and s: "receive inc mode c = Inr ((res, effects), c')" and l: "limit \<le> mc_accepted c"
  shows "mc_accepted c \<le> mc_accepted c' \<and> unread_through limit c' \<le> unread_through limit c \<and>
    (mode = LiveThrough limit \<and> res \<noteq> None \<longrightarrow> unread_through limit c' < unread_through limit c)"
proof (cases res)
  case None
  with receive_spec [OF wf s] show ?thesis by simp
next
  case (Some m)
  then obtain b live e s1 c2 where src: "(live \<and> mc_phase c = Bound b) \<or> (\<not> live \<and> mc_phase c = Frozen b)"
      and t: "take_next (bd_kind b) mode (mc_state c) = (Some e, s1)"
      and p: "(if live then promote_waiters b (upd_state (\<lambda>_. s1) c) else Inr (upd_state (\<lambda>_. s1) c)) = Inr c2"
      and f: "c' = c2\<lparr>mc_effects := no_effects\<rparr>"
    using s by (auto simp: receive_def run_bind_eq_Inr txn_finish_def Let_def
        split: option.splits prod.splits phase.splits if_splits)
  let ?c1 = "upd_state (\<lambda>_. s1) c"
  have o: "open_wf c" "ms_kind (mc_state c) = Some (bd_kind b)"
    using wf src by (auto simp: cell_wf_def phase_wf_def bound_to_def)
  note take = take_next_spec [OF t o]
  have "advances limit ?c1 c2"
  proof (cases live)
    case True
    then have "promote_waiters b ?c1 = Inr c2" using p by simp
    from advances_promote [OF this] take o show ?thesis by simp
  next
    case False
    with p show ?thesis by (simp add: advances_refl)
  qed
  moreover have "unread_through limit c =
      unread_through limit ?c1 + (if en_accepted_sequence e \<le> limit then 1 else 0)"
    using t o(2) wf o(1)
    by (cases "bd_kind b") (auto simp: take_next_def unread_through_def envelopes_def open_wf_def content_wf_def
        split: list.splits option.splits if_splits)
  moreover have "en_accepted_sequence e \<le> limit" if "mode = LiveThrough limit" using take that by simp
  ultimately show ?thesis using l by (auto simp: f advances_def unread_through_def envelopes_def)
qed

lemma advances_park: "waiters_park m seen c = Inr (r, c') \<Longrightarrow> advances limit c c'"
  by (rule advances_same) (auto simp: waiters_park_def run_bind_eq_Inr Let_def envelopes_def)

lemma advances_accept: "accept_locked b m c = Inr (res, c') \<Longrightarrow> advances limit c c'"
proof -
  assume a: "accept_locked b m c = Inr (res, c')"
  show "advances limit c c'"
  proof (cases "c' = c")
    case False
    then obtain c1 where "push_accepted (bd_kind b) m c = Inr c1" "c' = pulse c1"
      using a by (auto simp: accept_locked_def run_bind_eq_Inr split: if_splits)
    with advances_push [of "bd_kind b" m c c1 limit] show ?thesis
      by (simp add: advances_def unread_through_def envelopes_def)
  qed (simp add: advances_refl)
qed

lemma advances_submit:
  assumes "submit m c = Inr ((sub, effects), c')"
  shows "advances limit c c'"
proof -
  obtain c1 where l: "submit_locked m c = Inr (sub, c1)" and c': "c' = c1\<lparr>mc_effects := no_effects\<rparr>"
    using assms by (auto simp: submit_def run_bind_eq_Inr txn_finish_def)
  have "advances limit c c1"
  proof (cases "mc_phase c")
    case (Bound b)
    then obtain acc c2 where a: "accept_locked b m c = Inr (acc, c2)" and k: "(case acc of
        Inr incarnation \<Rightarrow> Inr (SubmissionAccepted incarnation, c2)
      | Inl message \<Rightarrow> txn_park message (Some (bd_incarnation b)) c2) = Inr (sub, c1)"
      using l by (auto simp: submit_locked_def run_bind_eq_Inr)
    have "advances limit c2 c1"
      using k by (cases acc) (auto simp: txn_park_def run_bind_eq_Inr advances_refl dest: advances_park)
    with advances_accept [OF a] show ?thesis by (rule advances_trans)
  qed (use l in \<open>auto simp: submit_locked_def txn_park_def run_bind_eq_Inr advances_refl dest: advances_park\<close>)
  then show ?thesis by (simp add: c')
qed

lemma advances_try_send:
  assumes "try_send a m c = Inr ((res, effects), c')"
  shows "advances limit c c'"
proof -
  obtain c1 where l: "try_send_locked a m c = Inr (res, c1)" and c': "c' = c1\<lparr>mc_effects := no_effects\<rparr>"
    using assms by (auto simp: try_send_def run_bind_eq_Inr txn_finish_def)
  have "advances limit c c1"
  proof (cases "mc_phase c")
    case (Bound b)
    then obtain acc c2 where a: "accept_locked b m c = Inr (acc, c2)"
      using l by (auto simp: try_send_locked_def run_bind_eq_Inr Let_def)
    then have "c1 = c2" using l Bound by (cases acc) (auto simp: try_send_locked_def Let_def)
    with advances_accept [OF a] show ?thesis by simp
  qed (use l in \<open>auto simp: try_send_locked_def Let_def advances_refl\<close>)
  then show ?thesis by (simp add: c')
qed

lemma advances_bind:
  assumes wf: "cell_wf c" and b: "bind_incarnation token inc c = Inr ((u, effects), c')"
  shows "advances limit c c'"
proof (cases "mc_phase c")
  case Unbound
  obtain kind permits where kind: "ms_kind (mc_state c) = Some kind"
      and tok: "token_claim token (ms_bind_permit (mc_state c)) (mc_permits c) = (True, permits)"
    using b Unbound by (auto simp: bind_incarnation_def split: option.splits prod.splits bool.splits)
  let ?b = "\<lparr>bd_incarnation = inc, bd_kind = kind\<rparr>"
  let ?c2 = "waiters_observe_all inc
    (upd_state (\<lambda>s. s\<lparr>ms_phase := Bound ?b, ms_last_bound := Some inc\<rparr>) (c\<lparr>mc_permits := permits\<rparr>))"
  obtain c3 where p: "promote_waiters ?b ?c2 = Inr c3"
      and f: "c' = c3\<lparr>mc_effects := no_effects\<rparr>"
    using b Unbound kind tok
    by (auto simp: bind_incarnation_def run_bind_eq_Inr Let_def txn_finish_def upd_effects_def pulse_def)
  have "length permits = length (mc_permits c)" using tok by (auto simp: token_claim_def split: if_splits)
  with wf Unbound have o2: "open_wf ?c2" by (simp add: cell_wf_def phase_wf_def open_wf_def)
  have "advances limit ?c2 c3" using advances_promote [OF p o2] kind by simp
  then have "advances limit c c3" by (rule advances_trans [OF advances_same, rotated 2]) (simp_all add: envelopes_def)
  then show ?thesis by (simp add: f)
qed (use b in \<open>auto simp: bind_incarnation_def txn_finish_def advances_refl split: option.splits\<close>)

text \<open>Whether a call received a message of the live batch with the given limit.\<close>

definition live_receipt :: "accepted_sequence \<Rightarrow> ('m, 'w) mailbox_op \<Rightarrow> 'm mailbox_result \<Rightarrow> nat" where
  "live_receipt limit op res =
     (case op of
        OpReceive _ mode \<Rightarrow> if mode = LiveThrough limit \<and> res \<noteq> ResReceive None then 1 else 0
      | _ \<Rightarrow> 0)"

lemma mailbox_step_advances:
  assumes wf: "cell_wf c" and s: "mailbox_step ww c op = Inr ((res, effects), c')" and l: "limit \<le> mc_accepted c"
  shows "mc_accepted c \<le> mc_accepted c' \<and>
    unread_through limit c' + live_receipt limit op res \<le> unread_through limit c"
proof -
  have adv: ?thesis if "advances limit c c'" "\<forall>inc mode. op \<noteq> OpReceive inc mode"
    using that l by (cases op) (auto simp: advances_def live_receipt_def)
  show ?thesis
  proof (cases op)
    case (OpReceive inc mode)
    then obtain r where r: "receive inc mode c = Inr ((r, effects), c')" "res = ResReceive r"
      using s by (auto simp: as_result_Inr)
    from receive_advances [OF wf r(1) l] OpReceive r(2) show ?thesis
      by (cases r) (auto simp: live_receipt_def)
  next
    case (OpSubmit m)
    with s adv show ?thesis by (auto simp: as_result_Inr dest: advances_submit)
  next
    case (OpTrySend a m)
    with s adv show ?thesis by (auto simp: as_result_Inr dest: advances_try_send)
  next
    case (OpBind token inc)
    with s adv show ?thesis by (auto simp: as_result_Inr dest: advances_bind [OF wf] split: if_splits)
  next
    case (OpWithdraw r d)
    then obtain w where w: "withdraw r d c = Inr ((w, effects), c')"
      using s by (auto simp: as_result_Inr split: if_splits)
    from withdraw_locked(1) [OF w wf] have "advances limit c c'"
      by (intro advances_same) (simp_all add: envelopes_def)
    with adv OpWithdraw show ?thesis by simp
  next
    case (OpPoll r replacement current)
    then have "advances limit c c'"
      using s by (intro advances_same) (auto simp: run_bind_eq_Inr envelopes_def split: if_splits)
    with adv OpPoll show ?thesis by simp
  next
    case (OpConfigure k)
    then have "advances limit c c'"
      using s by (intro advances_same)
        (auto simp: as_result_Inr configure_def txn_finish_def Let_def envelopes_def split: option.splits if_splits)
    with adv OpConfigure show ?thesis by simp
  next
    case (OpFreeze inc)
    then have "advances limit c c'"
      using s by (intro advances_same)
        (auto simp: as_result_Inr freeze_def txn_finish_def set_phase_def envelopes_def split: phase.splits if_splits)
    with adv OpFreeze show ?thesis by simp
  next
    case (OpClose inc)
    then have "advances limit c c'"
      using s by (auto simp: as_result_Inr close_def txn_finish_def set_phase_def reset_bind_permit_def take_payload_def
          Let_def advances_def unread_through_def envelopes_def split: if_splits)
    with adv OpClose show ?thesis by simp
  next
    case OpTerminate
    then have "advances limit c c'"
      using s by (cases "mc_phase c") (auto simp: as_result_Inr prepare_termination_def txn_finish_def set_phase_def
          take_payload_def Let_def advances_def unread_through_def envelopes_def)
    with adv OpTerminate show ?thesis by simp
  next
    case OpTeardown
    then obtain r where r: "teardown_step c = Inr ((r, effects), c')" using s by (auto simp: as_result_Inr)
    have "mc_accepted c' = mc_accepted c"
      using r by (auto simp: termination_turn_def teardown_step_def split: option.splits prod.splits if_splits)
    then have "advances limit c c'"
      using teardown_spec [OF wf r] by (intro advances_same) (simp_all add: envelopes_def)
    with adv OpTeardown show ?thesis by simp
  qed
qed

definition live_receipts ::
  "accepted_sequence \<Rightarrow> ('m, 'w) mailbox_op list \<Rightarrow> ('m mailbox_result \<times> ('m, 'w) flush_action list) list \<Rightarrow> nat" where
  "live_receipts limit ops outs =
     (\<Sum>(op, res, effects) \<leftarrow> zip ops outs. live_receipt limit op res)"

lemma live_batch:
  "run_ops (mailbox_step ww) c ops = Inr (outs, c') \<Longrightarrow> cell_wf c \<Longrightarrow> limit \<le> mc_accepted c \<Longrightarrow>
   unread_through limit c' + live_receipts limit ops outs \<le> unread_through limit c"
proof (induction ops arbitrary: c outs)
  case Nil
  then show ?case by (simp add: live_receipts_def)
next
  case (Cons op ops)
  then obtain res effects c1 outs1 where s: "mailbox_step ww c op = Inr ((res, effects), c1)"
      and r: "run_ops (mailbox_step ww) c1 ops = Inr (outs1, c')" and o: "outs = (res, effects) # outs1"
    by (auto simp: run_bind_eq_Inr)
  note a = mailbox_step_advances [OF Cons.prems(2) s Cons.prems(3)]
  have "cell_wf c1" using mailbox_step_accounts [OF Cons.prems(2) s] by (simp add: accounts_def)
  moreover have "limit \<le> mc_accepted c1" using a Cons.prems(3) by (blast intro: order_trans)
  ultimately have "unread_through limit c' + live_receipts limit ops outs1 \<le> unread_through limit c1"
    by (rule Cons.IH [OF r])
  moreover have "live_receipts limit (op # ops) outs = live_receipt limit op res + live_receipts limit ops outs1"
    by (simp add: live_receipts_def o)
  ultimately show ?case using a by linarith
qed

text \<open>
  C22: A live receive batch ends. If a receiver reads the accepted counter and then receives only
  messages accepted no later, it gets at most as many messages as were unread when it looked,
  however many senders keep submitting.
\<close>

theorem live_batch_bounded:
  assumes "mailbox_run ww ops = Inr (outs, c)" "run_ops (mailbox_step ww) c ops' = Inr (outs', c')"
  shows "live_receipts (mc_accepted c) ops' outs' \<le> length (envelopes c)"
proof -
  have "cell_wf c" using mailbox_run_accounts [OF assms(1)] by blast
  from live_batch [OF assms(2) this, of "mc_accepted c"]
  have "live_receipts (mc_accepted c) ops' outs' \<le> unread_through (mc_accepted c) c" by simp
  also have "\<dots> \<le> length (envelopes c)" unfolding unread_through_def by (rule length_filter_le)
  finally show ?thesis .
qed

subsection \<open>Errors and identities\<close>

lemma try_send_actor:
  assumes "try_send_locked actor m c = Inr (Inl e, c')"
  shows "se_actor_id e = actor"
proof (cases "mc_phase c")
  case (Bound b)
  then obtain acc c1 where "accept_locked b m c = Inr (acc, c1)"
    using assms by (auto simp: try_send_locked_def run_bind_eq_Inr Let_def)
  with assms Bound show ?thesis by (cases acc) (auto simp: try_send_locked_def Let_def)
qed (use assms in \<open>auto simp: try_send_locked_def Let_def\<close>)

text \<open>
  C25: A fail-fast send that is refused changes nothing and hands its message back, and the error kind
  and incarnation say why: the final incarnation of a terminal mailbox, no incarnation of an unbound
  one, the frozen incarnation, or the bound one, which is full. An accepted one names the bound
  incarnation.
\<close>

theorem try_send_verdict:
  assumes "mailbox_run ww ops = Inr (outs, c)" "try_send actor m c = Inr ((res, effects), c')"
  shows "case res of
      Inl e \<Rightarrow> c' = c \<and> effects = [] \<and> se_message e = m \<and> se_actor_id e = actor \<and>
        (case mc_phase c of
           Terminal f \<Rightarrow> se_kind e = SendTerminated \<and> se_incarnation_observed e = f
         | Unbound \<Rightarrow> se_kind e = NotRunning \<and> se_incarnation_observed e = None
         | Frozen b \<Rightarrow> se_kind e = NotRunning \<and> se_incarnation_observed e = Some (bd_incarnation b)
         | Bound b \<Rightarrow> se_kind e = Full \<and> se_incarnation_observed e = Some (bd_incarnation b) \<and>
             (\<exists>capacity. bd_kind b = ResolvedQueue capacity \<and> length (ms_queue (mc_state c)) = capacity))
    | Inr inc \<Rightarrow> \<exists>b. mc_phase c = Bound b \<and> inc = bd_incarnation b \<and> Pulse \<in> set effects"
proof -
  have wf: "cell_wf c" using mailbox_run_accounts [OF assms(1)] by blast
  then have pw: "phase_wf c" by (simp add: cell_wf_def)
  obtain c1 where l: "try_send_locked actor m c = Inr (res, c1)" and c': "c' = c1\<lparr>mc_effects := no_effects\<rparr>"
      and eff: "effects = flush (mc_effects c1)"
    using assms(2) by (auto simp: try_send_def run_bind_eq_Inr txn_finish_def)
  note spec = try_send_locked_spec [OF pw l]
  show ?thesis
  proof (cases res)
    case (Inl e)
    have c1: "c1 = c" using spec Inl by simp
    have "effects = []" using wf by (simp add: eff c1 cell_wf_def flush_def no_effects_def)
    moreover have "se_actor_id e = actor"
      by (rule try_send_actor [OF l [unfolded Inl]])
    moreover have "\<exists>capacity. bd_kind b = ResolvedQueue capacity \<and> length (ms_queue (mc_state c)) = capacity"
      if b: "mc_phase c = Bound b" for b
    proof -
      have full: "queue_full (bd_kind b) c" using spec Inl b by simp
      then obtain n where n: "bd_kind b = ResolvedQueue n" by (cases "bd_kind b") (auto simp: queue_full_def)
      have "length (ms_queue (mc_state c)) \<le> n"
        using pw b n by (auto simp: phase_wf_def bound_to_def open_wf_def content_wf_def)
      with full n show ?thesis by (simp add: queue_full_def)
    qed
    moreover have "c' = c" using c' wf by (simp add: c1)
    ultimately show ?thesis
      using spec Inl by (cases "mc_phase c") simp_all
  next
    case (Inr inc)
    then obtain b where b: "mc_phase c = Bound b" using l by (cases "mc_phase c") (auto simp: try_send_locked_def Let_def)
    then obtain acc c2 where a: "accept_locked b m c = Inr (acc, c2)"
      using l by (auto simp: try_send_locked_def Let_def run_bind_eq_Inr)
    then have "acc = Inr inc" "c2 = c1" using l Inr b by (cases acc; auto simp: try_send_locked_def Let_def)+
    with a have "me_pulse (mc_effects c1)" "inc = bd_incarnation b"
      by (auto simp: accept_locked_def run_bind_eq_Inr pulse_def split: if_splits)
    with Inr b show ?thesis by (simp add: eff flush_def)
  qed
qed

text \<open>
  C24: Withdrawing a send operation is exact. The source's two assertions hold in every reachable state:
  an outcome is found unless the operation was already taken, and a live registration is found
  detached only once the mailbox is terminal. The operation is retired afterwards. Before the
  mailbox is terminal, a withdrawn message was in the line and is removed from it alone. Once it is
  terminal the line is empty, and a withdrawn message was held for the teardown to answer. In both
  cases the messages handed out are the ones that leave the cell, and nothing else does.
\<close>

theorem withdraw_exact:
  assumes "mailbox_run ww ops = Inr (outs, c)" "r < length (mc_operations c)"
    "withdraw r disposition c = Inr ((w, effects), c')"
  shows "(wd_outcome w = None \<longleftrightarrow> os_outcome (mc_operations c ! r) = Retired) \<and>
    (wd_detached w \<longrightarrow> (\<exists>f. mc_phase c = Terminal f)) \<and>
    os_outcome (mc_operations c' ! r) = Retired \<and> os_registration (mc_operations c' ! r) = None \<and>
    (\<forall>m seen. wd_outcome w = Some (OutWithdrawn m seen) \<and> (\<forall>f. mc_phase c \<noteq> Terminal f) \<longrightarrow>
       (\<exists>xs ys. line c = xs @ m # ys \<and> line c' = xs @ ys)) \<and>
    (\<forall>m seen f. wd_outcome w = Some (OutWithdrawn m seen) \<and> mc_phase c = Terminal f \<longrightarrow>
       line c = [] \<and> line c' = [] \<and> op_pending (mc_operations c ! r) = Some m) \<and>
    cell_messages c = cell_messages c' + withdrawal_messages w"
proof -
  have wf: "cell_wf c" using mailbox_run_accounts [OF assms(1)] by blast
  note l = withdraw_locked [OF assms(3) wf] and spec = withdraw_spec [OF wf assms(2,3)]
  have "mc_operations c' ! r = (mc_operations c ! r)\<lparr>os_outcome := Retired, os_waker := None, os_registration := None\<rparr>"
    using assms(2) by (simp add: l(1) retire_operation_def)
  moreover have "op_pending (mc_operations c ! r) = Some m" if "wd_outcome w = Some (OutWithdrawn m seen)" for m seen
    using that l(3) by (auto simp: op_pending_def split: operation_outcome.splits)
  moreover have "line c = [] \<and> line c' = []" if "mc_phase c = Terminal f" for f
  proof -
    have "cell_wf c'" "mc_phase c' = Terminal f" using spec that by (simp_all add: accounts_def)
    with wf that show ?thesis by (simp add: cell_wf_def phase_wf_def closed_wf_def line_def)
  qed
  moreover have "cell_messages c = cell_messages c' + withdrawal_messages w"
    using spec l(2) by (simp add: accounts_def)
  ultimately show ?thesis using spec by (auto split: option.splits)
qed

section \<open>A sample trace\<close>

text \<open>
  A mailbox of capacity one is bound and given three messages; two senders park. Then the owner
  terminalizes it and the teardown answers the parked senders.
\<close>

definition demo_incarnation :: incarnation where
  "demo_incarnation =
     \<lparr>incarnation_membership = Membership \<lparr>fence_lineage = Lineage 1, fence_generation = Generation 1\<rparr>,
      incarnation_generation = Generation 1\<rparr>"

definition demo_full :: "(nat, nat) mailbox_op list" where
  "demo_full =
     [OpConfigure (ResolvedQueue 1), OpBind 0 demo_incarnation, OpSubmit 10, OpSubmit 20, OpSubmit 30]"

definition demo_terminal :: "(nat, nat) mailbox_op list" where
  "demo_terminal = demo_full @ [OpPoll 0 None 7, OpPoll 0 (Some 7) 7, OpWithdraw 1 Inline, OpTerminate]"

definition mailbox_check ::
  "(nat, nat) mailbox_op list \<Rightarrow>
   ((nat mailbox_result \<times> (nat, nat) flush_action list) list \<Rightarrow> (nat, nat) mailbox_cell \<Rightarrow> bool) \<Rightarrow> bool" where
  "mailbox_check ops P = (case mailbox_run (=) ops of Inl _ \<Rightarrow> False | Inr (outs, c) \<Rightarrow> P outs c)"

lemma mailbox_checkD:
  "mailbox_check ops P \<Longrightarrow> \<exists>outs c. mailbox_run (=) ops = Inr (outs, c) \<and> P outs c"
  by (auto simp: mailbox_check_def split: sum.splits)

lemmas mailbox_eval =
  mailbox_check_def demo_full_def demo_terminal_def
  checked_add_u64_def counter_mint_def counter_successor_def counter_new_def atomic_counter_mint_def
  mailbox_run_def mailbox_new_def no_effects_def waiter_queue_new_def upd_state_def upd_effects_def
  upd_operation_def pulse_def set_phase_def flush_def txn_finish_def operation_new_def clear_registration_def
  operation_observe_def operation_accept_def operation_terminate_def operation_poll_outcome_def operation_poll_def
  waiters_park_def waiters_observe_all_def pop_first_def push_accepted_def queue_full_def accept_locked_def
  promote_one_def promote_waiters.simps txn_park_def submit_locked_def submit_def try_send_locked_def try_send_def
  take_next_def receive_def option_or_def withdraw_def token_claim_def configure_def bind_incarnation_def
  freeze_def payload_unread_def take_payload_def reset_bind_permit_def close_def prepare_termination_def
  termination_turn_def teardown_step_def as_result_def slot_will_wake_def effects_push_def slot_replace_def slot_take_def
  line_def td_work_def envelopes_def live_receipt_def Let_def bt_remove_def op_pending_def

lemma demo_full_run:
  "mailbox_check demo_full (\<lambda>outs c. mc_phase c = Bound \<lparr>bd_incarnation = demo_incarnation, bd_kind = ResolvedQueue 1\<rparr> \<and>
     ms_kind (mc_state c) = Some (ResolvedQueue 1) \<and> map en_message (ms_queue (mc_state c)) = [10] \<and>
     length (mc_operations c) = 2 \<and> length (mc_entries c) = 2)"
  by (simp add: mailbox_eval cong: run_bind_weak_cong)

lemma demo_terminal_run:
  "mailbox_check demo_terminal (\<lambda>outs c. mc_phase c = Terminal (Some demo_incarnation) \<and> td_work c = 3 \<and>
     map os_outcome (mc_operations c) = [Waiting 20 (Some demo_incarnation), Retired] \<and>
     (\<exists>outs' c'. run_ops (mailbox_step (=)) c [OpTeardown, OpTeardown, OpTrySend ''a'' 40, OpTeardown] = Inr (outs', c') \<and>
        map os_outcome (mc_operations c') = [Terminated 20 (Some demo_incarnation), Retired]))"
  by (simp add: mailbox_eval cong: run_bind_weak_cong)

lemma demo_full_calls:
  "mailbox_check demo_full (\<lambda>outs c.
     (\<exists>effects c'. mailbox_step (=) c (OpReceive demo_incarnation Drain) =
        Inr ((ResReceive (Some 10), effects), c') \<and> line c' = [20, 30]))"
  "mailbox_check demo_full (\<lambda>outs c.
     (\<exists>e effects c'. try_send ''worker'' 40 c = Inr ((Inl e, effects), c') \<and> se_kind e = Full))"
  "mailbox_check demo_full (\<lambda>outs c.
     1 < length (mc_operations c) \<and>
     (\<exists>w effects c' seen. withdraw 1 Inline c = Inr ((w, effects), c') \<and>
        wd_outcome w = Some (OutWithdrawn 30 seen)))"
  by (simp_all add: mailbox_eval cong: run_bind_weak_cong)

definition demo_live :: "(nat, nat) mailbox_op list" where
  "demo_live =
     [OpReceive demo_incarnation (LiveThrough 1), OpSubmit 40, OpReceive demo_incarnation (LiveThrough 1)]"

lemma demo_live_run:
  "mailbox_check demo_full (\<lambda>outs c. mc_accepted c = 1 \<and> length (envelopes c) = 1 \<and>
     (\<exists>outs' c'. run_ops (mailbox_step (=)) c demo_live = Inr (outs', c') \<and>
        live_receipts (mc_accepted c) demo_live outs' = 1))"
  by (simp add: mailbox_eval demo_live_def live_receipts_def word_le_nat_alt cong: run_bind_weak_cong)

theorem mailbox_conserves_messages_witness:
  "\<exists>outs c. mailbox_run (=) demo_terminal = Inr (outs, c) \<and> (\<Sum>op \<leftarrow> demo_terminal. op_input op) =
    cell_messages c + (\<Sum>(res, effects) \<leftarrow> outs. result_messages res + effect_messages effects)"
  using mailbox_checkD [OF demo_terminal_run] mailbox_conserves_messages by blast

theorem mailbox_within_capacity_witness:
  "\<exists>outs c. mailbox_run (=) demo_full = Inr (outs, c) \<and> mc_entries c \<noteq> [] \<and> length (ms_queue (mc_state c)) \<le> 1"
proof -
  obtain outs c where c: "mailbox_run (=) demo_full = Inr (outs, c)"
      "ms_kind (mc_state c) = Some (ResolvedQueue 1)" "length (mc_entries c) = 2"
    using mailbox_checkD [OF demo_full_run] by blast
  from mailbox_within_capacity [OF c(1)] c(2) have "length (ms_queue (mc_state c)) \<le> 1" by simp
  moreover have "mc_entries c \<noteq> []" using c(3) by auto
  ultimately show ?thesis using c(1) by blast
qed

theorem mailbox_refines_fifo_witness:
  "\<exists>outs c effects c'. mailbox_run (=) demo_full = Inr (outs, c) \<and>
     mailbox_step (=) c (OpReceive demo_incarnation Drain) = Inr ((ResReceive (Some 10), effects), c') \<and>
     fifo_move (line c) (OpReceive demo_incarnation Drain :: (nat, nat) mailbox_op) (ResReceive (Some 10)) (line c')"
proof -
  obtain outs c where c: "mailbox_run (=) demo_full = Inr (outs, c)"
      "ms_kind (mc_state c) \<noteq> Some ResolvedLatest" "\<forall>f. mc_phase c \<noteq> Terminal f"
    using mailbox_checkD [OF demo_full_run] by fastforce
  moreover obtain effects c' where
      "mailbox_step (=) c (OpReceive demo_incarnation Drain) = Inr ((ResReceive (Some 10), effects), c')"
    using mailbox_checkD [OF demo_full_calls(1)] c(1) by fastforce
  ultimately show ?thesis using mailbox_refines_fifo by blast
qed

theorem terminal_mailbox_answers_senders_witness:
  "\<exists>outs c outs' c'. mailbox_run (=) demo_terminal = Inr (outs, c) \<and>
     run_ops (mailbox_step (=)) c [OpTeardown, OpTeardown, OpTrySend ''a'' 40, OpTeardown] = Inr (outs', c') \<and>
     mc_phase c' = Terminal (Some demo_incarnation) \<and> (\<forall>s \<in> set (mc_operations c'). op_pending s = None)"
proof -
  obtain outs c outs' c' where c: "mailbox_run (=) demo_terminal = Inr (outs, c)"
      "mc_phase c = Terminal (Some demo_incarnation)" "td_work c = 3"
      "run_ops (mailbox_step (=)) c [OpTeardown, OpTeardown, OpTrySend ''a'' 40, OpTeardown] = Inr (outs', c')"
    using mailbox_checkD [OF demo_terminal_run] by blast
  from terminal_mailbox_answers_senders [OF c(1,2,4)] c(3) have
      "mc_phase c' = Terminal (Some demo_incarnation)" "\<forall>s \<in> set (mc_operations c'). op_pending s = None"
    by simp_all
  with c show ?thesis by blast
qed

theorem live_batch_bounded_witness:
  "\<exists>outs c outs' c'. mailbox_run (=) demo_full = Inr (outs, c) \<and>
     run_ops (mailbox_step (=)) c demo_live = Inr (outs', c') \<and>
     live_receipts (mc_accepted c) demo_live outs' \<le> length (envelopes c)"
  using mailbox_checkD [OF demo_live_run] live_batch_bounded by blast

theorem try_send_verdict_witness:
  "\<exists>outs c e effects c'. mailbox_run (=) demo_full = Inr (outs, c) \<and>
     try_send ''worker'' 40 c = Inr ((Inl e, effects), c') \<and> c' = c \<and> se_message e = 40"
proof -
  obtain outs c e effects c' where c: "mailbox_run (=) demo_full = Inr (outs, c)"
      "try_send ''worker'' 40 c = Inr ((Inl e, effects), c')"
    using mailbox_checkD [OF demo_full_calls(2)] by blast
  from try_send_verdict [OF c] c show ?thesis by auto
qed

theorem withdraw_exact_witness:
  "\<exists>outs c w effects c'. mailbox_run (=) demo_full = Inr (outs, c) \<and>
     withdraw 1 Inline c = Inr ((w, effects), c') \<and> os_outcome (mc_operations c' ! 1) = Retired \<and>
     cell_messages c = cell_messages c' + withdrawal_messages w"
proof -
  obtain outs c w effects c' where c: "mailbox_run (=) demo_full = Inr (outs, c)"
      "1 < length (mc_operations c)" "withdraw 1 Inline c = Inr ((w, effects), c')"
    using mailbox_checkD [OF demo_full_calls(3)] by blast
  from withdraw_exact [OF c] c show ?thesis by blast
qed

end
