(* ===== verification/Send_Future.thy ===== *)
theory Send_Future
  imports Mailbox_Order Clock
begin

text \<open>
  The send futures of \<open>mailbox/futures.rs\<close> over the mailbox cell, and the deadline wrapper of
  \<open>mailbox/deadline.rs\<close>. A future calls the cell one critical section at a time. Between two of its
  calls, and while it clones a waker, the rest of the system may call the cell; those calls are the
  interference lists. The view keeps the cell with the calls made on it and their results.
\<close>

section \<open>Calls on the cell\<close>

record ('m, 'w) mailbox_view =
  mv_cell :: "('m, 'w) mailbox_cell"
  mv_trace :: "('m, 'w) mailbox_op list"
  mv_outs :: "('m mailbox_result \<times> ('m, 'w) flush_action list) list"

definition log_call ::
  "('m, 'w) mailbox_op \<Rightarrow> 'm mailbox_result \<Rightarrow> ('m, 'w) flush_action list \<Rightarrow> ('m, 'w) mailbox_cell \<Rightarrow>
   ('m, 'w) mailbox_view \<Rightarrow> ('m, 'w) mailbox_view" where
  "log_call op result effects c v =
     \<lparr>mv_cell = c, mv_trace = mv_trace v @ [op], mv_outs = mv_outs v @ [(result, effects)]\<rparr>"

definition call_submit ::
  "'m \<Rightarrow> ('m, 'w) mailbox_view \<Rightarrow> ('m submission \<times> ('m, 'w) mailbox_view) run" where
  "call_submit message v =
     run_bind (submit message (mv_cell v))
       (\<lambda>((submission, effects), c). Inr (submission, log_call (OpSubmit message) (ResSubmit submission) effects c v))"

definition call_poll ::
  "('w \<Rightarrow> 'w \<Rightarrow> bool) \<Rightarrow> operation_ref \<Rightarrow> 'w option \<Rightarrow> 'w \<Rightarrow> ('m, 'w) mailbox_view \<Rightarrow>
   ('m poll_result \<times> ('m, 'w) mailbox_view) run" where
  "call_poll will_wake operation replacement current v =
     run_bind (operation_poll will_wake replacement current (mc_operations (mv_cell v) ! operation))
       (\<lambda>(result, wakers, s). Inr (result,
          log_call (OpPoll operation replacement current) (ResPoll result)
            (map (\<lambda>(waker, action). WakerAction waker action) wakers)
            (upd_operation operation (\<lambda>_. s) (mv_cell v)) v))"

definition call_withdraw ::
  "operation_ref \<Rightarrow> withdrawal_disposition \<Rightarrow> ('m, 'w) mailbox_view \<Rightarrow> ('m withdrawal \<times> ('m, 'w) mailbox_view) run" where
  "call_withdraw operation disposition v =
     run_bind (withdraw operation disposition (mv_cell v))
       (\<lambda>((w, effects), c). Inr (w, log_call (OpWithdraw operation disposition) (ResWithdraw w) effects c v))"

text \<open>The rest of the system never polls or withdraws an operation that another future owns.\<close>

fun touches :: "operation_ref \<Rightarrow> ('m, 'w) mailbox_op \<Rightarrow> bool" where
  "touches r (OpPoll r' _ _) \<longleftrightarrow> r' = r"
| "touches r (OpWithdraw r' _) \<longleftrightarrow> r' = r"
| "touches r _ \<longleftrightarrow> False"

definition interfere ::
  "('w \<Rightarrow> 'w \<Rightarrow> bool) \<Rightarrow> operation_ref option \<Rightarrow> ('m, 'w) mailbox_op list \<Rightarrow> ('m, 'w) mailbox_view \<Rightarrow>
   ('m, 'w) mailbox_view run" where
  "interfere will_wake own env v =
     (if \<exists>op \<in> set env. \<exists>r \<in> set_option own. touches r op then Inl (Panic ''operation is owned'')
      else run_bind (run_ops (mailbox_step will_wake) (mv_cell v) env)
             (\<lambda>(outs, c). Inr \<lparr>mv_cell = c, mv_trace = mv_trace v @ env, mv_outs = mv_outs v @ outs\<rparr>))"

section \<open>The send future\<close>

text \<open>The message of \<open>Immediate\<close> is taken only by the poll that submits it, which leaves the state in the same call.\<close>

datatype 'm send_future_state =
    Immediate 'm
  | Parked operation_ref
  | Sent incarnation
  | Done

type_synonym 'm send_result = "'m send_error + incarnation"

definition terminated_error :: "child_id \<Rightarrow> 'm \<Rightarrow> incarnation option \<Rightarrow> 'm send_error" where
  "terminated_error actor_id message final_incarnation =
     \<lparr>se_actor_id = actor_id, se_incarnation_observed = final_incarnation, se_message = message, se_kind = SendTerminated\<rparr>"

lemma operation_poll_installs:
  "operation_poll will_wake cloned current s = Inr (PollNeedsWakerClone, wakers, s') \<Longrightarrow> cloned = None"
  by (cases cloned) (auto simp: operation_poll_def operation_poll_outcome_def run_bind_eq_Inr slot_replace_def
      split: operation_outcome.splits)

text \<open>
  The loop of \<open>SendFuture::poll\<close>. It clones the caller's waker at most once, since a poll that offers a
  waker never asks for another; the system may interfere while it does.
\<close>

function send_future_loop ::
  "('w \<Rightarrow> 'w \<Rightarrow> bool) \<Rightarrow> child_id \<Rightarrow> 'w \<Rightarrow> ('m, 'w) mailbox_op list \<Rightarrow> operation_ref \<Rightarrow> 'w option \<Rightarrow>
   ('m, 'w) mailbox_view \<Rightarrow> ('m send_result poll \<times> 'm send_future_state \<times> ('m, 'w) mailbox_view) run" where
  "send_future_loop will_wake actor_id waker env operation cloned_waker v =
     run_bind (call_poll will_wake operation cloned_waker waker v)
       (\<lambda>(result, v1).
          case result of
            PollAccepted incarnation \<Rightarrow> Inr (Ready (Inr incarnation), Sent incarnation, v1)
          | PollTerminated message final_incarnation \<Rightarrow>
              Inr (Ready (Inl (terminated_error actor_id message final_incarnation)), Done, v1)
          | PollPending \<Rightarrow> Inr (Pending, Parked operation, v1)
          | PollNeedsWakerClone \<Rightarrow>
              run_bind (interfere will_wake (Some operation) env v1)
                (send_future_loop will_wake actor_id waker env operation (Some waker)))"
  by pat_completeness auto
termination
  by (relation "measure (\<lambda>(_, _, _, _, _, cloned, _). case cloned of None \<Rightarrow> 1 | Some _ \<Rightarrow> 0)")
    (auto simp: call_poll_def run_bind_eq_Inr dest!: operation_poll_installs split: option.splits)

declare send_future_loop.simps [simp del]

text \<open>\<open>SendFuture::poll\<close>; the system may interfere before the first look at the operation.\<close>

definition send_future_poll ::
  "('w \<Rightarrow> 'w \<Rightarrow> bool) \<Rightarrow> child_id \<Rightarrow> 'w \<Rightarrow> ('m, 'w) mailbox_op list \<Rightarrow> ('m, 'w) mailbox_op list \<Rightarrow>
   'm send_future_state \<Rightarrow> ('m, 'w) mailbox_view \<Rightarrow>
   ('m send_result poll \<times> 'm send_future_state \<times> ('m, 'w) mailbox_view) run" where
  "send_future_poll will_wake actor_id waker env1 env2 f v =
     (case f of
        Immediate message \<Rightarrow>
          run_bind (call_submit message v)
            (\<lambda>(submission, v1).
               case submission of
                 SubmissionAccepted incarnation \<Rightarrow> Inr (Ready (Inr incarnation), Sent incarnation, v1)
               | SubmissionParked operation \<Rightarrow>
                   run_bind (interfere will_wake (Some operation) env1 v1)
                     (send_future_loop will_wake actor_id waker env2 operation None)
               | SubmissionTerminated message final_incarnation \<Rightarrow>
                   Inr (Ready (Inl (terminated_error actor_id message final_incarnation)), Done, v1))
      | Sent incarnation \<Rightarrow> Inr (Ready (Inr incarnation), f, v)
      | Parked operation \<Rightarrow>
          run_bind (interfere will_wake (Some operation) env1 v)
            (send_future_loop will_wake actor_id waker env2 operation None)
      | Done \<Rightarrow> Inl (Panic ''a completed send future was polled''))"

text \<open>\<open>SendFuture::withdraw\<close>; the future is done afterwards.\<close>

definition send_future_withdraw ::
  "withdrawal_disposition \<Rightarrow> 'm send_future_state \<Rightarrow> ('m, 'w) mailbox_view \<Rightarrow>
   ('m withdrawal_outcome option \<times> ('m, 'w) mailbox_view) run" where
  "send_future_withdraw disposition f v =
     (case f of
        Immediate message \<Rightarrow> Inr (Some (OutWithdrawn message (phase_observation (mc_phase (mv_cell v)))), v)
      | Parked operation \<Rightarrow>
          run_bind (call_withdraw operation disposition v) (\<lambda>(w, v1). Inr (wd_outcome w, v1))
      | Sent incarnation \<Rightarrow> Inr (Some (OutAccepted incarnation), v)
      | Done \<Rightarrow> Inl (Panic ''a completed send was withdrawn''))"

definition withdraw_send_with ::
  "child_id \<Rightarrow> withdrawal_disposition \<Rightarrow> 'm send_future_state \<Rightarrow> ('m, 'w) mailbox_view \<Rightarrow>
   ('m send_result \<times> 'm send_future_state \<times> ('m, 'w) mailbox_view) run" where
  "withdraw_send_with actor_id disposition f v =
     run_bind (send_future_withdraw disposition f v)
       (\<lambda>(outcome, v1).
          case outcome of
            None \<Rightarrow> Inl (Panic ''a withdrawal outcome is consumed exactly once'')
          | Some (OutWithdrawn message observed) \<Rightarrow>
              Inr (Inl \<lparr>se_actor_id = actor_id, se_incarnation_observed = observed, se_message = message,
                        se_kind = TimedOut\<rparr>, Done, v1)
          | Some (OutAccepted incarnation) \<Rightarrow> Inr (Inr incarnation, Done, v1)
          | Some (OutTerminated message observed) \<Rightarrow>
              Inr (Inl (terminated_error actor_id message observed), Done, v1))"

text \<open>\<open>SendFuture::drop\<close>: the messages it submits to isolated disposal.\<close>

definition send_future_drop ::
  "'m send_future_state \<Rightarrow> ('m, 'w) mailbox_view \<Rightarrow> ('m list \<times> ('m, 'w) mailbox_view) run" where
  "send_future_drop f v =
     (case f of
        Immediate message \<Rightarrow> Inr ([message], v)
      | Parked operation \<Rightarrow>
          run_bind (call_withdraw operation Isolated v)
            (\<lambda>(w, v1). Inr (case wd_outcome w of
                 Some (OutWithdrawn message _) \<Rightarrow> [message]
               | Some (OutTerminated message _) \<Rightarrow> [message]
               | _ \<Rightarrow> [], v1))
      | _ \<Rightarrow> Inr ([], v))"

section \<open>Deadlines\<close>

datatype deadline_phase = InitialAttempt | TimeoutArbitration

record 'f deadlined =
  dl_operation :: 'f
  dl_budget_width :: deadline_budget
  dl_budget :: "deadline option"
  dl_timer :: bool
  dl_started :: bool
  dl_phase :: deadline_phase

definition no_attempt :: "'f \<Rightarrow> deadline_budget \<Rightarrow> 'f deadlined" where
  "no_attempt operation budget_width =
     \<lparr>dl_operation = operation, dl_budget_width = budget_width, dl_budget = None, dl_timer = False,
      dl_started = False, dl_phase = InitialAttempt\<rparr>"

text \<open>\<open>Deadlined::poll_timer\<close>; \<open>elapsed\<close> is what polling the armed sleep of the runtime answers.\<close>

definition poll_timer :: "bool \<Rightarrow> 'f deadlined \<Rightarrow> unit poll run" where
  "poll_timer elapsed d =
     (case dl_budget d of
        None \<Rightarrow> Inl (Panic ''a started deadline future retains its captured budget'')
      | Some budget \<Rightarrow>
          if deadline_instant budget = None then Inr Pending
          else if dl_timer d then Inr (if elapsed then Ready () else Pending)
          else Inl (Panic ''an unelapsed deadline future retains its timer''))"

definition deadlined_start :: "instant \<Rightarrow> 'f deadlined \<Rightarrow> 'f deadlined" where
  "deadlined_start now d =
     (if dl_started d then d
      else
        let budget = deadline_after now (budget_duration (dl_budget_width d))
        in d\<lparr>dl_started := True, dl_budget := Some budget,
             dl_timer := \<not> budget_is_zero (dl_budget_width d) \<and> deadline_instant budget \<noteq> None\<rparr>)"

text \<open>
  \<open>Deadlined::poll\<close> over an operation given by its \<open>poll_deadlined\<close> and \<open>short_circuit\<close>, which act on the
  operation and on the world \<open>'v\<close> around it.
\<close>

definition deadlined_poll ::
  "instant \<Rightarrow> bool \<Rightarrow> (deadline \<Rightarrow> deadline_phase \<Rightarrow> 'f \<Rightarrow> 'v \<Rightarrow> ('o poll \<times> 'f \<times> 'v) run) \<Rightarrow>
   ('f \<Rightarrow> 'v \<Rightarrow> ('o \<times> 'f \<times> 'v) run) \<Rightarrow> 'f deadlined \<Rightarrow> 'v \<Rightarrow> ('o poll \<times> 'f deadlined \<times> 'v) run" where
  "deadlined_poll now elapsed poll_deadlined short_circuit d0 v =
     (let d = deadlined_start now d0
      in if budget_is_zero (dl_budget_width d) then
           run_bind (short_circuit (dl_operation d) v)
             (\<lambda>(result, f, v1). Inr (Ready result, d\<lparr>dl_operation := f\<rparr>, v1))
         else
           case dl_budget d of
             None \<Rightarrow> Inl (Panic ''a started deadline future retains its captured budget'')
           | Some budget \<Rightarrow>
               run_bind (poll_deadlined budget InitialAttempt (dl_operation d) v)
                 (\<lambda>(attempt, f, v1).
                    case attempt of
                      Ready result \<Rightarrow> Inr (Ready result, d\<lparr>dl_operation := f, dl_timer := False\<rparr>, v1)
                    | Pending \<Rightarrow>
                        let arbitrate = (\<lambda>d'. run_bind (poll_deadlined budget TimeoutArbitration f v1)
                              (\<lambda>(result, f', v2). Inr (result, d'\<lparr>dl_operation := f'\<rparr>, v2)))
                        in if dl_phase d = InitialAttempt then
                             run_bind (poll_timer elapsed d)
                               (\<lambda>timer.
                                  case timer of
                                    Pending \<Rightarrow> Inr (Pending, d\<lparr>dl_operation := f\<rparr>, v1)
                                  | Ready _ \<Rightarrow> arbitrate (d\<lparr>dl_phase := TimeoutArbitration, dl_timer := False\<rparr>))
                           else arbitrate d))"

text \<open>
  The send as a deadline operation. A pass meets interference before it looks at the operation, while
  it clones, and before it withdraws.
\<close>

record ('m, 'w) interference =
  if_looking :: "('m, 'w) mailbox_op list"
  if_cloning :: "('m, 'w) mailbox_op list"
  if_withdrawing :: "('m, 'w) mailbox_op list"

definition owned_operation :: "'m send_future_state \<Rightarrow> operation_ref option" where
  "owned_operation f = (case f of Parked operation \<Rightarrow> Some operation | _ \<Rightarrow> None)"

definition send_poll_deadlined ::
  "('w \<Rightarrow> 'w \<Rightarrow> bool) \<Rightarrow> child_id \<Rightarrow> 'w \<Rightarrow> (deadline_phase \<Rightarrow> ('m, 'w) interference) \<Rightarrow>
   deadline \<Rightarrow> deadline_phase \<Rightarrow> 'm send_future_state \<Rightarrow> ('m, 'w) mailbox_view \<Rightarrow>
   ('m send_result poll \<times> 'm send_future_state \<times> ('m, 'w) mailbox_view) run" where
  "send_poll_deadlined will_wake actor_id waker env budget phase f v =
     run_bind (send_future_poll will_wake actor_id waker (if_looking (env phase)) (if_cloning (env phase)) f v)
       (\<lambda>(result, f1, v1).
          case result of
            Ready _ \<Rightarrow> Inr (result, f1, v1)
          | Pending \<Rightarrow>
              if phase = InitialAttempt then Inr (Pending, f1, v1)
              else run_bind (interfere will_wake (owned_operation f1) (if_withdrawing (env phase)) v1)
                     (\<lambda>v2. run_bind (withdraw_send_with actor_id Inline f1 v2)
                        (\<lambda>(result, f2, v3). Inr (Ready result, f2, v3))))"

definition send_timeout_poll ::
  "('w \<Rightarrow> 'w \<Rightarrow> bool) \<Rightarrow> child_id \<Rightarrow> instant \<Rightarrow> bool \<Rightarrow> 'w \<Rightarrow>
   (deadline_phase \<Rightarrow> ('m, 'w) interference) \<Rightarrow>
   'm send_future_state deadlined \<Rightarrow> ('m, 'w) mailbox_view \<Rightarrow>
   ('m send_result poll \<times> 'm send_future_state deadlined \<times> ('m, 'w) mailbox_view) run" where
  "send_timeout_poll will_wake actor_id now elapsed waker env d v =
     deadlined_poll now elapsed (send_poll_deadlined will_wake actor_id waker env)
       (withdraw_send_with actor_id Inline) d v"

end
