(* ===== verification/Send_Contract.thy ===== *)
theory Send_Contract
  imports Send_Future
begin

text \<open>
  What a sender may rely on (\<open>mailbox/futures.rs\<close>, \<open>mailbox/deadline.rs\<close>): operations evolve only one way
  under the calls of others, a message enters the mailbox at most once, and so a send future that fails
  gives its message back undelivered and a send with a deadline decides by its deadline.
\<close>

section \<open>Operations evolve\<close>

text \<open>
  What calls by others do to a send operation: it keeps its message while it waits, is accepted by one
  of the incarnations \<open>S\<close>, or is terminated with that message, and then stays as it is.
\<close>

definition evolves :: "incarnation set \<Rightarrow> ('m, 'w) operation_state \<Rightarrow> ('m, 'w) operation_state \<Rightarrow> bool" where
  "evolves S s s' \<longleftrightarrow>
     (case os_outcome s of
        Waiting m _ \<Rightarrow>
          (case os_outcome s' of
             Waiting m' _ \<Rightarrow> m' = m
           | Accepted inc \<Rightarrow> inc \<in> S
           | Terminated m' _ \<Rightarrow> m' = m
           | Retired \<Rightarrow> False)
      | settled \<Rightarrow> os_outcome s' = settled)"

definition ops_evolve :: "incarnation set \<Rightarrow> ('m, 'w) mailbox_cell \<Rightarrow> ('m, 'w) mailbox_cell \<Rightarrow> bool" where
  "ops_evolve S c c' \<longleftrightarrow>
     length (mc_operations c) \<le> length (mc_operations c') \<and>
     (\<forall>r < length (mc_operations c). evolves S (mc_operations c ! r) (mc_operations c' ! r))"

lemma evolves_refl [simp]: "evolves S s s"
  by (auto simp: evolves_def split: operation_outcome.splits)

lemma evolves_trans: "evolves S s t \<Longrightarrow> evolves S t u \<Longrightarrow> evolves S s u"
  by (auto simp: evolves_def split: operation_outcome.splits)

lemma ops_evolve_same: "mc_operations c' = mc_operations c \<Longrightarrow> ops_evolve S c c'"
  by (simp add: ops_evolve_def)

lemma ops_evolve_append: "mc_operations c' = mc_operations c @ new \<Longrightarrow> ops_evolve S c c'"
  by (simp add: ops_evolve_def nth_append)

lemma ops_evolve_trans [trans]: "ops_evolve S a b \<Longrightarrow> ops_evolve S b c \<Longrightarrow> ops_evolve S a c"
  unfolding ops_evolve_def by (meson evolves_trans le_trans order_less_le_trans)

lemma ops_evolve_upd:
  assumes "mc_operations c' = (mc_operations c)[r := s]" "evolves S (mc_operations c ! r) s"
  shows "ops_evolve S c c'"
proof -
  have "evolves S (mc_operations c ! k) (mc_operations c' ! k)" if "k < length (mc_operations c)" for k
    using assms that by (cases "k = r") simp_all
  with assms(1) show ?thesis by (simp add: ops_evolve_def)
qed

lemma push_accepted_operations: "push_accepted kind m c = Inr c' \<Longrightarrow> mc_operations c' = mc_operations c"
  by (cases kind) (auto simp: push_accepted_def run_bind_eq_Inr Let_def split: option.splits)

lemma accept_locked_operations: "accept_locked b m c = Inr (res, c') \<Longrightarrow> mc_operations c' = mc_operations c"
  by (auto simp: accept_locked_def run_bind_eq_Inr dest!: push_accepted_operations split: if_splits)

lemma promote_one_evolves:
  assumes "promote_one b r c = Inr c'" "bd_incarnation b \<in> S"
  shows "ops_evolve S c c'"
proof -
  let ?s = "operation_observe (bd_incarnation b) (clear_registration (mc_operations c ! r))"
  let ?c2 = "upd_operation r (operation_observe (bd_incarnation b)) (upd_operation r clear_registration c)"
  obtain message s wakers where a: "operation_accept (bd_incarnation b) (mc_operations ?c2 ! r) (me_wakers (mc_effects ?c2))
      = (message, s, wakers)" by (metis prod_cases3)
  have "mc_operations c' = (mc_operations c)[r := s]"
    using assms(1) a by (auto simp: promote_one_def Let_def dest!: push_accepted_operations split: option.splits)
  moreover have "evolves S (mc_operations c ! r) s" if "r < length (mc_operations c)"
    using a that assms(2) by (auto simp: operation_accept_def operation_observe_def clear_registration_def evolves_def slot_take_def
        split: operation_outcome.splits)
  ultimately show ?thesis
    by (cases "r < length (mc_operations c)") (auto intro: ops_evolve_upd ops_evolve_same simp: list_update_beyond not_less)
qed

lemma promote_waiters_evolves: "promote_waiters b c = Inr c' \<Longrightarrow> bd_incarnation b \<in> S \<Longrightarrow> ops_evolve S c c'"
proof (induction b c arbitrary: c' rule: promote_waiters.induct)
  case (1 b c)
  show ?case
  proof (cases "queue_full (bd_kind b) c")
    case False
    obtain popped rest where p: "pop_first (ms_waiters (mc_state c)) = (popped, rest)" by force
    show ?thesis
    proof (cases popped)
      case (Some r)
      let ?c1 = "upd_state (\<lambda>s. s\<lparr>ms_waiters := rest\<rparr>) c"
      obtain c2 where c2: "promote_one b r ?c1 = Inr c2" and c': "promote_waiters b c2 = Inr c'"
        using "1.prems"(1) False p Some by (subst (asm) promote_waiters.simps) (auto simp: run_bind_eq_Inr)
      have "ops_evolve S c ?c1" by (simp add: ops_evolve_same)
      also have "ops_evolve S ?c1 c2" by (rule promote_one_evolves [OF c2 "1.prems"(2)])
      also have "ops_evolve S c2 c'"
        by (rule "1.IH" [OF False p [symmetric] Some c2 c' "1.prems"(2)])
      finally show ?thesis .
    qed (use "1.prems"(1) False p in \<open>subst (asm) promote_waiters.simps, simp add: ops_evolve_same\<close>)
  qed (use "1.prems"(1) in \<open>subst (asm) promote_waiters.simps, simp add: ops_evolve_same\<close>)
qed

lemma observe_all_evolves: "ops_evolve S c (waiters_observe_all inc c)"
proof -
  have "ops_evolve S c (fold (\<lambda>(_, r). upd_operation r (operation_observe inc)) entries c)"
    for entries :: "(waiter_id \<times> operation_ref) list" and c :: "('m, 'w) mailbox_cell"
  proof (induction entries arbitrary: c)
    case (Cons e entries)
    obtain i r where e: "e = (i, r)" by force
    have "ops_evolve S c (upd_operation r (operation_observe inc) c)"
      by (rule ops_evolve_upd) (auto simp: operation_observe_def evolves_def split: operation_outcome.splits)
    with ops_evolve_trans Cons.IH e show ?case by fastforce
  qed (simp add: ops_evolve_same)
  then show ?thesis by (simp add: waiters_observe_all_def)
qed

lemma txn_finish_operations: "txn_finish out c = ((res, effects), c') \<Longrightarrow> mc_operations c' = mc_operations c"
  by (auto simp: txn_finish_def)

lemma txn_park_evolves: "txn_park m seen c = Inr (res, c') \<Longrightarrow> ops_evolve S c c'"
  by (auto simp: txn_park_def waiters_park_def run_bind_eq_Inr Let_def intro: ops_evolve_append)

lemma submit_locked_evolves:
  assumes s: "submit_locked m c = Inr (res, c')"
  shows "ops_evolve S c c'"
proof (cases "mc_phase c")
  case (Bound b)
  with s obtain acc c1 where a: "accept_locked b m c = Inr (acc, c1)"
    by (auto simp: submit_locked_def run_bind_eq_Inr)
  note same = accept_locked_operations [OF a]
  show ?thesis
  proof (cases acc)
    case (Inl m')
    with s Bound a have "ops_evolve S c1 c'" by (simp add: submit_locked_def txn_park_evolves)
    with same show ?thesis by (simp add: ops_evolve_def)
  next
    case (Inr inc)
    with s Bound a same show ?thesis by (auto simp: submit_locked_def intro: ops_evolve_same)
  qed
qed (use s in \<open>auto simp: submit_locked_def intro: txn_park_evolves ops_evolve_same\<close>)

lemma try_send_locked_operations: "try_send_locked a m c = Inr (res, c') \<Longrightarrow> mc_operations c' = mc_operations c"
proof (cases "mc_phase c")
  case (Bound b)
  assume s: "try_send_locked a m c = Inr (res, c')"
  with Bound obtain acc c1 where a: "accept_locked b m c = Inr (acc, c1)"
    by (auto simp: try_send_locked_def run_bind_eq_Inr Let_def)
  with s Bound have "c' = c1" by (cases acc) (auto simp: try_send_locked_def Let_def)
  with accept_locked_operations [OF a] show ?thesis by simp
qed (auto simp: try_send_locked_def Let_def)

lemma receive_evolves:
  assumes "receive inc mode c = Inr ((res, effects), c')" and S: "\<And>b. mc_phase c = Bound b \<Longrightarrow> bd_incarnation b \<in> S"
  shows "ops_evolve S c c'"
proof -
  have taken: "ops_evolve S c d" if "(if live then promote_waiters b (upd_state (\<lambda>_. s) c) else Inr (upd_state (\<lambda>_. s) c)) = Inr c2"
    "mc_operations d = mc_operations c2" "live \<Longrightarrow> bd_incarnation b \<in> S" for live b s c2 d
  proof -
    have "ops_evolve S (upd_state (\<lambda>_. s) c) c2"
      using that(1,3) by (cases live) (auto intro: promote_waiters_evolves ops_evolve_same)
    with that(2) show ?thesis by (simp add: ops_evolve_def)
  qed
  show ?thesis
    using assms(1) S unfolding receive_def Let_def
    by (auto simp: run_bind_eq_Inr txn_finish_def intro: ops_evolve_same taken
        split: phase.splits if_splits prod.splits option.splits)
qed

lemma bind_evolves:
  assumes "bind_incarnation token inc c = Inr ((res, effects), c')" and S: "inc \<in> S"
  shows "ops_evolve S c c'"
proof -
  have bound: "ops_evolve S c d"
    if "promote_waiters b (waiters_observe_all inc (upd_state f (c\<lparr>mc_permits := permits\<rparr>))) = Inr c3"
      "mc_operations d = mc_operations c3" "bd_incarnation b = inc" for b f permits c3 d
  proof -
    let ?c1 = "upd_state f (c\<lparr>mc_permits := permits\<rparr>)"
    have "ops_evolve S ?c1 (waiters_observe_all inc ?c1)" by (rule observe_all_evolves)
    also have "ops_evolve S (waiters_observe_all inc ?c1) c3" by (rule promote_waiters_evolves [OF that(1)]) (simp add: that(3) S)
    finally show ?thesis using that(2) by (simp add: ops_evolve_def)
  qed
  show ?thesis
    using assms(1) unfolding bind_incarnation_def Let_def
    by (auto simp: run_bind_eq_Inr txn_finish_def intro: ops_evolve_same bound
        split: phase.splits option.splits prod.splits bool.splits)
qed

lemma teardown_evolves:
  assumes "teardown_step c = Inr ((res, effects), c')"
  shows "ops_evolve S c c'"
proof -
  have "evolves S s (clear_registration s)" for s :: "('a, 'b) operation_state"
    by (auto simp: clear_registration_def evolves_def split: operation_outcome.splits)
  moreover have "evolves S s t" if "operation_terminate f s = (t, wakers)" for f s wakers and t :: "('a, 'b) operation_state"
    using that by (auto simp: operation_terminate_def slot_take_def evolves_def split: operation_outcome.splits)
  ultimately show ?thesis
    using assms
    by (auto simp: teardown_step_def termination_turn_def intro: ops_evolve_same ops_evolve_upd
        split: option.splits prod.splits if_splits)
qed

lemma step_evolves:
  assumes s: "mailbox_step ww c op = Inr ((res, effects), c')" and r: "r < length (mc_operations c)" and t: "\<not> touches r op"
    and S: "\<And>b. mc_phase c = Bound b \<Longrightarrow> bd_incarnation b \<in> S" "\<And>token inc. op = OpBind token inc \<Longrightarrow> inc \<in> S"
  shows "length (mc_operations c) \<le> length (mc_operations c') \<and> evolves S (mc_operations c ! r) (mc_operations c' ! r)"
proof -
  have all: ?thesis if "ops_evolve S c c'" using that r by (simp add: ops_evolve_def)
  show ?thesis
  proof (cases op)
    case (OpSubmit m)
    then obtain sub c1 where "submit_locked m c = Inr (sub, c1)" "mc_operations c' = mc_operations c1"
      using s by (auto simp: as_result_Inr submit_def run_bind_eq_Inr txn_finish_def)
    with submit_locked_evolves [of m c sub c1] show ?thesis by (intro all) (simp add: ops_evolve_def)
  next
    case (OpTrySend a m)
    then obtain sent c1 where "try_send_locked a m c = Inr (sent, c1)" "mc_operations c' = mc_operations c1"
      using s by (auto simp: as_result_Inr try_send_def run_bind_eq_Inr txn_finish_def)
    with try_send_locked_operations [of a m c sent c1] show ?thesis by (intro all ops_evolve_same) simp
  next
    case (OpReceive inc mode)
    with s S(1) show ?thesis by (intro all) (auto simp: as_result_Inr intro: receive_evolves)
  next
    case (OpPoll r' replacement current)
    with s t show ?thesis by (auto simp: run_bind_eq_Inr split: if_splits)
  next
    case (OpWithdraw r' d)
    with s t show ?thesis
      by (auto simp: as_result_Inr withdraw_def txn_finish_def slot_take_def Let_def split: if_splits option.splits)
  next
    case (OpConfigure k)
    with s show ?thesis
      by (intro all ops_evolve_same) (auto simp: as_result_Inr configure_def txn_finish_def Let_def split: option.splits if_splits)
  next
    case (OpBind token inc)
    with s S(2) show ?thesis by (intro all) (auto simp: as_result_Inr intro: bind_evolves split: if_splits)
  next
    case (OpFreeze inc)
    with s show ?thesis
      by (intro all ops_evolve_same) (auto simp: as_result_Inr freeze_def txn_finish_def set_phase_def split: phase.splits if_splits)
  next
    case (OpClose inc)
    with s show ?thesis
      by (intro all ops_evolve_same)
        (auto simp: as_result_Inr close_def txn_finish_def set_phase_def reset_bind_permit_def take_payload_def Let_def split: if_splits)
  next
    case OpTerminate
    with s show ?thesis
      by (intro all ops_evolve_same) (cases "mc_phase c"; auto simp: as_result_Inr prepare_termination_def txn_finish_def
          set_phase_def take_payload_def Let_def)
  next
    case OpTeardown
    with s show ?thesis by (intro all) (auto simp: as_result_Inr dest: teardown_evolves)
  qed
qed

section \<open>Handing a message back\<close>

text \<open>The results that return a message to its sender.\<close>

fun returned_messages :: "'m mailbox_result \<Rightarrow> 'm multiset" where
  "returned_messages (ResSubmit s) = submission_messages s"
| "returned_messages (ResTrySend r) = try_send_messages r"
| "returned_messages (ResPoll r) = poll_messages r"
| "returned_messages (ResWithdraw w) = withdrawal_messages w"
| "returned_messages _ = {#}"

definition handed_back :: "'m \<Rightarrow> ('m mailbox_result \<times> ('m, 'w) flush_action list) list \<Rightarrow> bool" where
  "handed_back m outs \<longleftrightarrow> (\<exists>(res, effects) \<in> set outs. m \<in># returned_messages res)"

definition undelivered ::
  "'m \<Rightarrow> ('m mailbox_result \<times> ('m, 'w) flush_action list) list \<Rightarrow> ('m, 'w) mailbox_cell \<Rightarrow> bool" where
  "undelivered m outs c \<longleftrightarrow>
     m \<notin># cell_messages c \<and> (\<forall>(res, effects) \<in> set outs. res \<noteq> ResReceive (Some m) \<and> m \<notin># effect_messages effects)"

abbreviation inputs :: "('m, 'w) mailbox_op list \<Rightarrow> 'm multiset" where
  "inputs ops \<equiv> \<Sum>op \<leftarrow> ops. op_input op"

lemma returned_result: "m \<in># returned_messages res \<Longrightarrow> m \<in># result_messages res"
  by (cases res) auto

lemma count_sum_list: "count (\<Sum>x \<leftarrow> xs. f x) m = (\<Sum>x \<leftarrow> xs. count (f x) m)"
  by (induction xs) auto

lemma sum_list_two:
  fixes f :: "'a \<Rightarrow> nat"
  assumes "x \<in> set xs" "y \<in> set xs" "x \<noteq> y"
  shows "f x + f y \<le> sum_list (map f xs)"
  using assms
proof (induction xs)
  case (Cons z xs)
  then show ?case using member_le_sum_list [of _ "map f xs"] by (auto simp: add.commute intro: trans_le_add2 add_mono)
qed simp

lemma traffic_count:
  assumes "mailbox_run ww ops = Inr (outs, c)"
  shows "count (cell_messages c) m +
    (\<Sum>x \<leftarrow> outs. count (result_messages (fst x)) m + count (effect_messages (snd x)) m) = count (inputs ops) m"
  using mailbox_run_accounts [OF assms] by (simp add: count_sum_list case_prod_unfold)

lemma unsent_undelivered:
  assumes run: "mailbox_run ww ops = Inr (outs, c)" and none: "count (inputs ops) m = 0"
  shows "undelivered m outs c"
proof -
  have cell: "count (cell_messages c) m = 0"
    and outs: "\<forall>x \<in> set outs. count (result_messages (fst x)) m = 0 \<and> count (effect_messages (snd x)) m = 0"
    using traffic_count [OF run, of m] none by (auto simp: sum_list_eq_0_iff)
  have "res \<noteq> ResReceive (Some m) \<and> m \<notin># effect_messages effects" if "(res, effects) \<in> set outs" for res effects
    using outs that by (auto simp: count_eq_zero_iff option_messages_def)
  with cell show ?thesis by (auto simp: undelivered_def count_eq_zero_iff)
qed

lemma handed_back_undelivered:
  assumes run: "mailbox_run ww ops = Inr (outs, c)" and once: "count (inputs ops) m \<le> 1" and hb: "handed_back m outs"
  shows "undelivered m outs c"
proof -
  let ?f = "\<lambda>x. count (result_messages (fst x)) m + count (effect_messages (snd x)) m"
  have total: "count (cell_messages c) m + sum_list (map ?f outs) \<le> 1" using traffic_count [OF run, of m] once by simp
  obtain x where x: "x \<in> set outs" "m \<in># returned_messages (fst x)" using hb by (auto simp: handed_back_def)
  then have one: "1 \<le> count (result_messages (fst x)) m" using returned_result [of m "fst x"] by (simp add: Suc_le_eq)
  have le: "?f x \<le> sum_list (map ?f outs)" using x(1) by (intro member_le_sum_list) auto
  have rest: "?f y = 0" if "y \<in> set outs" "y \<noteq> x" for y
    using sum_list_two [OF x(1) that(1) that(2) [symmetric], of ?f] total one by linarith
  have "fst y \<noteq> ResReceive (Some m) \<and> m \<notin># effect_messages (snd y)" if y: "y \<in> set outs" for y
  proof (cases "y = x")
    case True
    have "count (effect_messages (snd x)) m = 0" using total le one by linarith
    with True x(2) show ?thesis by (auto simp: count_eq_zero_iff)
  next
    case False
    with rest [OF y] show ?thesis by (auto simp: count_eq_zero_iff option_messages_def)
  qed
  moreover have "count (cell_messages c) m = 0" using total le one by linarith
  ultimately show ?thesis unfolding undelivered_def case_prod_unfold count_eq_zero_iff by blast
qed

section \<open>The life of one send future\<close>

definition bound_incarnations :: "('m, 'w) mailbox_op list \<Rightarrow> incarnation set" where
  "bound_incarnations ops = {inc. \<exists>token. OpBind token inc \<in> set ops}"

definition view_ok :: "('w \<Rightarrow> 'w \<Rightarrow> bool) \<Rightarrow> ('m, 'w) mailbox_view \<Rightarrow> bool" where
  "view_ok ww v \<longleftrightarrow> mailbox_run ww (mv_trace v) = Inr (mv_outs v, mv_cell v)"

definition phase_incarnation :: "('m, 'w) mailbox_cell \<Rightarrow> incarnation set" where
  "phase_incarnation c = set_option (phase_observation (mc_phase c))"

lemma step_phase:
  assumes wf: "cell_wf c" and s: "mailbox_step ww c op = Inr ((res, effects), c')"
  shows "phase_incarnation c' \<subseteq> phase_incarnation c \<union> bound_incarnations [op]"
proof -
  have same: ?thesis if "mc_phase c' = mc_phase c \<or> phase_observation (mc_phase c') = None"
    using that by (auto simp: phase_incarnation_def)
  show ?thesis
  proof (cases op)
    case (OpSubmit m)
    with s same show ?thesis by (auto simp: as_result_Inr dest: submit_spec [OF wf])
  next
    case (OpTrySend a m)
    then obtain r where "try_send a m c = Inr ((r, effects), c')" using s by (auto simp: as_result_Inr)
    from try_send_spec [OF wf this] same show ?thesis by (cases r) auto
  next
    case (OpReceive inc mode)
    with s same show ?thesis by (auto simp: as_result_Inr dest: receive_spec [OF wf])
  next
    case (OpPoll r replacement current)
    with s same show ?thesis by (auto simp: run_bind_eq_Inr split: if_splits)
  next
    case (OpWithdraw r d)
    with s same show ?thesis by (auto simp: as_result_Inr not_le dest: withdraw_spec [OF wf, rotated] split: if_splits)
  next
    case (OpConfigure k)
    with s same show ?thesis by (auto simp: as_result_Inr dest: configure_spec [OF wf])
  next
    case (OpBind token inc)
    then have "bind_incarnation token inc c = Inr (((), effects), c')" using s by (auto simp: as_result_Inr split: if_splits)
    from bind_spec [OF wf this] same OpBind show ?thesis
      by (auto simp: phase_incarnation_def bound_incarnations_def split: if_splits)
  next
    case (OpFreeze inc)
    then have "freeze inc c = Inr (((), effects), c')" using s by (auto simp: as_result_Inr)
    from freeze_spec [OF wf this] show ?thesis by (auto simp: phase_incarnation_def)
  next
    case (OpClose inc)
    then obtain r where "close inc c = Inr ((r, effects), c')" using s by (auto simp: as_result_Inr)
    from close_spec [OF wf this] same show ?thesis by (auto split: option.splits)
  next
    case OpTerminate
    then obtain r where "prepare_termination c = Inr ((r, effects), c')" using s by (auto simp: as_result_Inr)
    from terminate_spec [OF wf this] same show ?thesis by (auto split: if_splits)
  next
    case OpTeardown
    then obtain r where "teardown_step c = Inr ((r, effects), c')" using s by (auto simp: as_result_Inr)
    from teardown_spec [OF wf this] same show ?thesis by simp
  qed
qed

lemma view_phase:
  assumes "view_ok ww v"
  shows "phase_incarnation (mv_cell v) \<subseteq> bound_incarnations (mv_trace v)"
  using assms unfolding view_ok_def
proof (induction "mv_trace v" arbitrary: v rule: rev_induct)
  case Nil
  then have "mv_cell v = mailbox_new" by (metis mailbox_run_def prod.inject run_ops.simps(1) sum.inject(2))
  then show ?case by (simp add: phase_incarnation_def mailbox_new_def)
next
  case (snoc op ops)
  from snoc.prems obtain outs1 c1 res effects where r: "mailbox_run ww ops = Inr (outs1, c1)"
      and s: "mailbox_step ww c1 op = Inr ((res, effects), mv_cell v)"
    by (auto simp: mailbox_run_def snoc.hyps(2) [symmetric] run_ops_snoc)
  have wf: "cell_wf c1" using mailbox_run_accounts [OF r] by blast
  have "phase_incarnation c1 \<subseteq> bound_incarnations ops"
    using snoc.hyps(1) [of "\<lparr>mv_cell = c1, mv_trace = ops, mv_outs = outs1\<rparr>"] r by simp
  with step_phase [OF wf s] snoc.hyps(2) [symmetric] show ?case by (auto simp: bound_incarnations_def)
qed

text \<open>An operation owned by a future that was given \<open>m\<close>.\<close>

definition own_ok :: "'m \<Rightarrow> incarnation set \<Rightarrow> ('m, 'w) operation_state \<Rightarrow> bool" where
  "own_ok m S s \<longleftrightarrow>
     (case os_outcome s of
        Waiting m' _ \<Rightarrow> m' = m
      | Terminated m' _ \<Rightarrow> m' = m
      | Accepted inc \<Rightarrow> inc \<in> S
      | Retired \<Rightarrow> False)"

definition future_ok :: "'m \<Rightarrow> 'm send_future_state \<Rightarrow> ('m, 'w) mailbox_view \<Rightarrow> bool" where
  "future_ok m f v \<longleftrightarrow>
     count (inputs (mv_trace v)) m \<le> 1 \<and>
     (case f of
        Immediate m' \<Rightarrow> m' = m \<and> count (inputs (mv_trace v)) m = 0
      | Parked r \<Rightarrow> r < length (mc_operations (mv_cell v)) \<and>
          own_ok m (bound_incarnations (mv_trace v)) (mc_operations (mv_cell v) ! r)
      | Sent inc \<Rightarrow> inc \<in> bound_incarnations (mv_trace v)
      | Done \<Rightarrow> True)"

definition quiet_env :: "'m \<Rightarrow> ('m, 'w) mailbox_op list \<Rightarrow> bool" where
  "quiet_env m env \<longleftrightarrow> (\<forall>op \<in> set env. m \<notin># op_input op)"

lemma quiet_env_inputs: "quiet_env m env \<Longrightarrow> count (inputs env) m = 0"
  by (induction env) (auto simp: quiet_env_def count_eq_zero_iff)

lemma bound_incarnations_append [simp]:
  "bound_incarnations (ops @ ops') = bound_incarnations ops \<union> bound_incarnations ops'"
  by (auto simp: bound_incarnations_def)

lemma bound_incarnations_simps [simp]:
  "bound_incarnations [OpPoll r replacement current] = {}" "bound_incarnations [OpSubmit m] = {}"
  "bound_incarnations [OpWithdraw r d] = {}"
  by (simp_all add: bound_incarnations_def)

lemma own_ok_mono: "own_ok m S s \<Longrightarrow> S \<subseteq> S' \<Longrightarrow> own_ok m S' s"
  by (auto simp: own_ok_def split: operation_outcome.splits)

lemma own_ok_evolves: "own_ok m S s \<Longrightarrow> evolves S s s' \<Longrightarrow> own_ok m S s'"
  by (auto simp: own_ok_def evolves_def split: operation_outcome.splits)

lemma view_ok_wf: "view_ok ww v \<Longrightarrow> cell_wf (mv_cell v)"
  using mailbox_run_accounts by (auto simp: view_ok_def)

lemma view_log:
  assumes "view_ok ww v" "mailbox_step ww (mv_cell v) op = Inr ((res, effects), c)"
  shows "view_ok ww (log_call op res effects c v)"
  using assms by (simp add: view_ok_def log_call_def mailbox_run_def run_ops_snoc)

lemma step_own:
  assumes v: "view_ok ww v" and s: "mailbox_step ww (mv_cell v) op = Inr ((res, effects), c)" and t: "\<not> touches r op"
    and r: "r < length (mc_operations (mv_cell v))" "own_ok m (bound_incarnations (mv_trace v)) (mc_operations (mv_cell v) ! r)"
  shows "r < length (mc_operations c) \<and> own_ok m (bound_incarnations (mv_trace v @ [op])) (mc_operations c ! r)"
proof -
  let ?S = "bound_incarnations (mv_trace v @ [op])"
  have e: "length (mc_operations (mv_cell v)) \<le> length (mc_operations c) \<and>
      evolves ?S (mc_operations (mv_cell v) ! r) (mc_operations c ! r)"
  proof (rule step_evolves [OF s r(1) t])
    show "bd_incarnation b \<in> ?S" if "mc_phase (mv_cell v) = Bound b" for b
      using view_phase [OF v] that by (auto simp: phase_incarnation_def)
    show "inc \<in> ?S" if "op = OpBind token inc" for token inc
      using that by (auto simp: bound_incarnations_def)
  qed
  have "own_ok m ?S (mc_operations (mv_cell v) ! r)" by (rule own_ok_mono [OF r(2)]) simp
  with e r(1) own_ok_evolves show ?thesis by auto
qed

lemma interfere_spec:
  assumes "view_ok ww v" "interfere ww own env v = Inr v'"
  shows "view_ok ww v' \<and> mv_trace v' = mv_trace v @ env \<and> (\<exists>outs. mv_outs v' = mv_outs v @ outs) \<and>
    (\<forall>r. own = Some r \<and> r < length (mc_operations (mv_cell v)) \<and>
       own_ok m (bound_incarnations (mv_trace v)) (mc_operations (mv_cell v) ! r) \<longrightarrow>
       r < length (mc_operations (mv_cell v')) \<and>
       own_ok m (bound_incarnations (mv_trace v')) (mc_operations (mv_cell v') ! r))"
proof -
  have t: "\<not> touches r op" if "own = Some r" "op \<in> set env" for r op
    using assms(2) that by (auto simp: interfere_def split: if_splits)
  obtain outs c where run: "run_ops (mailbox_step ww) (mv_cell v) env = Inr (outs, c)"
      and v': "v' = \<lparr>mv_cell = c, mv_trace = mv_trace v @ env, mv_outs = mv_outs v @ outs\<rparr>"
    using assms(2) by (auto simp: interfere_def run_bind_eq_Inr split: if_splits)
  have "view_ok ww \<lparr>mv_cell = c, mv_trace = mv_trace v @ env, mv_outs = mv_outs v @ outs\<rparr> \<and>
    (\<forall>r. own = Some r \<and> r < length (mc_operations (mv_cell v)) \<and>
       own_ok m (bound_incarnations (mv_trace v)) (mc_operations (mv_cell v) ! r) \<longrightarrow>
       r < length (mc_operations c) \<and> own_ok m (bound_incarnations (mv_trace v @ env)) (mc_operations c ! r))"
    using run t
  proof (induction env arbitrary: outs c rule: rev_induct)
    case Nil
    with assms(1) show ?case by (auto simp: view_ok_def)
  next
    case (snoc op env)
    then obtain outs1 c1 res effects where r: "run_ops (mailbox_step ww) (mv_cell v) env = Inr (outs1, c1)"
        and s: "mailbox_step ww c1 op = Inr ((res, effects), c)" and outs: "outs = outs1 @ [(res, effects)]"
      by (auto simp: run_ops_snoc)
    let ?v1 = "\<lparr>mv_cell = c1, mv_trace = mv_trace v @ env, mv_outs = mv_outs v @ outs1\<rparr>"
    have ih: "view_ok ww ?v1 \<and> (\<forall>r. own = Some r \<and> r < length (mc_operations (mv_cell v)) \<and>
       own_ok m (bound_incarnations (mv_trace v)) (mc_operations (mv_cell v) ! r) \<longrightarrow>
       r < length (mc_operations c1) \<and> own_ok m (bound_incarnations (mv_trace v @ env)) (mc_operations c1 ! r))"
      by (rule snoc.IH [OF r]) (use snoc.prems(2) in auto)
    have "view_ok ww (log_call op res effects c ?v1)" using view_log [of ww ?v1 op] ih s by simp
    moreover have "r < length (mc_operations c) \<and> own_ok m (bound_incarnations (mv_trace v @ env @ [op])) (mc_operations c ! r)"
      if "own = Some r" "r < length (mc_operations (mv_cell v))"
        "own_ok m (bound_incarnations (mv_trace v)) (mc_operations (mv_cell v) ! r)" for r
      using step_own [of ww ?v1 op res effects c r m] ih s that snoc.prems(2) by simp
    ultimately show ?case by (simp add: log_call_def outs)
  qed
  then show ?thesis by (auto simp: v')
qed

definition recovered :: "'m \<Rightarrow> ('m, 'w) mailbox_view \<Rightarrow> bool" where
  "recovered m v \<longleftrightarrow> handed_back m (mv_outs v) \<or> count (inputs (mv_trace v)) m = 0"

lemma handed_back_append [simp]: "handed_back m (outs @ outs') \<longleftrightarrow> handed_back m outs \<or> handed_back m outs'"
  by (auto simp: handed_back_def)

lemma future_ok_interfere:
  assumes v: "view_ok ww v" "future_ok m f v" and i: "interfere ww (owned_operation f) env v = Inr v'" and q: "quiet_env m env"
  shows "view_ok ww v' \<and> future_ok m f v' \<and> (recovered m v \<longrightarrow> recovered m v')"
proof -
  note spec = interfere_spec [OF v(1) i, of m]
  have "count (inputs (mv_trace v')) m = count (inputs (mv_trace v)) m"
    using spec quiet_env_inputs [OF q] by simp
  with spec v(2) show ?thesis
    by (cases f) (auto simp: future_ok_def owned_operation_def recovered_def)
qed

lemma call_poll_spec:
  assumes v: "view_ok ww v" "future_ok m (Parked r) v" and p: "call_poll ww r replacement current v = Inr (result, v')"
  shows "view_ok ww v' \<and> (case result of
      PollAccepted inc \<Rightarrow> future_ok m (Sent inc) v'
    | PollTerminated m' final \<Rightarrow> m' = m \<and> future_ok m Done v' \<and> recovered m v'
    | _ \<Rightarrow> future_ok m (Parked r) v')"
proof -
  have r: "r < length (mc_operations (mv_cell v))"
    and own: "own_ok m (bound_incarnations (mv_trace v)) (mc_operations (mv_cell v) ! r)"
    using v(2) by (auto simp: future_ok_def)
  obtain wakers st where o: "operation_poll ww replacement current (mc_operations (mv_cell v) ! r) = Inr (result, wakers, st)"
      and v': "v' = log_call (OpPoll r replacement current) (ResPoll result)
        (map (\<lambda>(waker, action). WakerAction waker action) wakers) (upd_operation r (\<lambda>_. st) (mv_cell v)) v"
    using p by (auto simp: call_poll_def run_bind_eq_Inr)
  have "mailbox_step ww (mv_cell v) (OpPoll r replacement current) =
      Inr ((ResPoll result, map (\<lambda>(waker, action). WakerAction waker action) wakers), upd_operation r (\<lambda>_. st) (mv_cell v))"
    using r o by simp
  then have "view_ok ww v'" unfolding v' by (rule view_log [OF v(1)])
  moreover have "case result of
      PollAccepted inc \<Rightarrow> inc \<in> bound_incarnations (mv_trace v)
    | PollTerminated m' final \<Rightarrow> m' = m
    | _ \<Rightarrow> own_ok m (bound_incarnations (mv_trace v)) st"
    using o own
    by (cases replacement) (auto simp: operation_poll_def operation_poll_outcome_def slot_replace_def own_ok_def run_bind_eq_Inr
        split: operation_outcome.splits if_splits)
  moreover have "handed_back m (mv_outs v')" if "result = PollTerminated m final" for final
    using that by (simp add: v' log_call_def handed_back_def poll_messages_def)
  ultimately show ?thesis
    using v(2) r by (cases result) (auto simp: v' log_call_def future_ok_def recovered_def)
qed

definition result_ok :: "child_id \<Rightarrow> 'm \<Rightarrow> 'm send_result \<Rightarrow> ('m, 'w) mailbox_view \<Rightarrow> bool" where
  "result_ok actor m result v \<longleftrightarrow>
     (case result of
        Inl e \<Rightarrow> se_message e = m \<and> se_actor_id e = actor \<and> se_kind e \<in> {SendTerminated, TimedOut} \<and> recovered m v
      | Inr inc \<Rightarrow> inc \<in> bound_incarnations (mv_trace v))"

definition poll_ok :: "child_id \<Rightarrow> 'm \<Rightarrow> 'm send_result poll \<Rightarrow> 'm send_future_state \<Rightarrow> ('m, 'w) mailbox_view \<Rightarrow> bool" where
  "poll_ok actor m result f v \<longleftrightarrow>
     future_ok m f v \<and>
     (case result of
        Pending \<Rightarrow> (\<exists>r. f = Parked r)
      | Ready res \<Rightarrow> result_ok actor m res v \<and> (case res of Inl e \<Rightarrow> f = Done \<and> se_kind e = SendTerminated | Inr inc \<Rightarrow> f = Sent inc))"

lemma send_loop_spec:
  assumes "view_ok ww v" "future_ok m (Parked r) v" "quiet_env m env"
    "send_future_loop ww actor waker env r cloned v = Inr (result, f', v')"
  shows "view_ok ww v' \<and> poll_ok actor m result f' v'"
  using assms
proof (induction ww actor waker env r cloned v rule: send_future_loop.induct)
  case (1 ww actor waker env r cloned v)
  obtain polled v1 where p: "call_poll ww r cloned waker v = Inr (polled, v1)"
    using "1.prems"(4) by (subst (asm) send_future_loop.simps) (auto simp: run_bind_eq_Inr)
  note spec = call_poll_spec [OF "1.prems"(1,2) p]
  have rest: "(case polled of
            PollAccepted incarnation \<Rightarrow> Inr (Ready (Inr incarnation), Sent incarnation, v1)
          | PollTerminated message final_incarnation \<Rightarrow>
              Inr (Ready (Inl (terminated_error actor message final_incarnation)), Done, v1)
          | PollPending \<Rightarrow> Inr (Pending, Parked r, v1)
          | PollNeedsWakerClone \<Rightarrow>
              run_bind (interfere ww (Some r) env v1) (send_future_loop ww actor waker env r (Some waker))) =
      Inr (result, f', v')"
    using "1.prems"(4) p by (subst (asm) send_future_loop.simps) simp
  show ?case
  proof (cases polled)
    case PollNeedsWakerClone
    with rest obtain v2 where i: "interfere ww (Some r) env v1 = Inr v2"
        and l: "send_future_loop ww actor waker env r (Some waker) v2 = Inr (result, f', v')"
      by (auto simp: run_bind_eq_Inr)
    have "view_ok ww v2 \<and> future_ok m (Parked r) v2"
      using future_ok_interfere [of ww v1 m "Parked r" env v2] spec PollNeedsWakerClone i "1.prems"(3)
      by (simp add: owned_operation_def)
    with "1.IH" [OF p refl PollNeedsWakerClone i _ _ "1.prems"(3) l] show ?thesis by blast
  qed (use rest spec in \<open>auto simp: poll_ok_def result_ok_def terminated_error_def future_ok_def\<close>)
qed

lemma call_submit_spec:
  assumes v: "view_ok ww v" "future_ok m (Immediate m) v" and c: "call_submit m v = Inr (submission, v')"
  shows "view_ok ww v' \<and> (case submission of
      SubmissionAccepted inc \<Rightarrow> future_ok m (Sent inc) v'
    | SubmissionParked r \<Rightarrow> future_ok m (Parked r) v'
    | SubmissionTerminated m' final \<Rightarrow> m' = m \<and> future_ok m Done v' \<and> recovered m v')"
proof -
  obtain effects cell where su: "submit m (mv_cell v) = Inr ((submission, effects), cell)"
      and v': "v' = log_call (OpSubmit m) (ResSubmit submission) effects cell v"
    using c by (auto simp: call_submit_def run_bind_eq_Inr)
  have "view_ok ww v'" unfolding v' by (rule view_log [OF v(1)]) (simp add: as_result_def su)
  moreover obtain c1 where l: "submit_locked m (mv_cell v) = Inr (submission, c1)" "mc_operations cell = mc_operations c1"
    using su by (auto simp: submit_def run_bind_eq_Inr txn_finish_def)
  then have "case submission of
      SubmissionAccepted inc \<Rightarrow> inc \<in> bound_incarnations (mv_trace v)
    | SubmissionParked r \<Rightarrow> r < length (mc_operations cell) \<and> (\<exists>seen. os_outcome (mc_operations cell ! r) = Waiting m seen)
    | SubmissionTerminated m' final \<Rightarrow> m' = m"
  proof (cases "mc_phase (mv_cell v)")
    case (Bound b)
    with l obtain acc c2 where a: "accept_locked b m (mv_cell v) = Inr (acc, c2)"
      by (auto simp: submit_locked_def run_bind_eq_Inr)
    have "bd_incarnation b \<in> bound_incarnations (mv_trace v)" "acc = Inl m \<or> acc = Inr (bd_incarnation b)"
      using view_phase [OF v(1)] Bound a
      by (auto simp: phase_incarnation_def accept_locked_def run_bind_eq_Inr split: if_splits)
    with l Bound a show ?thesis
      by (auto simp: submit_locked_def txn_park_def waiters_park_def run_bind_eq_Inr Let_def operation_new_def)
  qed (auto simp: submit_locked_def txn_park_def waiters_park_def run_bind_eq_Inr Let_def operation_new_def)
  moreover have "handed_back m (mv_outs v')" if "submission = SubmissionTerminated m final" for final
    using that by (simp add: v' log_call_def handed_back_def submission_messages_def)
  ultimately show ?thesis
    using v(2) by (cases submission) (auto simp: v' log_call_def future_ok_def recovered_def own_ok_def)
qed

lemma send_future_poll_spec:
  assumes v: "view_ok ww v" "future_ok m f v" and q: "quiet_env m env1" "quiet_env m env2"
    and p: "send_future_poll ww actor waker env1 env2 f v = Inr (result, f', v')"
  shows "view_ok ww v' \<and> poll_ok actor m result f' v'"
proof (cases f)
  case (Immediate m')
  then have m': "m' = m" using v(2) by (simp add: future_ok_def)
  obtain submission v1 where c: "call_submit m v = Inr (submission, v1)"
    using p Immediate m' by (auto simp: send_future_poll_def run_bind_eq_Inr)
  note spec = call_submit_spec [OF v(1) v(2) [unfolded Immediate m'] c]
  show ?thesis
  proof (cases submission)
    case (SubmissionParked r)
    with p c Immediate m' obtain v2 where i: "interfere ww (Some r) env1 v1 = Inr v2"
        and l: "send_future_loop ww actor waker env2 r None v2 = Inr (result, f', v')"
      by (auto simp: send_future_poll_def run_bind_eq_Inr)
    have "view_ok ww v2 \<and> future_ok m (Parked r) v2"
      using future_ok_interfere [of ww v1 m "Parked r" env1 v2] spec SubmissionParked i q(1)
      by (simp add: owned_operation_def)
    with send_loop_spec [OF _ _ q(2) l] show ?thesis by blast
  qed (use p c Immediate m' spec in \<open>auto simp: send_future_poll_def poll_ok_def result_ok_def terminated_error_def future_ok_def\<close>)
next
  case (Parked r)
  with p obtain v2 where i: "interfere ww (Some r) env1 v = Inr v2"
      and l: "send_future_loop ww actor waker env2 r None v2 = Inr (result, f', v')"
    by (auto simp: send_future_poll_def run_bind_eq_Inr)
  have "view_ok ww v2 \<and> future_ok m (Parked r) v2"
    using future_ok_interfere [of ww v m "Parked r" env1 v2] v Parked i q(1) by (simp add: owned_operation_def)
  with send_loop_spec [OF _ _ q(2) l] show ?thesis by blast
qed (use p v in \<open>auto simp: send_future_poll_def poll_ok_def result_ok_def future_ok_def\<close>)

lemma send_future_withdraw_spec:
  assumes v: "view_ok ww v" "future_ok m f v" and w: "send_future_withdraw d f v = Inr (outcome, v')"
  shows "view_ok ww v' \<and> future_ok m Done v' \<and> (case outcome of
      Some (OutAccepted inc) \<Rightarrow> inc \<in> bound_incarnations (mv_trace v')
    | Some (OutWithdrawn m' _) \<Rightarrow> m' = m \<and> recovered m v'
    | Some (OutTerminated m' _) \<Rightarrow> m' = m \<and> recovered m v'
    | None \<Rightarrow> False)"
proof (cases f)
  case (Parked r)
  have r: "r < length (mc_operations (mv_cell v))"
    and own: "own_ok m (bound_incarnations (mv_trace v)) (mc_operations (mv_cell v) ! r)"
    using v(2) Parked by (auto simp: future_ok_def)
  obtain wd effects c where wi: "withdraw r d (mv_cell v) = Inr ((wd, effects), c)" and outcome: "outcome = wd_outcome wd"
      and v': "v' = log_call (OpWithdraw r d) (ResWithdraw wd) effects c v"
    using w Parked by (auto simp: send_future_withdraw_def call_withdraw_def run_bind_eq_Inr)
  have "view_ok ww v'" unfolding v' by (rule view_log [OF v(1)]) (use r wi in \<open>simp add: as_result_def\<close>)
  moreover have "case wd_outcome wd of
      Some (OutAccepted inc) \<Rightarrow> inc \<in> bound_incarnations (mv_trace v)
    | Some (OutWithdrawn m' _) \<Rightarrow> m' = m
    | Some (OutTerminated m' _) \<Rightarrow> m' = m
    | None \<Rightarrow> False"
    using wi own by (auto simp: withdraw_def txn_finish_def Let_def slot_take_def own_ok_def split: operation_outcome.splits)
  moreover have "handed_back m (mv_outs v')" if "m \<in># withdrawal_messages wd"
    using that by (simp add: v' log_call_def handed_back_def)
  ultimately show ?thesis
    using v(2) Parked
    by (auto simp: v' log_call_def future_ok_def recovered_def outcome withdrawal_messages_def
        split: option.splits withdrawal_outcome.splits)
qed (use w v in \<open>auto simp: send_future_withdraw_def future_ok_def recovered_def\<close>)

lemma withdraw_send_spec:
  assumes v: "view_ok ww v" "future_ok m f v" and w: "withdraw_send_with actor d f v = Inr (res, f', v')"
  shows "view_ok ww v' \<and> future_ok m Done v' \<and> f' = Done \<and> result_ok actor m res v'"
proof -
  obtain outcome v1 where s: "send_future_withdraw d f v = Inr (outcome, v1)"
    using w by (auto simp: withdraw_send_with_def run_bind_eq_Inr)
  from send_future_withdraw_spec [OF v s] w s show ?thesis
    by (cases outcome) (auto simp: withdraw_send_with_def result_ok_def terminated_error_def split: withdrawal_outcome.splits)
qed

text \<open>What can happen to a send future: the system moves, it is polled, timed out by a deadline, or dropped.\<close>

datatype ('m, 'w) future_call =
    FutureEnv "('m, 'w) mailbox_op list"
  | FuturePoll 'w "('m, 'w) mailbox_op list" "('m, 'w) mailbox_op list"
  | FutureTimeout withdrawal_disposition
  | FutureDrop

datatype 'm future_output =
    Resolved "'m send_result"
  | Unresolved
  | Disposed "'m list"

fun call_env :: "('m, 'w) future_call \<Rightarrow> ('m, 'w) mailbox_op list" where
  "call_env (FutureEnv env) = env"
| "call_env (FuturePoll _ env1 env2) = env1 @ env2"
| "call_env _ = []"

fun future_step ::
  "('w \<Rightarrow> 'w \<Rightarrow> bool) \<Rightarrow> child_id \<Rightarrow> 'm send_future_state \<times> ('m, 'w) mailbox_view \<Rightarrow> ('m, 'w) future_call \<Rightarrow>
   ('m future_output \<times> 'm send_future_state \<times> ('m, 'w) mailbox_view) run" where
  "future_step ww actor (f, v) (FutureEnv env) =
     run_bind (interfere ww (owned_operation f) env v) (\<lambda>v1. Inr (Unresolved, f, v1))"
| "future_step ww actor (f, v) (FuturePoll waker env1 env2) =
     run_bind (send_future_poll ww actor waker env1 env2 f v)
       (\<lambda>(result, f1, v1). Inr (case result of Pending \<Rightarrow> Unresolved | Ready res \<Rightarrow> Resolved res, f1, v1))"
| "future_step ww actor (f, v) (FutureTimeout disposition) =
     run_bind (withdraw_send_with actor disposition f v) (\<lambda>(res, f1, v1). Inr (Resolved res, f1, v1))"
| "future_step ww actor (f, v) FutureDrop =
     run_bind (send_future_drop f v) (\<lambda>(messages, v1). Inr (Disposed messages, Done, v1))"

lemma send_future_drop_spec:
  assumes v: "view_ok ww v" "future_ok m f v" and d: "send_future_drop f v = Inr (ms, v')"
  shows "view_ok ww v' \<and> future_ok m Done v' \<and> (ms = [] \<or> ms = [m] \<and> recovered m v') \<and> (f = Done \<longrightarrow> v' = v)"
proof (cases f)
  case (Parked r)
  with d obtain outcome where w: "send_future_withdraw Isolated f v = Inr (outcome, v')"
      and ms: "ms = (case outcome of Some (OutWithdrawn message _) \<Rightarrow> [message] | Some (OutTerminated message _) \<Rightarrow> [message] | _ \<Rightarrow> [])"
    by (auto simp: send_future_drop_def send_future_withdraw_def run_bind_eq_Inr)
  from send_future_withdraw_spec [OF v w] ms Parked show ?thesis
    by (auto split: option.splits withdrawal_outcome.splits)
qed (use d v in \<open>auto simp: send_future_drop_def future_ok_def recovered_def\<close>)

definition future_inv ::
  "('w \<Rightarrow> 'w \<Rightarrow> bool) \<Rightarrow> child_id \<Rightarrow> 'm \<Rightarrow> 'm future_output list \<Rightarrow> 'm send_future_state \<Rightarrow> ('m, 'w) mailbox_view \<Rightarrow> bool" where
  "future_inv ww actor m outs f v \<longleftrightarrow>
     view_ok ww v \<and> future_ok m f v \<and>
     (\<forall>res. Resolved res \<in> set outs \<longrightarrow> result_ok actor m res v) \<and>
     (\<forall>ms. Disposed ms \<in> set outs \<longrightarrow> f = Done \<and> (ms = [] \<or> ms = [m] \<and> recovered m v)) \<and>
     (\<forall>e. Resolved (Inl e) \<in> set outs \<longrightarrow> f = Done \<and> (\<forall>inc. Resolved (Inr inc) \<notin> set outs)) \<and>
     (\<forall>inc. Resolved (Inr inc) \<in> set outs \<longrightarrow> f = Done \<or> (\<exists>inc'. f = Sent inc'))"

text \<open>Once a future has resolved or was dropped, it changes the mailbox no more.\<close>

lemma future_inv_open:
  "future_inv ww actor m outs f v \<Longrightarrow> f \<noteq> Done \<Longrightarrow> (\<And>inc. f \<noteq> Sent inc) \<Longrightarrow> set outs \<subseteq> {Unresolved}"
  unfolding future_inv_def by (metis future_output.exhaust insertCI subsetI sum.exhaust)

lemma future_inv_env:
  assumes inv: "future_inv ww actor m outs f v" and q: "quiet_env m env"
    and i: "interfere ww (owned_operation f) env v = Inr v'"
  shows "future_inv ww actor m (outs @ [Unresolved]) f v'"
proof -
  have v: "view_ok ww v" "future_ok m f v" using inv by (simp_all add: future_inv_def)
  note ok = future_ok_interfere [OF v i q] and trace = interfere_spec [OF v(1) i, of m]
  have "result_ok actor m res v'" if "result_ok actor m res v" for res
    using that ok trace by (auto simp: result_ok_def split: sum.splits)
  with inv ok show ?thesis unfolding future_inv_def by auto
qed

lemma future_inv_first:
  assumes "view_ok ww v'" "future_ok m f' v'" "set outs \<subseteq> {Unresolved}"
    "case out of
       Resolved res \<Rightarrow> result_ok actor m res v' \<and> (case res of Inl _ \<Rightarrow> f' = Done | Inr inc \<Rightarrow> f' = Done \<or> f' = Sent inc)
     | Disposed ms \<Rightarrow> f' = Done \<and> (ms = [] \<or> ms = [m] \<and> recovered m v')
     | Unresolved \<Rightarrow> True"
  shows "future_inv ww actor m (outs @ [out]) f' v'"
  using assms unfolding future_inv_def by (cases out) (auto split: sum.splits)

lemma future_inv_again:
  assumes inv: "future_inv ww actor m outs f v" and f: "f = Sent inc"
    and out: "out = Resolved (Inr inc) \<and> (f' = f \<or> f' = Done) \<or> out = Disposed [] \<and> f' = Done"
  shows "future_inv ww actor m (outs @ [out]) f' v"
  using assms unfolding future_inv_def by (auto simp: future_ok_def result_ok_def)

lemma future_inv_step:
  assumes inv: "future_inv ww actor m outs f v" and q: "quiet_env m (call_env call)"
    and s: "future_step ww actor (f, v) call = Inr (out, f', v')"
  shows "future_inv ww actor m (outs @ [out]) f' v'"
proof -
  have v: "view_ok ww v" "future_ok m f v" using inv by (simp_all add: future_inv_def)
  show ?thesis
  proof (cases call)
    case (FutureEnv env)
    with s have i: "interfere ww (owned_operation f) env v = Inr v'" and "f' = f" "out = Unresolved"
      by (auto simp: run_bind_eq_Inr)
    with future_inv_env [OF inv _ i] q FutureEnv show ?thesis by simp
  next
    case (FuturePoll waker env1 env2)
    obtain result where p: "send_future_poll ww actor waker env1 env2 f v = Inr (result, f', v')"
        and out: "out = (case result of Pending \<Rightarrow> Unresolved | Ready res \<Rightarrow> Resolved res)"
      using s FuturePoll by (auto simp: run_bind_eq_Inr)
    have q': "quiet_env m env1" "quiet_env m env2" using q FuturePoll by (auto simp: quiet_env_def)
    consider inc where "f = Sent inc" | "set outs \<subseteq> {Unresolved}"
      using future_inv_open [OF inv] p by (cases f) (auto simp: send_future_poll_def)
    then show ?thesis
    proof cases
      case 1
      then have "f' = f" "v' = v" "out = Resolved (Inr inc)" using p out by (auto simp: send_future_poll_def)
      with future_inv_again [OF inv 1] show ?thesis by simp
    next
      case 2
      with send_future_poll_spec [OF v q' p] show ?thesis
        by (intro future_inv_first) (auto simp: out poll_ok_def split: poll.splits sum.splits)
    qed
  next
    case (FutureTimeout d)
    obtain res where p: "withdraw_send_with actor d f v = Inr (res, f', v')" and out: "out = Resolved res"
      using s FutureTimeout by (auto simp: run_bind_eq_Inr)
    consider inc where "f = Sent inc" | "set outs \<subseteq> {Unresolved}"
      using future_inv_open [OF inv] p by (cases f) (auto simp: withdraw_send_with_def send_future_withdraw_def)
    then show ?thesis
    proof cases
      case 1
      then have "f' = Done" "v' = v" "out = Resolved (Inr inc)"
        using p out by (auto simp: withdraw_send_with_def send_future_withdraw_def)
      with future_inv_again [OF inv 1] show ?thesis by simp
    next
      case 2
      with withdraw_send_spec [OF v p] show ?thesis
        by (intro future_inv_first) (auto simp: out split: sum.splits)
    qed
  next
    case FutureDrop
    obtain ms where p: "send_future_drop f v = Inr (ms, v')" and out: "out = Disposed ms" "f' = Done"
      using s FutureDrop by (auto simp: run_bind_eq_Inr)
    consider "f = Done" | inc where "f = Sent inc" | "set outs \<subseteq> {Unresolved}" using future_inv_open [OF inv] by blast
    then show ?thesis
    proof cases
      case 1
      with p inv out show ?thesis by (auto simp: send_future_drop_def future_inv_def)
    next
      case 2
      then have "v' = v" "out = Disposed []" using p out by (auto simp: send_future_drop_def)
      with future_inv_again [OF inv 2] out(2) show ?thesis by simp
    next
      case 3
      with send_future_drop_spec [OF v p] show ?thesis by (intro future_inv_first) (auto simp: out)
    qed
  qed
qed

lemma future_run_inv:
  assumes "view_ok ww v0" "future_ok m f0 v0" "\<forall>call \<in> set calls. quiet_env m (call_env call)"
    "run_ops (future_step ww actor) (f0, v0) calls = Inr (outs, f, v)"
  shows "future_inv ww actor m outs f v"
  using assms(3,4)
proof (induction calls arbitrary: outs f v rule: rev_induct)
  case Nil
  with assms(1,2) show ?case by (simp add: future_inv_def)
next
  case (snoc call calls)
  then obtain outs1 f1 v1 out where r: "run_ops (future_step ww actor) (f0, v0) calls = Inr (outs1, f1, v1)"
      and s: "future_step ww actor (f1, v1) call = Inr (out, f, v)" and outs: "outs = outs1 @ [out]"
    by (auto simp: run_ops_snoc)
  have "future_inv ww actor m outs1 f1 v1" by (rule snoc.IH [OF _ r]) (use snoc.prems(1) in simp)
  from future_inv_step [OF this _ s] snoc.prems(1) outs show ?case by simp
qed

lemma recovered_undelivered:
  assumes "view_ok ww v" "future_ok m f v" "recovered m v"
  shows "undelivered m (mv_outs v) (mv_cell v)"
  using assms handed_back_undelivered unsent_undelivered
  by (auto simp: view_ok_def future_ok_def recovered_def)


section \<open>A send with a deadline\<close>

datatype ('m, 'w) timeout_call =
    TimeoutEnv "('m, 'w) mailbox_op list"
  | TimeoutPoll instant bool 'w "deadline_phase \<Rightarrow> ('m, 'w) interference"

fun timeout_step ::
  "('w \<Rightarrow> 'w \<Rightarrow> bool) \<Rightarrow> child_id \<Rightarrow> 'm send_future_state deadlined \<times> ('m, 'w) mailbox_view \<Rightarrow> ('m, 'w) timeout_call \<Rightarrow>
   ('m send_result poll \<times> 'm send_future_state deadlined \<times> ('m, 'w) mailbox_view) run" where
  "timeout_step ww actor (d, v) (TimeoutEnv env) =
     run_bind (interfere ww (owned_operation (dl_operation d)) env v) (\<lambda>v1. Inr (Pending, d, v1))"
| "timeout_step ww actor (d, v) (TimeoutPoll now elapsed waker env) =
     send_timeout_poll ww actor now elapsed waker env d v"

fun quiet_timeout :: "'m \<Rightarrow> ('m, 'w) timeout_call \<Rightarrow> bool" where
  "quiet_timeout m (TimeoutEnv env) \<longleftrightarrow> quiet_env m env"
| "quiet_timeout m (TimeoutPoll _ _ _ env) \<longleftrightarrow>
     (\<forall>phase \<in> {InitialAttempt, TimeoutArbitration}.
        quiet_env m (if_looking (env phase)) \<and> quiet_env m (if_cloning (env phase)) \<and> quiet_env m (if_withdrawing (env phase)))"

text \<open>The clock reading of the first poll, from which the deadline counts.\<close>

fun first_poll :: "('m, 'w) timeout_call list \<Rightarrow> instant option" where
  "first_poll [] = None"
| "first_poll (TimeoutEnv _ # calls) = first_poll calls"
| "first_poll (TimeoutPoll now _ _ _ # calls) = Some now"

lemma first_poll_snoc [simp]:
  "first_poll (calls @ [TimeoutEnv env]) = first_poll calls"
  "first_poll (calls @ [TimeoutPoll now elapsed waker e]) =
     (case first_poll calls of None \<Rightarrow> Some now | Some t \<Rightarrow> Some t)"
  by (induction calls rule: first_poll.induct) auto

definition timeout_inv ::
  "('w \<Rightarrow> 'w \<Rightarrow> bool) \<Rightarrow> 'm \<Rightarrow> deadline_budget \<Rightarrow> instant option \<Rightarrow> 'm send_future_state deadlined \<Rightarrow>
   ('m, 'w) mailbox_view \<Rightarrow> bool" where
  "timeout_inv ww m b t d v \<longleftrightarrow>
     view_ok ww v \<and> future_ok m (dl_operation d) v \<and> dl_budget_width d = b \<and> dl_phase d = InitialAttempt \<and>
     (case t of
        None \<Rightarrow> \<not> dl_started d \<and> dl_operation d = Immediate m
      | Some s \<Rightarrow> \<not> budget_is_zero b \<and> dl_started d \<and> dl_budget d = Some (deadline_after s (budget_duration b)) \<and>
          dl_timer d = (deadline_instant (deadline_after s (budget_duration b)) \<noteq> None))"

definition timeout_verdict ::
  "child_id \<Rightarrow> 'm \<Rightarrow> bool \<Rightarrow> 'm send_result \<Rightarrow> ('m, 'w) mailbox_view \<Rightarrow> bool" where
  "timeout_verdict actor m expired result v \<longleftrightarrow>
     result_ok actor m result v \<and> (\<exists>f. future_ok m f v) \<and> (\<forall>e. result = Inl e \<and> se_kind e = TimedOut \<longrightarrow> expired)"

lemma send_poll_deadlined_spec:
  assumes v: "view_ok ww v" "future_ok m f v"
    and q: "quiet_env m (if_looking (env phase))" "quiet_env m (if_cloning (env phase))" "quiet_env m (if_withdrawing (env phase))"
    and p: "send_poll_deadlined ww actor waker env budget phase f v = Inr (result, f', v')"
  shows "view_ok ww v' \<and> future_ok m f' v' \<and> (case result of
      Pending \<Rightarrow> phase = InitialAttempt
    | Ready res \<Rightarrow> timeout_verdict actor m (phase = TimeoutArbitration) res v')"
proof -
  obtain result1 f1 v1 where p1: "send_future_poll ww actor waker (if_looking (env phase)) (if_cloning (env phase)) f v
      = Inr (result1, f1, v1)" using p by (auto simp: send_poll_deadlined_def run_bind_eq_Inr)
  note spec = send_future_poll_spec [OF v q(1,2) p1]
  show ?thesis
  proof (cases result1)
    case (Ready res)
    with p p1 spec show ?thesis
      by (cases res) (auto simp: send_poll_deadlined_def poll_ok_def timeout_verdict_def)
  next
    case Pending
    show ?thesis
    proof (cases phase)
      case InitialAttempt
      with Pending p p1 spec show ?thesis by (auto simp: send_poll_deadlined_def poll_ok_def)
    next
      case TimeoutArbitration
      with Pending p p1 obtain v2 res where i: "interfere ww (owned_operation f1) (if_withdrawing (env phase)) v1 = Inr v2"
          and w: "withdraw_send_with actor Inline f1 v2 = Inr (res, f', v')" and res: "result = Ready res"
        by (auto simp: send_poll_deadlined_def run_bind_eq_Inr)
      have "view_ok ww v2 \<and> future_ok m f1 v2"
        using future_ok_interfere [OF _ _ i q(3)] spec by (simp add: poll_ok_def)
      with withdraw_send_spec [OF _ _ w] show ?thesis
        by (auto simp: res timeout_verdict_def TimeoutArbitration)
    qed
  qed
qed

lemma timeout_zero:
  assumes "timeout_inv ww m b t d v" "budget_is_zero b" "send_timeout_poll ww actor now elapsed waker env d v = Inr (result, d', v')"
  shows "v' = v \<and> result = Ready (Inl \<lparr>se_actor_id = actor, se_incarnation_observed = phase_observation (mc_phase (mv_cell v)),
    se_message = m, se_kind = TimedOut\<rparr>)"
  using assms
  by (auto simp: timeout_inv_def send_timeout_poll_def deadlined_poll_def deadlined_start_def Let_def withdraw_send_with_def
      send_future_withdraw_def run_bind_eq_Inr split: option.splits)

definition captured :: "deadline_budget \<Rightarrow> instant \<Rightarrow> deadline" where
  "captured b t = deadline_after t (budget_duration b)"

lemma timeout_poll_spec:
  assumes inv: "timeout_inv ww m b t d v" and z: "\<not> budget_is_zero b" and q: "quiet_timeout m (TimeoutPoll now elapsed waker env)"
    and p: "send_timeout_poll ww actor now elapsed waker env d v = Inr (result, d', v')"
  defines "s \<equiv> (case t of None \<Rightarrow> now | Some s \<Rightarrow> s)"
  defines "expired \<equiv> elapsed \<and> deadline_instant (captured b s) \<noteq> None"
  shows "case result of
      Pending \<Rightarrow> \<not> expired \<and> timeout_inv ww m b (Some s) d' v'
    | Ready res \<Rightarrow> view_ok ww v' \<and> timeout_verdict actor m expired res v'"
proof -
  let ?d = "deadlined_start now d" and ?budget = "captured b s"
  have d: "dl_budget_width ?d = b" "dl_budget ?d = Some ?budget" "dl_timer ?d = (deadline_instant ?budget \<noteq> None)"
    "dl_phase ?d = InitialAttempt" "dl_operation ?d = dl_operation d" "dl_started ?d"
    using inv z by (auto simp: timeout_inv_def deadlined_start_def Let_def s_def captured_def split: option.splits)
  have v: "view_ok ww v" "future_ok m (dl_operation d) v" using inv by (auto simp: timeout_inv_def)
  obtain attempt f v1 where a: "send_poll_deadlined ww actor waker env ?budget InitialAttempt (dl_operation d) v
      = Inr (attempt, f, v1)"
    using p d z by (auto simp: send_timeout_poll_def deadlined_poll_def Let_def run_bind_eq_Inr)
  note first = send_poll_deadlined_spec [OF v _ _ _ a]
  have first: "view_ok ww v1 \<and> future_ok m f v1 \<and> (case attempt of
      Pending \<Rightarrow> True | Ready res \<Rightarrow> timeout_verdict actor m False res v1)"
    using first q by (auto split: poll.splits)
  consider res where "attempt = Ready res" | "attempt = Pending" "\<not> expired" | "attempt = Pending" "expired"
    by (cases attempt) auto
  then show ?thesis
  proof cases
    case 1
    with p a d z first show ?thesis
      by (auto simp: send_timeout_poll_def deadlined_poll_def Let_def timeout_verdict_def)
  next
    case 2
    with p a d z have "result = Pending" "v' = v1" "d' = ?d\<lparr>dl_operation := f\<rparr>"
      by (auto simp: send_timeout_poll_def deadlined_poll_def Let_def poll_timer_def expired_def split: if_splits)
    with 2 first d z show ?thesis by (simp add: timeout_inv_def captured_def)
  next
    case 3
    with p a d z obtain f' where r: "send_poll_deadlined ww actor waker env ?budget TimeoutArbitration f v1 = Inr (result, f', v')"
      by (auto simp: send_timeout_poll_def deadlined_poll_def Let_def poll_timer_def expired_def run_bind_eq_Inr)
    from send_poll_deadlined_spec [OF _ _ _ _ _ r] first q 3 show ?thesis by (auto split: poll.splits)
  qed
qed

text \<open>
  What a call on the cell tells the sender: a message accepted, a message terminated by the mailbox, or a
  message that was still waiting when it was withdrawn.
\<close>

fun call_verdict :: "child_id \<Rightarrow> 'm mailbox_result \<Rightarrow> 'm send_result option" where
  "call_verdict actor (ResSubmit (SubmissionAccepted inc)) = Some (Inr inc)"
| "call_verdict actor (ResSubmit (SubmissionTerminated m seen)) = Some (Inl (terminated_error actor m seen))"
| "call_verdict actor (ResPoll (PollAccepted inc)) = Some (Inr inc)"
| "call_verdict actor (ResPoll (PollTerminated m seen)) = Some (Inl (terminated_error actor m seen))"
| "call_verdict actor (ResWithdraw w) =
     (case wd_outcome w of
        None \<Rightarrow> None
      | Some (OutAccepted inc) \<Rightarrow> Some (Inr inc)
      | Some (OutTerminated m seen) \<Rightarrow> Some (Inl (terminated_error actor m seen))
      | Some (OutWithdrawn m seen) \<Rightarrow>
          Some (Inl \<lparr>se_actor_id = actor, se_incarnation_observed = seen, se_message = m, se_kind = TimedOut\<rparr>))"
| "call_verdict actor _ = None"

definition told :: "child_id \<Rightarrow> 'm send_result \<Rightarrow> ('m, 'w) mailbox_view \<Rightarrow> bool" where
  "told actor result v \<longleftrightarrow> mv_outs v \<noteq> [] \<and> call_verdict actor (fst (last (mv_outs v))) = Some result"

definition unsettled :: "'m send_future_state \<Rightarrow> bool" where
  "unsettled f \<longleftrightarrow> (case f of Immediate _ \<Rightarrow> True | Parked _ \<Rightarrow> True | _ \<Rightarrow> False)"

lemma send_loop_told:
  "send_future_loop ww actor waker env r cloned v = Inr (result, f', v') \<Longrightarrow>
   case result of Pending \<Rightarrow> f' = Parked r | Ready res \<Rightarrow> told actor res v'"
proof (induction ww actor waker env r cloned v rule: send_future_loop.induct)
  case (1 ww actor waker env r cloned v)
  obtain polled v1 where p: "call_poll ww r cloned waker v = Inr (polled, v1)"
    using "1.prems" by (subst (asm) send_future_loop.simps) (auto simp: run_bind_eq_Inr)
  then have last: "mv_outs v1 \<noteq> []" "fst (last (mv_outs v1)) = ResPoll polled"
    by (auto simp: call_poll_def run_bind_eq_Inr log_call_def)
  show ?case
  proof (cases polled)
    case PollNeedsWakerClone
    with "1.prems" p obtain v2 where i: "interfere ww (Some r) env v1 = Inr v2"
        and l: "send_future_loop ww actor waker env r (Some waker) v2 = Inr (result, f', v')"
      by (subst (asm) send_future_loop.simps) (auto simp: run_bind_eq_Inr)
    from "1.IH" [OF p _ PollNeedsWakerClone i l] show ?thesis by simp
  qed (use "1.prems" p last in \<open>subst (asm) send_future_loop.simps, auto simp: told_def\<close>)+
qed

lemma send_poll_told:
  assumes "unsettled f" "send_future_poll ww actor waker env1 env2 f v = Inr (result, f', v')"
  shows "case result of Pending \<Rightarrow> \<exists>r. f' = Parked r | Ready res \<Rightarrow> told actor res v'"
proof (cases f)
  case (Immediate m)
  with assms(2) obtain submission v1 where s: "call_submit m v = Inr (submission, v1)"
    by (auto simp: send_future_poll_def run_bind_eq_Inr)
  then have last: "mv_outs v1 \<noteq> []" "fst (last (mv_outs v1)) = ResSubmit submission"
    by (auto simp: call_submit_def run_bind_eq_Inr log_call_def)
  with Immediate assms(2) s show ?thesis
    by (cases submission)
      (auto simp: send_future_poll_def run_bind_eq_Inr told_def dest!: send_loop_told split: poll.splits)
qed (use assms in \<open>auto simp: send_future_poll_def run_bind_eq_Inr unsettled_def dest!: send_loop_told split: poll.splits\<close>)

lemma withdraw_send_told:
  assumes "withdraw_send_with actor disposition (Parked r) v = Inr (result, f', v')"
  shows "told actor result v'"
proof -
  obtain w effects c where "withdraw r disposition (mv_cell v) = Inr ((w, effects), c)"
    using assms by (auto simp: withdraw_send_with_def send_future_withdraw_def call_withdraw_def run_bind_eq_Inr)
  with assms show ?thesis
    by (cases "wd_outcome w"; cases "the (wd_outcome w)")
      (auto simp: withdraw_send_with_def send_future_withdraw_def call_withdraw_def told_def log_call_def)
qed

lemma poll_deadlined_told:
  assumes "unsettled f" "send_poll_deadlined ww actor waker env budget phase f v = Inr (result, f', v')"
  shows "case result of Pending \<Rightarrow> unsettled f' | Ready res \<Rightarrow> told actor res v'"
proof -
  obtain result1 f1 v1 where p: "send_future_poll ww actor waker (if_looking (env phase)) (if_cloning (env phase)) f v
      = Inr (result1, f1, v1)" using assms(2) by (auto simp: send_poll_deadlined_def run_bind_eq_Inr)
  from send_poll_told [OF assms(1) p] p assms(2) show ?thesis
    by (cases result1)
      (auto simp: send_poll_deadlined_def run_bind_eq_Inr unsettled_def split: if_splits dest!: withdraw_send_told)
qed

lemma timeout_poll_told:
  assumes "unsettled (dl_operation d)" "\<not> budget_is_zero (dl_budget_width d)"
    "send_timeout_poll ww actor now elapsed waker env d v = Inr (result, d', v')"
  shows "case result of Pending \<Rightarrow> unsettled (dl_operation d') | Ready res \<Rightarrow> told actor res v'"
proof -
  let ?d = "deadlined_start now d"
  have d: "dl_operation ?d = dl_operation d" "dl_budget_width ?d = dl_budget_width d"
    by (simp_all add: deadlined_start_def Let_def)
  obtain budget attempt f v1 where b: "dl_budget ?d = Some budget"
      and a: "send_poll_deadlined ww actor waker env budget InitialAttempt (dl_operation d) v = Inr (attempt, f, v1)"
    using assms(2,3) d by (auto simp: send_timeout_poll_def deadlined_poll_def Let_def run_bind_eq_Inr split: option.splits)
  note first = poll_deadlined_told [OF assms(1) a]
  show ?thesis
  proof (cases attempt)
    case (Ready res)
    with assms(2,3) a b d first show ?thesis
      by (auto simp: send_timeout_poll_def deadlined_poll_def Let_def)
  next
    case Pending
    with assms(2,3) a b d consider "result = Pending" "dl_operation d' = f"
      | f' where "send_poll_deadlined ww actor waker env budget TimeoutArbitration f v1 = Inr (result, f', v')"
          "dl_operation d' = f'"
      by (auto simp: send_timeout_poll_def deadlined_poll_def Let_def run_bind_eq_Inr split: if_splits poll.splits)
        (metis (full_types) old.unit.exhaust poll.exhaust)
    then show ?thesis
      using first Pending poll_deadlined_told [of f] by cases auto
  qed
qed

lemma timeout_run_unsettled:
  assumes "unsettled (dl_operation d0)" "\<not> budget_is_zero (dl_budget_width d0)"
    "run_ops (timeout_step ww actor) (d0, v0) calls = Inr (outs, d, v)" "set outs \<subseteq> {Pending}"
  shows "unsettled (dl_operation d) \<and> dl_budget_width d = dl_budget_width d0"
  using assms(3,4)
proof (induction calls arbitrary: outs d v rule: rev_induct)
  case (snoc call calls)
  then obtain outs1 d1 v1 out where r: "run_ops (timeout_step ww actor) (d0, v0) calls = Inr (outs1, d1, v1)"
      and s: "timeout_step ww actor (d1, v1) call = Inr (out, d, v)" and outs: "outs = outs1 @ [out]"
    by (auto simp: run_ops_snoc)
  have ih: "unsettled (dl_operation d1) \<and> dl_budget_width d1 = dl_budget_width d0"
    by (rule snoc.IH [OF r]) (use snoc.prems outs in auto)
  have out: "out = Pending" using snoc.prems outs by simp
  show ?case
  proof (cases call)
    case (TimeoutPoll now elapsed waker env)
    with s have p: "send_timeout_poll ww actor now elapsed waker env d1 v1 = Inr (Pending, d, v)" using out by simp
    then have "dl_budget_width d = dl_budget_width d1"
      by (auto simp: send_timeout_poll_def deadlined_poll_def deadlined_start_def Let_def run_bind_eq_Inr
          split: if_splits option.splits poll.splits) (metis (full_types) old.unit.exhaust poll.exhaust)+
    with timeout_poll_told [OF _ _ p] ih assms(2) show ?thesis by simp
  qed (use s ih in \<open>auto simp: run_bind_eq_Inr\<close>)
qed (use assms in simp)

lemma timeout_run_inv:
  assumes "timeout_inv ww m b None d0 v0" "\<forall>call \<in> set calls. quiet_timeout m call"
    "run_ops (timeout_step ww actor) (d0, v0) calls = Inr (outs, d, v)" "set outs \<subseteq> {Pending}"
  shows "timeout_inv ww m b (first_poll calls) d v"
  using assms(2-4)
proof (induction calls arbitrary: outs d v rule: rev_induct)
  case Nil
  with assms(1) show ?case by simp
next
  case (snoc call calls)
  then obtain outs1 d1 v1 out where r: "run_ops (timeout_step ww actor) (d0, v0) calls = Inr (outs1, d1, v1)"
      and s: "timeout_step ww actor (d1, v1) call = Inr (out, d, v)" and outs: "outs = outs1 @ [out]"
    by (auto simp: run_ops_snoc)
  have ih: "timeout_inv ww m b (first_poll calls) d1 v1"
    by (rule snoc.IH [OF _ r]) (use snoc.prems outs in auto)
  show ?case
  proof (cases call)
    case (TimeoutEnv env)
    with s have i: "interfere ww (owned_operation (dl_operation d1)) env v1 = Inr v" and d: "d = d1"
      by (auto simp: run_bind_eq_Inr)
    have "view_ok ww v \<and> future_ok m (dl_operation d1) v"
      using future_ok_interfere [OF _ _ i] ih snoc.prems(1) TimeoutEnv by (auto simp: timeout_inv_def)
    with ih show ?thesis by (simp add: TimeoutEnv d timeout_inv_def)
  next
    case (TimeoutPoll now elapsed waker env)
    with s have p: "send_timeout_poll ww actor now elapsed waker env d1 v1 = Inr (Pending, d, v)"
      using snoc.prems(3) outs by simp
    have "\<not> budget_is_zero b" using timeout_zero [OF ih _ p] by auto
    from timeout_poll_spec [OF ih this _ p] snoc.prems(1) TimeoutPoll show ?thesis
      by (auto split: option.splits)
  qed
qed

section \<open>Properties\<close>

definition send_check :: "(nat, nat) mailbox_op list \<Rightarrow> ((nat, nat) mailbox_view \<Rightarrow> bool) \<Rightarrow> bool" where
  "send_check ops P \<longleftrightarrow> mailbox_check ops (\<lambda>outs c. P \<lparr>mv_cell = c, mv_trace = ops, mv_outs = outs\<rparr>)"

lemmas send_eval =
  mailbox_eval send_check_def send_future_poll_def send_future_loop.simps send_future_withdraw_def withdraw_send_with_def
  call_submit_def call_poll_def call_withdraw_def log_call_def interfere_def owned_operation_def terminated_error_def

definition demo_send :: "(nat, nat) future_call list" where
  "demo_send =
     [FuturePoll 7 [] [OpReceive demo_incarnation Drain], FuturePoll 8 [] [], FutureTimeout Inline, FutureEnv [OpSubmit 60]]"

lemma demo_send_run:
  "send_check demo_full (\<lambda>v0. \<exists>outs f v e. run_ops (future_step (=) ''worker'') (Immediate 50, v0) demo_send = Inr (outs, f, v) \<and>
     outs = [Unresolved, Unresolved, Resolved (Inl e), Unresolved] \<and> se_kind e = TimedOut)"
  by (simp add: send_eval demo_send_def cong: run_bind_weak_cong)

definition no_interference :: "deadline_phase \<Rightarrow> (nat, nat) interference" where
  "no_interference phase = \<lparr>if_looking = [], if_cloning = [], if_withdrawing = []\<rparr>"

text \<open>In the second run slots free up between the attempt and the arbitration of the last poll: the boundary acceptance wins.\<close>

definition late_slot :: "deadline_phase \<Rightarrow> (nat, nat) interference" where
  "late_slot phase =
     \<lparr>if_looking =
        (if phase = TimeoutArbitration
         then [OpReceive demo_incarnation Drain, OpReceive demo_incarnation Drain, OpReceive demo_incarnation Drain] else []),
      if_cloning = [], if_withdrawing = []\<rparr>"

lemma demo_timeout_run:
  "send_check demo_full (\<lambda>v0. \<exists>d v e d' v' d'' v''.
     run_ops (timeout_step (=) ''worker'') (no_attempt (Immediate 50) (Deadline_Budget 5), v0)
       [TimeoutPoll 100 False 7 no_interference] = Inr ([Pending], d, v) \<and>
     send_timeout_poll (=) ''worker'' 105 True 7 no_interference d v = Inr (Ready (Inl e), d', v') \<and> se_kind e = TimedOut \<and>
     send_timeout_poll (=) ''worker'' 105 True 7 late_slot d v = Inr (Ready (Inr demo_incarnation), d'', v''))"
  by (simp add: send_eval no_interference_def late_slot_def no_attempt_def send_timeout_poll_def deadlined_poll_def
      deadlined_start_def send_poll_deadlined_def poll_timer_def Let_def budget_is_zero_def deadline_after_instant
      INSTANT_MAX_def ARMING_HEADROOM_def from_secs_def NANOS_PER_SEC_def cong: run_bind_weak_cong)

lemma send_checkD:
  "send_check ops P \<Longrightarrow> \<exists>outs c. mailbox_run (=) ops = Inr (outs, c) \<and> P \<lparr>mv_cell = c, mv_trace = ops, mv_outs = outs\<rparr>"
  unfolding send_check_def by (rule mailbox_checkD)

lemma demo_quiet: "quiet_env 50 demo_full" "\<forall>call \<in> set demo_send. quiet_env 50 (call_env call)"
  "quiet_timeout 50 (TimeoutPoll now elapsed waker no_interference)"
  by (simp_all add: quiet_env_def demo_full_def demo_send_def no_interference_def)

text \<open>
  C3: A send future tells the truth about its message, whatever the rest of the system does between its
  critical sections. If it fails, by terminalization or by a timeout, it returns the very message it
  was given, and that message is and stays undelivered: no receive ever yields it, no disposal
  destroys it and the mailbox no longer holds it. If it succeeds, it names an incarnation that was
  bound, and it never fails as well. A dropped future disposes of its own message only.
\<close>

theorem send_future_truthful:
  assumes "mailbox_run ww ops = Inr (outs0, c)" "quiet_env m ops" "\<forall>call \<in> set calls. quiet_env m (call_env call)"
    "run_ops (future_step ww actor) (Immediate m, \<lparr>mv_cell = c, mv_trace = ops, mv_outs = outs0\<rparr>) calls = Inr (outs, f, v)"
  shows "(\<forall>e. Resolved (Inl e) \<in> set outs \<longrightarrow>
      se_message e = m \<and> se_actor_id e = actor \<and> se_kind e \<in> {SendTerminated, TimedOut} \<and>
      undelivered m (mv_outs v) (mv_cell v) \<and> (\<forall>inc. Resolved (Inr inc) \<notin> set outs)) \<and>
    (\<forall>inc. Resolved (Inr inc) \<in> set outs \<longrightarrow> (\<exists>token. OpBind token inc \<in> set (mv_trace v))) \<and>
    (\<forall>ms. Disposed ms \<in> set outs \<longrightarrow> ms = [] \<or> ms = [m] \<and> undelivered m (mv_outs v) (mv_cell v))"
proof -
  let ?v0 = "\<lparr>mv_cell = c, mv_trace = ops, mv_outs = outs0\<rparr>"
  have "view_ok ww ?v0" using assms(1) by (simp add: view_ok_def)
  moreover have "future_ok m (Immediate m) ?v0" using quiet_env_inputs [OF assms(2)] by (simp add: future_ok_def)
  ultimately have inv: "future_inv ww actor m outs f v" by (rule future_run_inv [OF _ _ assms(3,4)])
  then have "recovered m v \<Longrightarrow> undelivered m (mv_outs v) (mv_cell v)"
    using recovered_undelivered by (auto simp: future_inv_def)
  with inv show ?thesis unfolding future_inv_def result_ok_def bound_incarnations_def by fastforce
qed


text \<open>
  C11: A send with a deadline decides once and at the right moment. With a zero budget it never touches the
  mailbox and reports a timeout at its first poll. Otherwise the deadline is fixed by the clock of its
  first poll; a poll that sees it elapsed always resolves, so the future cannot outlive its budget, and
  no earlier poll reports a timeout. Acceptance or termination at the boundary wins over the timeout: the
  verdict is the one of the last call on the cell, so a timeout is reported only for a message that the
  withdrawal found still waiting, and a message that the mailbox has terminated is reported terminated. A
  failed send returns its own message, which is then undelivered.
\<close>

theorem send_timeout_decides:
  assumes "mailbox_run ww ops = Inr (outs0, c)" "quiet_env m ops" "\<forall>call \<in> set calls. quiet_timeout m call"
    "run_ops (timeout_step ww actor) (no_attempt (Immediate m) b, \<lparr>mv_cell = c, mv_trace = ops, mv_outs = outs0\<rparr>) calls
      = Inr (outs, d, v)" "set outs \<subseteq> {Pending}"
    "quiet_timeout m (TimeoutPoll now elapsed waker env)"
    "send_timeout_poll ww actor now elapsed waker env d v = Inr (result, d', v')"
    "first_poll (calls @ [TimeoutPoll now elapsed waker env]) = Some t"
  shows "if budget_is_zero b
    then v' = v \<and> result = Ready (Inl \<lparr>se_actor_id = actor, se_incarnation_observed = phase_observation (mc_phase (mv_cell v)),
      se_message = m, se_kind = TimedOut\<rparr>)
    else let expired = elapsed \<and> deadline_instant (deadline_after t (budget_duration b)) \<noteq> None
      in (expired \<longrightarrow> result \<noteq> Pending) \<and>
         (\<forall>e. result = Ready (Inl e) \<longrightarrow> se_message e = m \<and> (se_kind e = TimedOut \<and> expired \<or> se_kind e = SendTerminated) \<and>
            undelivered m (mv_outs v') (mv_cell v')) \<and>
         (\<forall>inc. result = Ready (Inr inc) \<longrightarrow> (\<exists>token. OpBind token inc \<in> set (mv_trace v'))) \<and>
         (\<forall>res. result = Ready res \<longrightarrow> mv_outs v' \<noteq> [] \<and> call_verdict actor (fst (last (mv_outs v'))) = Some res)"
proof -
  let ?v0 = "\<lparr>mv_cell = c, mv_trace = ops, mv_outs = outs0\<rparr>"
  have "timeout_inv ww m b None (no_attempt (Immediate m) b) ?v0"
    using assms(1) quiet_env_inputs [OF assms(2)]
    by (simp add: timeout_inv_def no_attempt_def view_ok_def future_ok_def)
  then have inv: "timeout_inv ww m b (first_poll calls) d v" by (rule timeout_run_inv [OF _ assms(3-5)])
  show ?thesis
  proof (cases "budget_is_zero b")
    case True
    with timeout_zero [OF inv _ assms(7)] show ?thesis by simp
  next
    case False
    have t: "t = (case first_poll calls of None \<Rightarrow> now | Some s \<Rightarrow> s)"
      using assms(8) by (simp split: option.splits)
    note spec = timeout_poll_spec [OF inv False assms(6,7)]
    have "undelivered m (mv_outs v') (mv_cell v')" if "result = Ready (Inl e)" for e
      using spec that recovered_undelivered by (auto simp: timeout_verdict_def result_ok_def)
    moreover have "told actor res v'" if "result = Ready res" for res
      using timeout_run_unsettled [OF _ _ assms(4,5)] timeout_poll_told [OF _ _ assms(7)] False that
      by (simp add: no_attempt_def unsettled_def)
    ultimately show ?thesis
      using spec False by (auto simp: told_def t captured_def timeout_verdict_def result_ok_def bound_incarnations_def Let_def split: poll.splits)
  qed
qed


section \<open>Witnesses\<close>

theorem send_future_truthful_witness:
  "\<exists>outs0 c outs f v e. mailbox_run (=) demo_full = Inr (outs0, c) \<and>
     run_ops (future_step (=) ''worker'') (Immediate 50, \<lparr>mv_cell = c, mv_trace = demo_full, mv_outs = outs0\<rparr>) demo_send
       = Inr (outs, f, v) \<and>
     Resolved (Inl e) \<in> set outs \<and> se_message e = 50 \<and> undelivered 50 (mv_outs v) (mv_cell v)"
proof -
  obtain outs0 c outs f v e where c: "mailbox_run (=) demo_full = Inr (outs0, c)"
      "run_ops (future_step (=) ''worker'') (Immediate 50, \<lparr>mv_cell = c, mv_trace = demo_full, mv_outs = outs0\<rparr>) demo_send
       = Inr (outs, f, v)" "outs = [Unresolved, Unresolved, Resolved (Inl e), Unresolved]"
    using send_checkD [OF demo_send_run] by blast
  from send_future_truthful [OF c(1) demo_quiet(1,2) c(2)] c(3)
  have "se_message e = 50 \<and> undelivered 50 (mv_outs v) (mv_cell v)" by simp
  with c show ?thesis by fastforce
qed

theorem send_timeout_decides_witness:
  "\<exists>outs0 c d v e d' v'. mailbox_run (=) demo_full = Inr (outs0, c) \<and>
     run_ops (timeout_step (=) ''worker'') (no_attempt (Immediate 50) (Deadline_Budget 5),
       \<lparr>mv_cell = c, mv_trace = demo_full, mv_outs = outs0\<rparr>) [TimeoutPoll 100 False 7 no_interference] = Inr ([Pending], d, v) \<and>
     send_timeout_poll (=) ''worker'' 105 True 7 no_interference d v = Inr (Ready (Inl e), d', v') \<and>
     se_kind e = TimedOut \<and> se_message e = 50 \<and> undelivered 50 (mv_outs v') (mv_cell v')"
proof -
  obtain outs0 c d v e d' v' where c: "mailbox_run (=) demo_full = Inr (outs0, c)"
      "run_ops (timeout_step (=) ''worker'') (no_attempt (Immediate 50) (Deadline_Budget 5),
         \<lparr>mv_cell = c, mv_trace = demo_full, mv_outs = outs0\<rparr>) [TimeoutPoll 100 False 7 no_interference] = Inr ([Pending], d, v)"
      "send_timeout_poll (=) ''worker'' 105 True 7 no_interference d v = Inr (Ready (Inl e), d', v')" "se_kind e = TimedOut"
    using send_checkD [OF demo_timeout_run] by blast
  from send_timeout_decides [OF c(1) demo_quiet(1) _ c(2) _ demo_quiet(3) c(3)]
  have "se_message e = 50 \<and> undelivered 50 (mv_outs v') (mv_cell v')"
    by (simp add: no_interference_def quiet_env_def budget_is_zero_def Let_def)
  with c show ?thesis by blast
qed

end
