(* ===== verification/Waiters.thy ===== *)
theory Waiters imports Identity Waker "HOL-Library.Multiset" begin

text \<open>
  The waiter registry of \<open>crates/shelterwood-runtime/src/waiters.rs\<close> and the register-then-recheck protocol
  that the latch and the watch channel run over it. A registry call is one critical section of its
  mutex and a load of the awaited condition is one step, so that the interleavings of waiters with
  publishers are the sequences of steps.
\<close>

section \<open>The registry\<close>

record 'w registered_waker =
  rw_identity :: u64
  rw_waker :: 'w

record 'w waiter_registry =
  wr_waiters :: "'w registered_waker list"
  wr_identities :: u64

definition registry_new :: "'w waiter_registry" where
  "registry_new = \<lparr>wr_waiters = [], wr_identities = 0\<rparr>"

definition mint_identity :: "'w waiter_registry \<Rightarrow> (u64 \<times> 'w waiter_registry) run" where
  "mint_identity r =
     run_bind (atomic_counter_mint (wr_identities r))
       (\<lambda>(identity, identities). Inr (identity, r\<lparr>wr_identities := identities\<rparr>))"

text \<open>\<open>Iterator::position\<close> and \<open>Vec::swap_remove\<close> of an index in range.\<close>

fun position :: "('a \<Rightarrow> bool) \<Rightarrow> 'a list \<Rightarrow> nat option" where
  "position P [] = None"
| "position P (x # xs) = (if P x then Some 0 else map_option Suc (position P xs))"

definition swap_remove :: "nat \<Rightarrow> 'a list \<Rightarrow> 'a \<times> 'a list" where
  "swap_remove i xs =
     (xs ! i, if Suc i = length xs then butlast xs else (butlast xs)[i := last xs])"

definition register ::
  "u64 \<Rightarrow> 'w \<Rightarrow> 'w waiter_registry \<Rightarrow> 'w registered_waker option \<times> 'w waiter_registry" where
  "register identity waker r =
     (let waiters = wr_waiters r;
          registered = \<lparr>rw_identity = identity, rw_waker = waker\<rparr>
      in case position (\<lambda>waiter. rw_identity waiter = identity) waiters of
           Some index \<Rightarrow> (Some (waiters ! index), r\<lparr>wr_waiters := waiters[index := registered]\<rparr>)
         | None \<Rightarrow> (None, r\<lparr>wr_waiters := waiters @ [registered]\<rparr>))"

definition registry_remove ::
  "u64 \<Rightarrow> 'w waiter_registry \<Rightarrow> 'w registered_waker option \<times> 'w waiter_registry" where
  "registry_remove identity r =
     (case position (\<lambda>waiter. rw_identity waiter = identity) (wr_waiters r) of
        None \<Rightarrow> (None, r)
      | Some index \<Rightarrow>
          (case swap_remove index (wr_waiters r) of
             (removed, rest) \<Rightarrow> (Some removed, r\<lparr>wr_waiters := rest\<rparr>)))"

text \<open>The critical section of \<open>wake_all\<close>; the wakes themselves run after it.\<close>

definition take_waiters :: "'w waiter_registry \<Rightarrow> 'w registered_waker list \<times> 'w waiter_registry" where
  "take_waiters r = (wr_waiters r, r\<lparr>wr_waiters := []\<rparr>)"

abbreviation identities :: "'w registered_waker list \<Rightarrow> u64 list" where
  "identities ws \<equiv> map rw_identity ws"

abbreviation registered_in :: "'w waiter_registry \<Rightarrow> u64 set" where
  "registered_in r \<equiv> set (identities (wr_waiters r))"

lemma position_Some:
  "position P xs = Some i \<Longrightarrow> i < length xs \<and> P (xs ! i) \<and> (\<forall>j < i. \<not> P (xs ! j))"
proof (induction xs arbitrary: i)
  case (Cons x xs)
  show ?case
  proof (cases "P x")
    case False
    with Cons obtain j where "i = Suc j" "position P xs = Some j" by auto
    with Cons.IH [of j] False show ?thesis by (auto simp: less_Suc_eq_0_disj)
  qed (use Cons in auto)
qed simp

lemma position_None: "position P xs = None \<longleftrightarrow> (\<forall>x \<in> set xs. \<not> P x)"
  by (induction xs) auto

lemma swap_remove_mset: "i < length xs \<Longrightarrow> mset (snd (swap_remove i xs)) = mset xs - {#xs ! i#}"
proof (induction xs rule: rev_induct)
  case (snoc x xs)
  show ?case
  proof (cases "i = length xs")
    case False
    with snoc.prems have i: "i < length xs" by simp
    then have "mset (xs[i := x]) = add_mset x (mset xs - {#xs ! i#})" by (simp add: mset_update)
    with i show ?thesis by (simp add: swap_remove_def nth_append)
  qed (simp add: swap_remove_def)
qed simp

lemma register_identities:
  "identities (wr_waiters (snd (register identity waker r))) =
     (if identity \<in> registered_in r then identities (wr_waiters r) else identities (wr_waiters r) @ [identity])"
proof (cases "position (\<lambda>waiter. rw_identity waiter = identity) (wr_waiters r)")
  case (Some i)
  note i = position_Some [OF Some]
  have "(identities (wr_waiters r))[i := identity] = identities (wr_waiters r)"
    by (rule list_update_same_conv [THEN iffD2]) (use i in auto)
  moreover have "identity \<in> registered_in r" using i by force
  ultimately show ?thesis using Some by (simp add: register_def Let_def map_update)
next
  case None
  then have "identity \<notin> registered_in r" by (auto simp: position_None)
  with None show ?thesis by (simp add: register_def Let_def)
qed

lemma remove_identities:
  "mset (identities (wr_waiters (snd (registry_remove identity r)))) = mset (remove1 identity (identities (wr_waiters r)))"
proof (cases "position (\<lambda>waiter. rw_identity waiter = identity) (wr_waiters r)")
  case (Some i)
  note i = position_Some [OF Some]
  then have "image_mset rw_identity (mset (wr_waiters r) - {#wr_waiters r ! i#}) =
      mset (identities (wr_waiters r)) - {#identity#}"
    by (subst image_mset_Diff) auto
  with Some i swap_remove_mset [of i "wr_waiters r"] show ?thesis
    by (cases "swap_remove i (wr_waiters r)") (simp add: registry_remove_def)
next
  case None
  then have "identity \<notin> registered_in r" by (auto simp: position_None)
  with None show ?thesis by (simp add: registry_remove_def remove1_idem)
qed

lemma register_spec:
  assumes "distinct (identities (wr_waiters r))"
  shows "distinct (identities (wr_waiters (snd (register identity waker r))))"
    "registered_in (snd (register identity waker r)) = insert identity (registered_in r)"
    "wr_identities (snd (register identity waker r)) = wr_identities r"
  using assms unfolding register_identities
  by (auto simp: register_def Let_def split: option.splits)

lemma remove_spec:
  assumes "distinct (identities (wr_waiters r))"
  shows "distinct (identities (wr_waiters (snd (registry_remove identity r))))"
    "registered_in (snd (registry_remove identity r)) = registered_in r - {identity}"
    "wr_identities (snd (registry_remove identity r)) = wr_identities r"
proof -
  show "distinct (identities (wr_waiters (snd (registry_remove identity r))))"
    using mset_eq_imp_distinct_iff [OF remove_identities [of identity r]] assms by (simp add: distinct_remove1)
  show "registered_in (snd (registry_remove identity r)) = registered_in r - {identity}"
    using mset_eq_setD [OF remove_identities [of identity r]] assms by (simp add: set_remove1_eq)
  show "wr_identities (snd (registry_remove identity r)) = wr_identities r"
    by (auto simp: registry_remove_def split: option.splits prod.splits)
qed

text \<open>Both calls leave the registrations of the other waiters as they are.\<close>

definition others_in :: "u64 \<Rightarrow> 'w waiter_registry \<Rightarrow> 'w registered_waker set" where
  "others_in identity r = {x \<in> set (wr_waiters r). rw_identity x \<noteq> identity}"

lemma register_others:
  "others_in identity (snd (register identity waker r)) = others_in identity r"
  "\<lparr>rw_identity = identity, rw_waker = waker\<rparr> \<in> set (wr_waiters (snd (register identity waker r)))"
proof -
  have upd: "{x \<in> set (xs[i := y]). P x} = {x \<in> set xs. P x}" if "i < length xs" "\<not> P y" "\<not> P (xs ! i)"
    for xs :: "'w registered_waker list" and i y P
  proof -
    have "filter P (xs[i := y]) = filter P xs"
      using that by (metis (no_types, lifting) filter.simps(2) filter_append id_take_nth_drop upd_conv_take_nth_drop)
    then show ?thesis by (metis set_filter)
  qed
  show "others_in identity (snd (register identity waker r)) = others_in identity r"
  proof (cases "position (\<lambda>waiter. rw_identity waiter = identity) (wr_waiters r)")
    case (Some i)
    with position_Some [OF Some] upd [of i "wr_waiters r" "\<lambda>x. rw_identity x \<noteq> identity"] show ?thesis
      by (simp add: register_def Let_def others_in_def)
  qed (auto simp: register_def Let_def others_in_def)
  show "\<lparr>rw_identity = identity, rw_waker = waker\<rparr> \<in> set (wr_waiters (snd (register identity waker r)))"
    by (auto simp: register_def Let_def set_update_memI dest!: position_Some split: option.splits)
qed

lemma remove_others: "others_in identity (snd (registry_remove identity r)) = others_in identity r"
proof (cases "position (\<lambda>waiter. rw_identity waiter = identity) (wr_waiters r)")
  case (Some i)
  note i = position_Some [OF Some]
  obtain removed rest where sr: "swap_remove i (wr_waiters r) = (removed, rest)" by force
  then have "mset rest = mset (wr_waiters r) - {#wr_waiters r ! i#}" using swap_remove_mset [of i "wr_waiters r"] i by simp
  then have "filter_mset (\<lambda>x. rw_identity x \<noteq> identity) (mset rest) =
      filter_mset (\<lambda>x. rw_identity x \<noteq> identity) (mset (wr_waiters r))"
    using i by (simp add: filter_diff_mset)
  then have "set (filter (\<lambda>x. rw_identity x \<noteq> identity) rest) = set (filter (\<lambda>x. rw_identity x \<noteq> identity) (wr_waiters r))"
    by (metis mset_filter set_mset_mset)
  with Some sr show ?thesis by (simp add: registry_remove_def others_in_def)
qed (simp add: registry_remove_def)

section \<open>The register-then-recheck protocol\<close>

text \<open>The progress of one evaluation of the \<open>ready\<close> closure: it loads once more, finds nothing, or finds an
  outcome and updates the waiter's own data.\<close>

datatype ('q, 'l, 'o) probe_result = Again 'q | Absent | Found 'o 'l

text \<open>
  Where a wait future is: at rest, or inside \<open>poll_registered\<close> in its first probe, before the
  registration of the cloned waker, in the probe after it, or with an outcome and its registration
  still to be removed. \<open>wt_verdict\<close> is what the last completed poll returned. Two history variables:
  \<open>wt_waker\<close> is the caller's waker of the last poll that got as far as registering, and \<open>wt_woken\<close> tells
  whether that very waker was woken since; a wake of a waker from an earlier poll does not count.
\<close>

datatype ('w, 'q, 'o) wait_pc =
    Resting
  | Probing 'w 'q
  | Cloning 'w
  | Rechecking "'w registered_waker option" 'q
  | Retiring "'w registered_waker option" 'o
  | Released

record ('w, 'l, 'q, 'o) waiter =
  wt_identity :: u64
  wt_local :: 'l
  wt_pc :: "('w, 'q, 'o) wait_pc"
  wt_verdict :: "'o poll option"
  wt_waker :: "'w option"
  wt_woken :: bool

text \<open>A publisher past its transition: before the critical section of \<open>wake_all\<close>, or waking what it took.\<close>

datatype 'w notifier = Draining | Waking "'w registered_waker list"

record ('s, 'w, 'l, 'q, 'o) wait_system =
  sys_shared :: 's
  sys_registry :: "'w waiter_registry"
  sys_waiters :: "('w, 'l, 'q, 'o) waiter list"
  sys_notifiers :: "'w notifier list"

datatype ('p, 'w, 'l) wait_action =
    Publish 'p
  | TakeAll nat
  | WakeNext nat
  | BeginWait 'l
  | BeginPoll nat 'w
  | Advance nat
  | UnwindClone nat
  | DropWait nat

datatype ('w, 'o) wait_output =
    Quiet
  | Woke 'w
  | Returned "'o poll" "'w list"
  | DroppedWakers "'w list"

definition registered_wakers :: "'w registered_waker option list \<Rightarrow> 'w list" where
  "registered_wakers ws = map rw_waker (List.map_filter id ws)"

definition poll_registered ::
  "('s \<Rightarrow> 'l \<Rightarrow> 'q \<Rightarrow> ('q, 'l, 'o) probe_result) \<Rightarrow> 'q \<Rightarrow> 's \<Rightarrow> ('w, 'l, 'q, 'o) waiter \<Rightarrow> 'w waiter_registry \<Rightarrow>
   (('w, 'o) wait_output \<times> ('w, 'l, 'q, 'o) waiter \<times> 'w waiter_registry) option" where
  "poll_registered probe start s w r =
     (case wt_pc w of
        Probing waker q \<Rightarrow>
          (case probe s (wt_local w) q of
             Again q' \<Rightarrow> Some (Quiet, w\<lparr>wt_pc := Probing waker q'\<rparr>, r)
           | Found output l \<Rightarrow> Some (Quiet, w\<lparr>wt_local := l, wt_pc := Retiring None output\<rparr>, r)
           | Absent \<Rightarrow> Some (Quiet, w\<lparr>wt_pc := Cloning waker\<rparr>, r))
      | Cloning waker \<Rightarrow>
          (case register (wt_identity w) waker r of
             (displaced, r') \<Rightarrow> Some (Quiet,
                 w\<lparr>wt_pc := Rechecking displaced start, wt_waker := Some waker, wt_woken := False\<rparr>, r'))
      | Rechecking displaced q \<Rightarrow>
          (case probe s (wt_local w) q of
             Again q' \<Rightarrow> Some (Quiet, w\<lparr>wt_pc := Rechecking displaced q'\<rparr>, r)
           | Found output l \<Rightarrow> Some (Quiet, w\<lparr>wt_local := l, wt_pc := Retiring displaced output\<rparr>, r)
           | Absent \<Rightarrow>
               Some (Returned Pending (registered_wakers [displaced]),
                 w\<lparr>wt_pc := Resting, wt_verdict := Some Pending\<rparr>, r))
      | Retiring displaced output \<Rightarrow>
          (case registry_remove (wt_identity w) r of
             (registered, r') \<Rightarrow>
               Some (Returned (Ready output) (registered_wakers [displaced, registered]),
                 w\<lparr>wt_pc := Resting, wt_verdict := Some (Ready output)\<rparr>, r'))
      | _ \<Rightarrow> None)"

definition not_enabled :: "'a run" where
  "not_enabled = Inl (Panic ''not enabled'')"

definition mark_woken :: "'w registered_waker \<Rightarrow> ('w, 'l, 'q, 'o) waiter \<Rightarrow> ('w, 'l, 'q, 'o) waiter" where
  "mark_woken registered w =
     (if wt_identity w = rw_identity registered \<and> wt_waker w = Some (rw_waker registered)
      then w\<lparr>wt_woken := True\<rparr> else w)"

definition wait_new :: "u64 \<Rightarrow> 'l \<Rightarrow> ('w, 'l, 'q, 'o) waiter" where
  "wait_new identity l =
     \<lparr>wt_identity = identity, wt_local = l, wt_pc = Resting, wt_verdict = None, wt_waker = None, wt_woken = False\<rparr>"

definition system_new :: "'s \<Rightarrow> ('s, 'w, 'l, 'q, 'o) wait_system" where
  "system_new s = \<lparr>sys_shared = s, sys_registry = registry_new, sys_waiters = [], sys_notifiers = []\<rparr>"

fun wait_step ::
  "('s \<Rightarrow> 'l \<Rightarrow> 'q \<Rightarrow> ('q, 'l, 'o) probe_result) \<Rightarrow> 'q \<Rightarrow> ('p \<Rightarrow> 's \<Rightarrow> ('s \<times> bool) run) \<Rightarrow>
   ('s, 'w, 'l, 'q, 'o) wait_system \<Rightarrow> ('p, 'w, 'l) wait_action \<Rightarrow>
   (('w, 'o) wait_output \<times> ('s, 'w, 'l, 'q, 'o) wait_system) run" where
  "wait_step probe start publish sys (Publish p) =
     run_bind (publish p (sys_shared sys))
       (\<lambda>(s, notifies). Inr (Quiet, sys\<lparr>sys_shared := s,
          sys_notifiers := sys_notifiers sys @ (if notifies then [Draining] else [])\<rparr>))"
| "wait_step probe start publish sys (TakeAll n) =
     (if length (sys_notifiers sys) \<le> n then not_enabled
      else case sys_notifiers sys ! n of
             Draining \<Rightarrow>
               (case take_waiters (sys_registry sys) of
                  (waiters, r) \<Rightarrow>
                    Inr (Quiet, sys\<lparr>sys_registry := r, sys_notifiers := (sys_notifiers sys)[n := Waking waiters]\<rparr>))
           | Waking _ \<Rightarrow> not_enabled)"
| "wait_step probe start publish sys (WakeNext n) =
     (if length (sys_notifiers sys) \<le> n then not_enabled
      else case sys_notifiers sys ! n of
             Waking (registered # rest) \<Rightarrow>
               Inr (Woke (rw_waker registered),
                 sys\<lparr>sys_waiters := map (mark_woken registered) (sys_waiters sys),
                   sys_notifiers := (sys_notifiers sys)[n := Waking rest]\<rparr>)
           | _ \<Rightarrow> not_enabled)"
| "wait_step probe start publish sys (BeginWait l) =
     run_bind (mint_identity (sys_registry sys))
       (\<lambda>(identity, r). Inr (Quiet,
          sys\<lparr>sys_registry := r, sys_waiters := sys_waiters sys @ [wait_new identity l]\<rparr>))"
| "wait_step probe start publish sys (BeginPoll i waker) =
     (if length (sys_waiters sys) \<le> i \<or> wt_pc (sys_waiters sys ! i) \<noteq> Resting then not_enabled
      else Inr (Quiet, sys\<lparr>sys_waiters :=
             (sys_waiters sys)[i := (sys_waiters sys ! i)\<lparr>wt_pc := Probing waker start\<rparr>]\<rparr>))"
| "wait_step probe start publish sys (Advance i) =
     (if length (sys_waiters sys) \<le> i then not_enabled
      else case poll_registered probe start (sys_shared sys) (sys_waiters sys ! i) (sys_registry sys) of
             None \<Rightarrow> not_enabled
           | Some (out, w, r) \<Rightarrow>
               Inr (out, sys\<lparr>sys_registry := r, sys_waiters := (sys_waiters sys)[i := w]\<rparr>))"
| "wait_step probe start publish sys (UnwindClone i) =
     (if length (sys_waiters sys) \<le> i then not_enabled
      else case wt_pc (sys_waiters sys ! i) of
             Cloning _ \<Rightarrow>
               Inr (Quiet, sys\<lparr>sys_waiters := (sys_waiters sys)[i := (sys_waiters sys ! i)\<lparr>wt_pc := Resting\<rparr>]\<rparr>)
           | _ \<Rightarrow> not_enabled)"
| "wait_step probe start publish sys (DropWait i) =
     (if length (sys_waiters sys) \<le> i \<or> wt_pc (sys_waiters sys ! i) \<noteq> Resting then not_enabled
      else case registry_remove (wt_identity (sys_waiters sys ! i)) (sys_registry sys) of
             (registered, r) \<Rightarrow>
               Inr (DroppedWakers (registered_wakers [registered]),
                 sys\<lparr>sys_registry := r,
                   sys_waiters := (sys_waiters sys)[i := (sys_waiters sys ! i)\<lparr>wt_pc := Released\<rparr>]\<rparr>))"

section \<open>No lost wake-ups\<close>

definition flying :: "'w notifier list \<Rightarrow> 'w registered_waker set" where
  "flying ns = (\<Union>n \<in> set ns. case n of Draining \<Rightarrow> {} | Waking ws \<Rightarrow> set ws)"

text \<open>
  The registration of a waiter's last poll, with the waker of that poll. A waiter is present when a wake of
  that waker is done, under way or possible, covered when one is done or sure.
\<close>

definition ticket :: "('w, 'l, 'q, 'o) waiter \<Rightarrow> 'w registered_waker set" where
  "ticket w = (\<lambda>waker. \<lparr>rw_identity = wt_identity w, rw_waker = waker\<rparr>) ` set_option (wt_waker w)"

definition present :: "('s, 'w, 'l, 'q, 'o) wait_system \<Rightarrow> ('w, 'l, 'q, 'o) waiter \<Rightarrow> bool" where
  "present sys w \<longleftrightarrow>
     wt_woken w \<or> (\<exists>t \<in> ticket w. t \<in> flying (sys_notifiers sys) \<or> t \<in> set (wr_waiters (sys_registry sys)))"

definition covered :: "('s, 'w, 'l, 'q, 'o) wait_system \<Rightarrow> ('w, 'l, 'q, 'o) waiter \<Rightarrow> bool" where
  "covered sys w \<longleftrightarrow>
     wt_woken w \<or>
     (\<exists>t \<in> ticket w. t \<in> flying (sys_notifiers sys) \<or>
        t \<in> set (wr_waiters (sys_registry sys)) \<and> Draining \<in> set (sys_notifiers sys))"

definition waiter_ok ::
  "('q \<Rightarrow> 's \<Rightarrow> 'l \<Rightarrow> bool) \<Rightarrow> ('s \<Rightarrow> 'l \<Rightarrow> bool) \<Rightarrow> ('s, 'w, 'l, 'q, 'o) wait_system \<Rightarrow> ('w, 'l, 'q, 'o) waiter \<Rightarrow> bool" where
  "waiter_ok passed wanted sys w \<longleftrightarrow>
     (case wt_pc w of
        Rechecking _ q \<Rightarrow> present sys w \<and> (passed q (sys_shared sys) (wt_local w) \<longrightarrow> covered sys w)
      | Retiring _ _ \<Rightarrow> True
      | Released \<Rightarrow> True
      | _ \<Rightarrow> wt_verdict w = Some Pending \<longrightarrow>
          present sys w \<and> (wanted (sys_shared sys) (wt_local w) \<longrightarrow> covered sys w))"

text \<open>A registration belongs to a waiter that is parked or still inside its poll.\<close>

definition may_register :: "('w, 'l, 'q, 'o) waiter \<Rightarrow> bool" where
  "may_register w \<longleftrightarrow>
     (case wt_pc w of
        Released \<Rightarrow> False
      | Rechecking _ _ \<Rightarrow> True
      | Retiring _ _ \<Rightarrow> True
      | _ \<Rightarrow> wt_verdict w = Some Pending)"

definition registry_ok :: "('s, 'w, 'l, 'q, 'o) wait_system \<Rightarrow> bool" where
  "registry_ok sys \<longleftrightarrow>
     distinct (map wt_identity (sys_waiters sys)) \<and>
     (\<forall>w \<in> set (sys_waiters sys). wt_identity w \<le> wr_identities (sys_registry sys)) \<and>
     distinct (identities (wr_waiters (sys_registry sys))) \<and>
     (\<forall>k \<in> registered_in (sys_registry sys). \<exists>i < length (sys_waiters sys).
        wt_identity (sys_waiters sys ! i) = k \<and> may_register (sys_waiters sys ! i))"

lemma flying_simps [simp]:
  "flying [] = {}" "flying (ns @ ns') = flying ns \<union> flying ns'"
  "flying [Draining] = {}" "flying [Waking ws] = set ws"
  by (auto simp: flying_def)

lemma covered_quiescent:
  assumes "covered sys w" "set (sys_notifiers sys) \<subseteq> {Waking []}"
  shows "wt_woken w"
proof -
  have "flying (sys_notifiers sys) = {}" "Draining \<notin> set (sys_notifiers sys)"
    using assms(2) by (auto simp: flying_def)
  with assms(1) show ?thesis by (simp add: covered_def)
qed

lemma flying_update:
  "n < length ns \<Longrightarrow> flying (ns[n := x]) = flying (take n ns @ drop (Suc n) ns) \<union> flying [x]"
  by (auto simp: upd_conv_take_nth_drop flying_def)

lemma flying_nth:
  "n < length ns \<Longrightarrow> flying ns = flying (take n ns @ drop (Suc n) ns) \<union> flying [ns ! n]"
  using flying_update [of n ns "ns ! n"] by simp

lemma poll_registered_identity:
  "poll_registered probe start s w r = Some (out, w', r') \<Longrightarrow> wt_identity w' = wt_identity w"
  by (auto simp: poll_registered_def split: wait_pc.splits probe_result.splits prod.splits)

lemma poll_registered_registry:
  assumes p: "poll_registered probe start s w r = Some (out, w', r')" and d: "distinct (identities (wr_waiters r))"
  shows "distinct (identities (wr_waiters r')) \<and> wr_identities r' = wr_identities r \<and>
    (registered_in r' = registered_in r \<and> (may_register w \<longrightarrow> may_register w') \<or>
     registered_in r' = insert (wt_identity w) (registered_in r) \<and> may_register w' \<or>
     registered_in r' = registered_in r - {wt_identity w}) \<and>
    others_in (wt_identity w) r' = others_in (wt_identity w) r"
proof (cases "wt_pc w")
  case (Probing waker q)
  with p d show ?thesis by (cases "probe s (wt_local w) q") (auto simp: poll_registered_def may_register_def)
next
  case (Cloning waker)
  obtain displaced r1 where r: "register (wt_identity w) waker r = (displaced, r1)" by force
  with p Cloning have "r' = r1" "may_register w'" by (auto simp: poll_registered_def may_register_def)
  with register_spec [OF d, of "wt_identity w" waker] register_others(1) [of "wt_identity w" waker r] r show ?thesis by auto
next
  case (Rechecking displaced q)
  with p d show ?thesis by (cases "probe s (wt_local w) q") (auto simp: poll_registered_def may_register_def)
next
  case (Retiring displaced res)
  obtain removed r1 where r: "registry_remove (wt_identity w) r = (removed, r1)" by force
  with p Retiring have "r' = r1" by (auto simp: poll_registered_def)
  with remove_spec [OF d, of "wt_identity w"] remove_others [of "wt_identity w" r] r show ?thesis by auto
qed (use p in \<open>simp_all add: poll_registered_def\<close>)

text \<open>Replacing one waiter, with a registry that changed for that waiter at most.\<close>

lemma registry_ok_update:
  assumes ok: "registry_ok sys" and i: "i < length (sys_waiters sys)"
    and w: "wt_identity w = wt_identity (sys_waiters sys ! i)"
    and r: "distinct (identities (wr_waiters r))" "wr_identities r = wr_identities (sys_registry sys)"
    and reg: "registered_in r = registered_in (sys_registry sys) \<and> (may_register (sys_waiters sys ! i) \<longrightarrow> may_register w) \<or>
      registered_in r = insert (wt_identity w) (registered_in (sys_registry sys)) \<and> may_register w \<or>
      registered_in r = registered_in (sys_registry sys) - {wt_identity w}"
  shows "registry_ok (sys\<lparr>sys_registry := r, sys_waiters := (sys_waiters sys)[i := w]\<rparr>)"
proof -
  have ids: "map wt_identity ((sys_waiters sys)[i := w]) = map wt_identity (sys_waiters sys)"
    using i w by (metis list_update_id map_update)
  then have "distinct (map wt_identity ((sys_waiters sys)[i := w]))"
    "\<forall>v \<in> set ((sys_waiters sys)[i := w]). wt_identity v \<le> wr_identities r"
    using ok r(2) i w by (auto simp: registry_ok_def dest!: set_update_subset_insert [THEN subsetD])
  moreover have "\<exists>j < length (sys_waiters sys). wt_identity ((sys_waiters sys)[i := w] ! j) = k \<and>
      may_register ((sys_waiters sys)[i := w] ! j)" if "k \<in> registered_in r" for k
  proof (cases "k = wt_identity w")
    case True
    have "may_register w" if "k \<in> registered_in (sys_registry sys)"
      "may_register (sys_waiters sys ! i) \<longrightarrow> may_register w"
    proof -
      obtain j where j: "j < length (sys_waiters sys)" "wt_identity (sys_waiters sys ! j) = k"
          "may_register (sys_waiters sys ! j)"
        using ok \<open>k \<in> registered_in (sys_registry sys)\<close> unfolding registry_ok_def by blast
      then have "j = i" using ok True w i by (auto simp: registry_ok_def distinct_conv_nth)
      with j that(2) show ?thesis by simp
    qed
    with reg that True have "may_register w" by auto
    with True i show ?thesis by (intro exI [of _ i]) simp
  next
    case False
    then have "k \<in> registered_in (sys_registry sys)" using reg that by auto
    then obtain j where j: "j < length (sys_waiters sys)" "wt_identity (sys_waiters sys ! j) = k"
        "may_register (sys_waiters sys ! j)"
      using ok unfolding registry_ok_def by blast
    with False w have "j \<noteq> i" by auto
    with j show ?thesis by (intro exI [of _ j]) simp
  qed
  ultimately show ?thesis using r(1) by (simp add: registry_ok_def)
qed

lemma registry_ok_same:
  assumes "registry_ok sys" "i < length (sys_waiters sys)"
    "wt_identity w = wt_identity (sys_waiters sys ! i)" "may_register (sys_waiters sys ! i) \<longrightarrow> may_register w"
  shows "registry_ok (sys\<lparr>sys_waiters := (sys_waiters sys)[i := w]\<rparr>)"
  using registry_ok_update [OF assms(1-3), of "sys_registry sys"] assms(1,4) by (simp add: registry_ok_def)

lemma registry_ok_frame:
  assumes "registry_ok sys" "sys_registry sys' = sys_registry sys" "sys_waiters sys' = sys_waiters sys"
  shows "registry_ok sys'"
  using assms by (simp add: registry_ok_def)

lemma mark_woken_simps [simp]:
  "wt_identity (mark_woken k w) = wt_identity w" "wt_pc (mark_woken k w) = wt_pc w"
  "wt_local (mark_woken k w) = wt_local w" "wt_verdict (mark_woken k w) = wt_verdict w"
  "wt_waker (mark_woken k w) = wt_waker w" "ticket (mark_woken k w) = ticket w"
  "wt_woken (mark_woken k w) \<longleftrightarrow> wt_woken w \<or> k \<in> ticket w"
  by (auto simp: mark_woken_def ticket_def)

lemma wt_identity_mark [simp]: "wt_identity \<circ> mark_woken k = wt_identity"
  by (simp add: fun_eq_iff)

lemma may_register_mark [simp]: "may_register (mark_woken k w) = may_register w"
  by (cases "wt_pc w") (simp_all add: may_register_def)

lemma registry_okD:
  assumes "registry_ok sys"
  shows "distinct (map wt_identity (sys_waiters sys))"
    "w \<in> set (sys_waiters sys) \<Longrightarrow> wt_identity w \<le> wr_identities (sys_registry sys)"
    "distinct (identities (wr_waiters (sys_registry sys)))"
    "k \<in> registered_in (sys_registry sys) \<Longrightarrow> \<exists>i < length (sys_waiters sys).
        wt_identity (sys_waiters sys ! i) = k \<and> may_register (sys_waiters sys ! i)"
  using assms unfolding registry_ok_def by blast+

lemma registry_ok_begin:
  assumes ok: "registry_ok sys" and m: "mint_identity (sys_registry sys) = Inr (identity, r)"
  shows "registry_ok (sys\<lparr>sys_registry := r, sys_waiters := sys_waiters sys @ [wait_new identity l]\<rparr>)"
proof -
  have r: "r = (sys_registry sys)\<lparr>wr_identities := identity\<rparr>" "wr_identities (sys_registry sys) < identity"
    using m by (auto simp: mint_identity_def run_bind_eq_Inr dest!: atomic_counter_mint_less)
  have le: "wt_identity w < identity" if "w \<in> set (sys_waiters sys)" for w
    using registry_okD(2) [OF ok that] r(2) by (rule le_less_trans)
  then have "distinct (map wt_identity (sys_waiters sys @ [wait_new identity l]))"
    using registry_okD(1) [OF ok] by (fastforce simp: wait_new_def)
  moreover have "\<forall>w \<in> set (sys_waiters sys @ [wait_new identity l]). wt_identity w \<le> identity"
    using le by (auto simp: wait_new_def less_imp_le)
  moreover have "\<exists>i < Suc (length (sys_waiters sys)).
      wt_identity ((sys_waiters sys @ [wait_new identity l]) ! i) = k \<and>
      may_register ((sys_waiters sys @ [wait_new identity l]) ! i)"
    if k: "k \<in> registered_in (sys_registry sys)" for k
  proof -
    obtain i where i: "i < length (sys_waiters sys)" "wt_identity (sys_waiters sys ! i) = k"
        "may_register (sys_waiters sys ! i)"
      using registry_okD(4) [OF ok k] by blast
    then show ?thesis by (intro exI [of _ i]) (simp add: nth_append)
  qed
  moreover have "registered_in r = registered_in (sys_registry sys)" "wr_identities r = identity"
    "distinct (identities (wr_waiters r))"
    using registry_okD(3) [OF ok] by (simp_all add: r(1))
  ultimately show ?thesis unfolding registry_ok_def by simp
qed

lemma wait_step_Inr:
  "wait_step probe start publish sys (Publish p) = Inr (out, sys') \<longleftrightarrow>
     (\<exists>s notifies. publish p (sys_shared sys) = Inr (s, notifies) \<and> out = Quiet \<and>
        sys' = sys\<lparr>sys_shared := s, sys_notifiers := sys_notifiers sys @ (if notifies then [Draining] else [])\<rparr>)"
  "wait_step probe start publish sys (TakeAll n) = Inr (out, sys') \<longleftrightarrow>
     n < length (sys_notifiers sys) \<and> sys_notifiers sys ! n = Draining \<and> out = Quiet \<and>
     sys' = sys\<lparr>sys_registry := (sys_registry sys)\<lparr>wr_waiters := []\<rparr>,
       sys_notifiers := (sys_notifiers sys)[n := Waking (wr_waiters (sys_registry sys))]\<rparr>"
  "wait_step probe start publish sys (WakeNext n) = Inr (out, sys') \<longleftrightarrow>
     (\<exists>registered rest. n < length (sys_notifiers sys) \<and> sys_notifiers sys ! n = Waking (registered # rest) \<and>
        out = Woke (rw_waker registered) \<and>
        sys' = sys\<lparr>sys_waiters := map (mark_woken registered) (sys_waiters sys),
          sys_notifiers := (sys_notifiers sys)[n := Waking rest]\<rparr>)"
  "wait_step probe start publish sys (BeginWait l) = Inr (out, sys') \<longleftrightarrow>
     (\<exists>identity r. mint_identity (sys_registry sys) = Inr (identity, r) \<and> out = Quiet \<and>
        sys' = sys\<lparr>sys_registry := r, sys_waiters := sys_waiters sys @ [wait_new identity l]\<rparr>)"
  "wait_step probe start publish sys (BeginPoll i waker) = Inr (out, sys') \<longleftrightarrow>
     i < length (sys_waiters sys) \<and> wt_pc (sys_waiters sys ! i) = Resting \<and> out = Quiet \<and>
     sys' = sys\<lparr>sys_waiters := (sys_waiters sys)[i := (sys_waiters sys ! i)\<lparr>wt_pc := Probing waker start\<rparr>]\<rparr>"
  "wait_step probe start publish sys (Advance i) = Inr (out, sys') \<longleftrightarrow>
     (\<exists>w r. i < length (sys_waiters sys) \<and>
        poll_registered probe start (sys_shared sys) (sys_waiters sys ! i) (sys_registry sys) = Some (out, w, r) \<and>
        sys' = sys\<lparr>sys_registry := r, sys_waiters := (sys_waiters sys)[i := w]\<rparr>)"
  "wait_step probe start publish sys (UnwindClone i) = Inr (out, sys') \<longleftrightarrow>
     i < length (sys_waiters sys) \<and> (\<exists>waker. wt_pc (sys_waiters sys ! i) = Cloning waker) \<and> out = Quiet \<and>
     sys' = sys\<lparr>sys_waiters := (sys_waiters sys)[i := (sys_waiters sys ! i)\<lparr>wt_pc := Resting\<rparr>]\<rparr>"
  "wait_step probe start publish sys (DropWait i) = Inr (out, sys') \<longleftrightarrow>
     i < length (sys_waiters sys) \<and> wt_pc (sys_waiters sys ! i) = Resting \<and>
     out = DroppedWakers (registered_wakers [fst (registry_remove (wt_identity (sys_waiters sys ! i)) (sys_registry sys))]) \<and>
     sys' = sys\<lparr>sys_registry := snd (registry_remove (wt_identity (sys_waiters sys ! i)) (sys_registry sys)),
       sys_waiters := (sys_waiters sys)[i := (sys_waiters sys ! i)\<lparr>wt_pc := Released\<rparr>]\<rparr>"
  by (auto simp: not_enabled_def take_waiters_def run_bind_eq_Inr not_le
      split: if_splits notifier.splits list.splits option.splits wait_pc.splits prod.splits)

declare wait_step.simps [simp del]

lemma registry_ok_step:
  assumes ok: "registry_ok sys" and s: "wait_step probe start publish sys action = Inr (out, sys')"
  shows "registry_ok sys'"
proof (cases action)
  case (Publish p)
  with s ok show ?thesis by (auto simp: wait_step_Inr intro: registry_ok_frame)
next
  case (TakeAll n)
  with s ok show ?thesis by (simp add: wait_step_Inr registry_ok_def)
next
  case (WakeNext n)
  with s obtain registered rest where "sys_notifiers sys ! n = Waking (registered # rest)"
      "sys' = sys\<lparr>sys_waiters := map (mark_woken registered) (sys_waiters sys),
        sys_notifiers := (sys_notifiers sys)[n := Waking rest]\<rparr>"
    unfolding WakeNext wait_step_Inr by blast
  with ok show ?thesis by (simp add: registry_ok_def cong: conj_cong)
next
  case (BeginWait l)
  with s ok show ?thesis by (auto simp: wait_step_Inr intro: registry_ok_begin)
next
  case (BeginPoll i waker)
  with s ok show ?thesis by (auto simp: wait_step_Inr may_register_def intro!: registry_ok_same)
next
  case (Advance i)
  with s obtain w r where i: "i < length (sys_waiters sys)"
      and p: "poll_registered probe start (sys_shared sys) (sys_waiters sys ! i) (sys_registry sys) = Some (out, w, r)"
      and sys': "sys' = sys\<lparr>sys_registry := r, sys_waiters := (sys_waiters sys)[i := w]\<rparr>"
    unfolding Advance wait_step_Inr by blast
  note reg = poll_registered_registry [OF p registry_okD(3) [OF ok]] and w = poll_registered_identity [OF p]
  show ?thesis unfolding sys' by (rule registry_ok_update [OF ok i w]) (use reg w in auto)
next
  case (UnwindClone i)
  with s ok show ?thesis by (auto simp: wait_step_Inr may_register_def intro!: registry_ok_same)
next
  case (DropWait i)
  let ?w = "sys_waiters sys ! i"
  have i: "i < length (sys_waiters sys)"
      and sys': "sys' = sys\<lparr>sys_registry := snd (registry_remove (wt_identity ?w) (sys_registry sys)),
        sys_waiters := (sys_waiters sys)[i := ?w\<lparr>wt_pc := Released\<rparr>]\<rparr>"
    using s by (simp_all add: DropWait wait_step_Inr)
  show ?thesis unfolding sys'
    by (rule registry_ok_update [OF ok i]) (use remove_spec [OF registry_okD(3) [OF ok], of "wt_identity ?w"] in auto)
qed

text \<open>
  What a waited-for condition promises. \<open>passed q s l\<close> says that a part of the condition a probe in
  progress has already found absent is there now, and \<open>wanted s l\<close> that the whole condition is. Only a
  publication that notifies may make either true.
\<close>

locale wait_condition =
  fixes probe :: "'s \<Rightarrow> 'l \<Rightarrow> 'q \<Rightarrow> ('q, 'l, 'o) probe_result"
    and start :: 'q
    and publish :: "'p \<Rightarrow> 's \<Rightarrow> ('s \<times> bool) run"
    and passed :: "'q \<Rightarrow> 's \<Rightarrow> 'l \<Rightarrow> bool"
    and wanted :: "'s \<Rightarrow> 'l \<Rightarrow> bool"
  assumes start_passed: "\<not> passed start s l"
    and again_passed: "probe s l q = Again q' \<Longrightarrow> passed q' s l \<Longrightarrow> passed q s l"
    and absent_passed: "probe s l q = Absent \<Longrightarrow> wanted s l \<Longrightarrow> passed q s l"
    and silent_passed: "publish p s = Inr (s', False) \<Longrightarrow> passed q s' l \<Longrightarrow> passed q s l"
    and silent_wanted: "publish p s = Inr (s', False) \<Longrightarrow> wanted s' l \<Longrightarrow> wanted s l"
begin

abbreviation ok :: "('s, 'w, 'l, 'q, 'o) wait_system \<Rightarrow> ('w, 'l, 'q, 'o) waiter \<Rightarrow> bool" where
  "ok \<equiv> waiter_ok passed wanted"

text \<open>A waiter that did not move keeps its promise when presence and cover do.\<close>

lemma ok_mono:
  assumes "ok sys w" "wt_pc w' = wt_pc w" "wt_local w' = wt_local w" "wt_verdict w' = wt_verdict w"
    "present sys w \<Longrightarrow> present sys' w'" "covered sys w \<Longrightarrow> covered sys' w'"
    "sys_shared sys' = sys_shared sys"
  shows "ok sys' w'"
  using assms by (cases "wt_pc w") (auto simp: waiter_ok_def)

lemma ok_publish:
  assumes "ok sys w" "publish p (sys_shared sys) = Inr (s, notifies)"
    "sys' = sys\<lparr>sys_shared := s, sys_notifiers := sys_notifiers sys @ (if notifies then [Draining] else [])\<rparr>"
  shows "ok sys' w"
proof (cases notifies)
  case True
  then have "present sys' w \<longleftrightarrow> present sys w" "covered sys' w \<longleftrightarrow> present sys w"
    by (auto simp: assms(3) present_def covered_def)
  with assms(1) show ?thesis by (cases "wt_pc w") (auto simp: waiter_ok_def)
next
  case False
  then have same: "present sys' w \<longleftrightarrow> present sys w" "covered sys' w \<longleftrightarrow> covered sys w" "sys_shared sys' = s"
    by (auto simp: assms(3) present_def covered_def)
  have "publish p (sys_shared sys) = Inr (s, False)" using assms(2) False by simp
  then have "passed q s l \<Longrightarrow> passed q (sys_shared sys) l" "wanted s l \<Longrightarrow> wanted (sys_shared sys) l" for q l
    using silent_passed silent_wanted by blast+
  with assms(1) same show ?thesis by (cases "wt_pc w") (auto simp: waiter_ok_def)
qed

lemma ok_take:
  assumes "ok sys w" "n < length (sys_notifiers sys)" "sys_notifiers sys ! n = Draining"
    "sys' = sys\<lparr>sys_registry := (sys_registry sys)\<lparr>wr_waiters := []\<rparr>,
       sys_notifiers := (sys_notifiers sys)[n := Waking (wr_waiters (sys_registry sys))]\<rparr>"
  shows "ok sys' w"
proof -
  have "flying (sys_notifiers sys') = flying (sys_notifiers sys) \<union> set (wr_waiters (sys_registry sys))"
    using flying_update [OF assms(2)] flying_nth [OF assms(2)] assms(3) by (simp add: assms(4))
  then have "present sys w \<Longrightarrow> present sys' w" "covered sys w \<Longrightarrow> covered sys' w"
    by (auto simp: present_def covered_def)
  with ok_mono [OF assms(1)] show ?thesis by (simp add: assms(4))
qed

lemma ok_wake:
  assumes "ok sys w" "n < length (sys_notifiers sys)" "sys_notifiers sys ! n = Waking (registered # rest)"
    "sys' = sys\<lparr>sys_waiters := ws, sys_notifiers := (sys_notifiers sys)[n := Waking rest]\<rparr>"
  shows "ok sys' (mark_woken registered w)"
proof -
  have "flying (sys_notifiers sys) \<subseteq> insert registered (flying (sys_notifiers sys'))"
    using flying_update [OF assms(2)] flying_nth [OF assms(2)] assms(3) by (auto simp: assms(4))
  moreover have "Draining \<in> set (sys_notifiers sys')" if dr: "Draining \<in> set (sys_notifiers sys)"
  proof -
    obtain m where "m < length (sys_notifiers sys)" "sys_notifiers sys ! m = Draining"
      using dr by (auto simp: in_set_conv_nth)
    moreover from this assms(3) have "m \<noteq> n" by auto
    ultimately show ?thesis by (auto simp: assms(4) in_set_conv_nth intro!: exI [of _ m])
  qed
  ultimately have "present sys w \<Longrightarrow> present sys' (mark_woken registered w)"
    "covered sys w \<Longrightarrow> covered sys' (mark_woken registered w)"
    by (auto simp: present_def covered_def assms(4))
  with ok_mono [OF assms(1)] show ?thesis by (simp add: assms(4))
qed

text \<open>The waiter that moves.\<close>

lemma ok_advance:
  assumes d: "distinct (identities (wr_waiters (sys_registry sys)))" and o: "ok sys w"
    and p: "poll_registered probe start (sys_shared sys) w (sys_registry sys) = Some (out, w', r)"
  shows "ok (sys\<lparr>sys_registry := r, sys_waiters := ws\<rparr>) w'"
proof (cases "wt_pc w")
  case (Probing waker q)
  with p o show ?thesis
    by (cases "probe (sys_shared sys) (wt_local w) q")
      (auto simp: poll_registered_def waiter_ok_def present_def covered_def ticket_def)
next
  case (Cloning waker)
  obtain displaced r1 where r: "register (wt_identity w) waker (sys_registry sys) = (displaced, r1)" by force
  with p Cloning have "r = r1" "w' = w\<lparr>wt_pc := Rechecking displaced start, wt_waker := Some waker, wt_woken := False\<rparr>"
    by (auto simp: poll_registered_def)
  moreover have "\<lparr>rw_identity = wt_identity w, rw_waker = waker\<rparr> \<in> set (wr_waiters r1)"
    using register_others(2) [of "wt_identity w" waker "sys_registry sys"] r by simp
  ultimately show ?thesis using start_passed by (simp add: waiter_ok_def present_def ticket_def)
next
  case (Rechecking displaced q)
  show ?thesis
  proof (cases "probe (sys_shared sys) (wt_local w) q")
    case (Again q')
    with p o Rechecking again_passed [OF Again] show ?thesis
      by (auto simp: poll_registered_def waiter_ok_def present_def covered_def ticket_def)
  next
    case Absent
    with p o Rechecking absent_passed [OF Absent] show ?thesis
      by (auto simp: poll_registered_def waiter_ok_def present_def covered_def ticket_def)
  next
    case (Found res l)
    with p Rechecking show ?thesis by (auto simp: poll_registered_def waiter_ok_def)
  qed
next
  case (Retiring displaced res)
  with p show ?thesis by (auto simp: poll_registered_def waiter_ok_def split: prod.splits)
qed (use p in \<open>simp_all add: poll_registered_def\<close>)

lemma ok_others:
  assumes "ok sys w" "others_in k r = others_in k (sys_registry sys)" "wt_identity w \<noteq> k"
  shows "ok (sys\<lparr>sys_registry := r, sys_waiters := ws\<rparr>) w"
proof -
  have "t \<in> set (wr_waiters r) \<longleftrightarrow> t \<in> set (wr_waiters (sys_registry sys))" if "t \<in> ticket w" for t
  proof -
    have "rw_identity t \<noteq> k" using that assms(3) by (auto simp: ticket_def)
    with assms(2) show ?thesis unfolding others_in_def by blast
  qed
  then show ?thesis by (intro ok_mono [OF assms(1)]) (auto simp: present_def covered_def)
qed

lemma ok_polling:
  assumes "ok sys w" "wt_pc w = Resting \<and> pc = Probing waker q \<or> wt_pc w = Cloning waker \<and> pc = Resting"
  shows "ok (sys\<lparr>sys_waiters := ws\<rparr>) (w\<lparr>wt_pc := pc\<rparr>)"
  using assms by (auto simp: waiter_ok_def present_def covered_def ticket_def)

lemma ok_step:
  assumes reg: "registry_ok sys" and o: "\<And>j. j < length (sys_waiters sys) \<Longrightarrow> ok sys (sys_waiters sys ! j)"
    and s: "wait_step probe start publish sys action = Inr (out, sys')" and j: "j < length (sys_waiters sys')"
  shows "ok sys' (sys_waiters sys' ! j)"
proof -
  have others: "ok (sys\<lparr>sys_registry := r, sys_waiters := ws\<rparr>) (sys_waiters sys ! j)"
    if "j < length (sys_waiters sys)" "i < length (sys_waiters sys)" "j \<noteq> i"
      "others_in (wt_identity (sys_waiters sys ! i)) r = others_in (wt_identity (sys_waiters sys ! i)) (sys_registry sys)"
    for i r ws
  proof (rule ok_others [OF o [OF that(1)] that(4)])
    show "wt_identity (sys_waiters sys ! j) \<noteq> wt_identity (sys_waiters sys ! i)"
      using registry_okD(1) [OF reg] that(1-3) by (simp add: distinct_conv_nth)
  qed
  have moved: "ok (sys\<lparr>sys_waiters := (sys_waiters sys)[i := w]\<rparr>) ((sys_waiters sys)[i := w] ! j)"
    if "j < length (sys_waiters sys)" "i < length (sys_waiters sys)"
      "ok (sys\<lparr>sys_waiters := (sys_waiters sys)[i := w]\<rparr>) w" for i w
    using that others [OF that(1,2), of "sys_registry sys" "(sys_waiters sys)[i := w]"] by (cases "j = i") simp_all
  show ?thesis
  proof (cases action)
    case (Publish p)
    then obtain sh notifies where p: "publish p (sys_shared sys) = Inr (sh, notifies)"
        "sys' = sys\<lparr>sys_shared := sh, sys_notifiers := sys_notifiers sys @ (if notifies then [Draining] else [])\<rparr>"
      using s unfolding Publish wait_step_Inr by blast
    from ok_publish [OF o p] j p(2) show ?thesis by simp
  next
    case (TakeAll n)
    with s have t: "n < length (sys_notifiers sys)" "sys_notifiers sys ! n = Draining"
        "sys' = sys\<lparr>sys_registry := (sys_registry sys)\<lparr>wr_waiters := []\<rparr>,
           sys_notifiers := (sys_notifiers sys)[n := Waking (wr_waiters (sys_registry sys))]\<rparr>"
      by (simp_all add: wait_step_Inr)
    from ok_take [OF o t] j t(3) show ?thesis by simp
  next
    case (WakeNext n)
    with s obtain registered rest where t: "n < length (sys_notifiers sys)"
        "sys_notifiers sys ! n = Waking (registered # rest)"
        "sys' = sys\<lparr>sys_waiters := map (mark_woken registered) (sys_waiters sys),
           sys_notifiers := (sys_notifiers sys)[n := Waking rest]\<rparr>"
      unfolding WakeNext wait_step_Inr by blast
    from ok_wake [OF o t] j t(3) show ?thesis by simp
  next
    case (BeginWait l)
    with s obtain identity r where b: "mint_identity (sys_registry sys) = Inr (identity, r)"
        "sys' = sys\<lparr>sys_registry := r, sys_waiters := sys_waiters sys @ [wait_new identity l]\<rparr>"
      unfolding BeginWait wait_step_Inr by blast
    then have r: "wr_waiters r = wr_waiters (sys_registry sys)"
      by (auto simp: mint_identity_def run_bind_eq_Inr)
    show ?thesis
    proof (cases "j = length (sys_waiters sys)")
      case False
      with j b have jl: "j < length (sys_waiters sys)" by simp
      have "ok sys' (sys_waiters sys ! j)"
        by (rule ok_mono [OF o [OF jl]]) (use r b in \<open>simp_all add: present_def covered_def\<close>)
      with jl b show ?thesis by (simp add: nth_append)
    qed (simp add: b waiter_ok_def wait_new_def)
  next
    case (BeginPoll i waker)
    with s have b: "i < length (sys_waiters sys)" "wt_pc (sys_waiters sys ! i) = Resting"
        "sys' = sys\<lparr>sys_waiters := (sys_waiters sys)[i := (sys_waiters sys ! i)\<lparr>wt_pc := Probing waker start\<rparr>]\<rparr>"
      by (simp_all add: wait_step_Inr)
    from j b show ?thesis
      by (simp del: length_list_update nth_list_update) (intro moved ok_polling [OF o], auto)
  next
    case (Advance i)
    with s obtain w r where i: "i < length (sys_waiters sys)"
        and p: "poll_registered probe start (sys_shared sys) (sys_waiters sys ! i) (sys_registry sys) = Some (out, w, r)"
        and sys': "sys' = sys\<lparr>sys_registry := r, sys_waiters := (sys_waiters sys)[i := w]\<rparr>"
      unfolding Advance wait_step_Inr by blast
    note d = registry_okD(3) [OF reg]
    have "others_in (wt_identity (sys_waiters sys ! i)) r =
        others_in (wt_identity (sys_waiters sys ! i)) (sys_registry sys)"
      using poll_registered_registry [OF p d] by auto
    with others [OF _ i] ok_advance [OF d o [OF i] p] j i show ?thesis
      by (cases "j = i") (simp_all add: sys')
  next
    case (UnwindClone i)
    with s obtain waker where b: "i < length (sys_waiters sys)" "wt_pc (sys_waiters sys ! i) = Cloning waker"
        "sys' = sys\<lparr>sys_waiters := (sys_waiters sys)[i := (sys_waiters sys ! i)\<lparr>wt_pc := Resting\<rparr>]\<rparr>"
      unfolding UnwindClone wait_step_Inr by blast
    from j b show ?thesis
      by (simp del: length_list_update nth_list_update) (intro moved ok_polling [OF o], auto)
  next
    case (DropWait i)
    let ?w = "sys_waiters sys ! i"
    have i: "i < length (sys_waiters sys)"
        and sys': "sys' = sys\<lparr>sys_registry := snd (registry_remove (wt_identity ?w) (sys_registry sys)),
          sys_waiters := (sys_waiters sys)[i := ?w\<lparr>wt_pc := Released\<rparr>]\<rparr>"
      using s by (simp_all add: DropWait wait_step_Inr)
    from others [OF _ i] remove_others [of "wt_identity ?w" "sys_registry sys"] j i show ?thesis
      by (cases "j = i") (simp_all add: sys' waiter_ok_def)
  qed
qed

lemma wait_run_ok:
  assumes "run_ops (wait_step probe start publish) (system_new s) actions = Inr (outs, sys)"
  shows "registry_ok sys \<and> (\<forall>j < length (sys_waiters sys). ok sys (sys_waiters sys ! j))"
  using assms
proof (induction actions arbitrary: outs sys rule: rev_induct)
  case Nil
  then show ?case by (auto simp: system_new_def registry_ok_def registry_new_def)
next
  case (snoc action actions)
  then obtain outs1 sys1 out where r: "run_ops (wait_step probe start publish) (system_new s) actions = Inr (outs1, sys1)"
      and st: "wait_step probe start publish sys1 action = Inr (out, sys)"
    by (auto simp: run_ops_snoc)
  note ih = snoc.IH [OF r]
  have "registry_ok sys" using registry_ok_step [OF _ st] ih by blast
  moreover have "ok sys (sys_waiters sys ! j)" if "j < length (sys_waiters sys)" for j
    by (rule ok_step [OF _ _ st that]) (use ih in blast)+
  ultimately show ?case by blast
qed

lemma parked_waiter_covered:
  assumes "run_ops (wait_step probe start publish) (system_new s) actions = Inr (outs, sys)"
    "i < length (sys_waiters sys)" "wt_pc (sys_waiters sys ! i) = Resting"
    "wt_verdict (sys_waiters sys ! i) = Some Pending" "wanted (sys_shared sys) (wt_local (sys_waiters sys ! i))"
  shows "covered sys (sys_waiters sys ! i)"
  using wait_run_ok [OF assms(1)] assms(2-) by (auto simp: waiter_ok_def)

end

end
