(* ===== verification/Latch.thy ===== *)
theory Latch imports Waiters begin

text \<open>
  The one-shot latch and the completion-gated latch of \<open>crates/shelterwood-runtime/src/latch.rs\<close>.
  A latch is a waited-for condition over the registry. The gated latch is modelled at the grain of
  its atomic operations: each compare-exchange and each load is a step of the calling thread.
\<close>

section \<open>The latch\<close>

text \<open>\<open>Latch::fire_silently\<close>: whether the caller performed the transition, and the new state.\<close>

definition fire_silently :: "bool \<Rightarrow> bool \<times> bool" where
  "fire_silently fired = (if fired then (False, fired) else (True, True))"

text \<open>
  \<open>fire\<close> notifies when it won the transition; \<open>notify\<close> alone may be called at any time. A caller of
  \<open>fire_silently\<close> that defers its \<open>notify\<close> is a notifier that has not drained the registry yet.
\<close>

datatype latch_call = LatchFire | LatchNotify

definition latch_publish :: "latch_call \<Rightarrow> bool \<Rightarrow> (bool \<times> bool) run" where
  "latch_publish call fired =
     (case call of
        LatchFire \<Rightarrow> (case fire_silently fired of (won, fired') \<Rightarrow> Inr (fired', won))
      | LatchNotify \<Rightarrow> Inr (fired, True))"

definition latch_probe :: "bool \<Rightarrow> unit \<Rightarrow> unit \<Rightarrow> (unit, unit, unit) probe_result" where
  "latch_probe fired l q = (if fired then Found () () else Absent)"

abbreviation latch_step ::
  "(bool, 'w, unit, unit, unit) wait_system \<Rightarrow> (latch_call, 'w, unit) wait_action \<Rightarrow>
   (('w, unit) wait_output \<times> (bool, 'w, unit, unit, unit) wait_system) run" where
  "latch_step \<equiv> wait_step latch_probe () latch_publish"

definition latch_run ::
  "(latch_call, 'w, unit) wait_action list \<Rightarrow>
   (('w, unit) wait_output list \<times> (bool, 'w, unit, unit, unit) wait_system) run" where
  "latch_run actions = run_ops latch_step (system_new False) actions"

interpretation latch_wait: wait_condition latch_probe "()" latch_publish "\<lambda>q s l. False" "\<lambda>s l. s"
  by unfold_locales
    (auto simp: latch_probe_def latch_publish_def fire_silently_def split: if_splits latch_call.splits)

section \<open>The completion-gated latch\<close>

definition COMPLETION_GATE_OPEN :: "8 word" where "COMPLETION_GATE_OPEN = 0"
definition COMPLETION_GATE_FIRED :: "8 word" where "COMPLETION_GATE_FIRED = 1"
definition COMPLETION_GATE_CLOSED :: "8 word" where "COMPLETION_GATE_CLOSED = 2"
definition COMPLETION_GATE_CLOSED_FIRED :: "8 word" where "COMPLETION_GATE_CLOSED_FIRED = 3"

record completion_gate =
  cg_state :: "8 word"
  cg_fired :: bool
  cg_completed :: bool

definition completion_gate_new :: completion_gate where
  "completion_gate_new = \<lparr>cg_state = COMPLETION_GATE_OPEN, cg_fired = False, cg_completed = False\<rparr>"

definition gate_is_fired :: "completion_gate \<Rightarrow> bool" where
  "gate_is_fired g \<longleftrightarrow> cg_state g = COMPLETION_GATE_FIRED \<or> cg_state g = COMPLETION_GATE_CLOSED_FIRED"

definition gate_is_completed :: "completion_gate \<Rightarrow> bool" where
  "gate_is_completed g \<longleftrightarrow> cg_state g = COMPLETION_GATE_CLOSED \<or> cg_state g = COMPLETION_GATE_CLOSED_FIRED"

text \<open>Where a call is: before its compare-exchange or load, past it, or returned.\<close>

datatype gate_pc =
    FireCas
  | FireLatch
  | FireDone bool
  | CompleteLoad
  | CompleteCas "8 word"
  | CompleteLatch bool
  | CompleteDone bool

definition gate_fire_cas :: "completion_gate \<Rightarrow> gate_pc \<times> completion_gate" where
  "gate_fire_cas g =
     (if cg_state g = COMPLETION_GATE_OPEN then (FireLatch, g\<lparr>cg_state := COMPLETION_GATE_FIRED\<rparr>)
      else (FireDone False, g))"

definition gate_fire_latch :: "completion_gate \<Rightarrow> (gate_pc \<times> completion_gate) run" where
  "gate_fire_latch g =
     (case fire_silently (cg_fired g) of
        (transitioned, fired) \<Rightarrow>
          if transitioned then Inr (FireDone True, g\<lparr>cg_fired := fired\<rparr>)
          else Inl (Panic ''assertion failed: transitioned''))"

definition gate_complete_load :: "completion_gate \<Rightarrow> gate_pc run" where
  "gate_complete_load g =
     (if cg_state g = COMPLETION_GATE_OPEN \<or> cg_state g = COMPLETION_GATE_FIRED then Inr (CompleteCas (cg_state g))
      else if cg_state g = COMPLETION_GATE_CLOSED then Inr (CompleteDone False)
      else if cg_state g = COMPLETION_GATE_CLOSED_FIRED then Inr (CompleteDone True)
      else Inl (Panic ''completion-gated latch state is valid''))"

definition gate_complete_cas :: "8 word \<Rightarrow> completion_gate \<Rightarrow> gate_pc \<times> completion_gate" where
  "gate_complete_cas current g =
     (let (successor, fired) =
            (if current = COMPLETION_GATE_OPEN then (COMPLETION_GATE_CLOSED, False)
             else (COMPLETION_GATE_CLOSED_FIRED, True))
      in if cg_state g = current then (CompleteLatch fired, g\<lparr>cg_state := successor\<rparr>)
         else (CompleteLoad, g))"

definition gate_complete_latch :: "bool \<Rightarrow> completion_gate \<Rightarrow> (gate_pc \<times> completion_gate) run" where
  "gate_complete_latch fired g =
     (case fire_silently (cg_completed g) of
        (transitioned, completed) \<Rightarrow>
          if transitioned then Inr (CompleteDone fired, g\<lparr>cg_completed := completed\<rparr>)
          else Inl (Panic ''assertion failed: transitioned''))"

definition gate_call_step :: "gate_pc \<Rightarrow> completion_gate \<Rightarrow> (gate_pc \<times> completion_gate) run" where
  "gate_call_step pc g =
     (case pc of
        FireCas \<Rightarrow> Inr (gate_fire_cas g)
      | FireLatch \<Rightarrow> gate_fire_latch g
      | CompleteLoad \<Rightarrow> run_bind (gate_complete_load g) (\<lambda>pc'. Inr (pc', g))
      | CompleteCas current \<Rightarrow> Inr (gate_complete_cas current g)
      | CompleteLatch fired \<Rightarrow> gate_complete_latch fired g
      | _ \<Rightarrow> not_enabled)"

text \<open>A schedule names the call that moves next.\<close>

definition completion_step ::
  "completion_gate \<times> gate_pc list \<Rightarrow> nat \<Rightarrow> (gate_pc \<times> completion_gate \<times> gate_pc list) run" where
  "completion_step st n =
     (case st of
        (g, calls) \<Rightarrow>
          if length calls \<le> n then not_enabled
          else run_bind (gate_call_step (calls ! n) g) (\<lambda>(pc, g'). Inr (pc, g', calls[n := pc])))"

definition completion_run :: "gate_pc list \<Rightarrow> nat list \<Rightarrow> (gate_pc list \<times> completion_gate \<times> gate_pc list) run" where
  "completion_run calls schedule = run_ops completion_step (completion_gate_new, calls) schedule"

section \<open>Linearization of the gate\<close>

lemmas gate_states =
  COMPLETION_GATE_OPEN_def COMPLETION_GATE_FIRED_def COMPLETION_GATE_CLOSED_def COMPLETION_GATE_CLOSED_FIRED_def

definition gate_won :: "gate_pc \<Rightarrow> bool" where
  "gate_won pc \<longleftrightarrow> pc = FireLatch \<or> pc = FireDone True"

definition call_ok :: "completion_gate \<Rightarrow> gate_pc \<Rightarrow> bool" where
  "call_ok g pc \<longleftrightarrow>
     (case pc of
        FireLatch \<Rightarrow> gate_is_fired g \<and> \<not> cg_fired g
      | FireDone won \<Rightarrow> won \<longrightarrow> gate_is_fired g
      | CompleteCas current \<Rightarrow> current = COMPLETION_GATE_OPEN \<or> current = COMPLETION_GATE_FIRED
      | CompleteLatch fired \<Rightarrow> gate_is_completed g \<and> \<not> cg_completed g \<and> fired = gate_is_fired g
      | CompleteDone fired \<Rightarrow> gate_is_completed g \<and> fired = gate_is_fired g
      | _ \<Rightarrow> True)"

definition gate_ok :: "completion_gate \<Rightarrow> bool" where
  "gate_ok g \<longleftrightarrow>
     cg_state g \<in> {COMPLETION_GATE_OPEN, COMPLETION_GATE_FIRED, COMPLETION_GATE_CLOSED, COMPLETION_GATE_CLOSED_FIRED} \<and>
     (cg_fired g \<longrightarrow> gate_is_fired g) \<and> (cg_completed g \<longrightarrow> gate_is_completed g)"

text \<open>The calls that exclude one another: the winner of the fire, and the call that closed the gate.\<close>

definition rivals :: "gate_pc \<Rightarrow> gate_pc \<Rightarrow> bool" where
  "rivals a b \<longleftrightarrow> gate_won a \<and> gate_won b \<or> (\<exists>v w. a = CompleteLatch v \<and> b = CompleteLatch w)"

definition gate_inv :: "completion_gate \<times> gate_pc list \<Rightarrow> bool" where
  "gate_inv st \<longleftrightarrow>
     (case st of
        (g, calls) \<Rightarrow>
          gate_ok g \<and> (\<forall>n < length calls. call_ok g (calls ! n)) \<and>
          (\<forall>m < length calls. \<forall>n < length calls. rivals (calls ! m) (calls ! n) \<longrightarrow> m = n) \<and>
          (gate_is_fired g \<longrightarrow> (\<exists>n < length calls. gate_won (calls ! n))))"

text \<open>What one step of a call does to the gate, to itself and to every other call.\<close>

lemma gate_call_step_spec:
  assumes ok: "gate_ok g" "call_ok g pc" and s: "gate_call_step pc g = Inr (pc', g')"
  shows "gate_ok g' \<and> call_ok g' pc' \<and> (gate_won pc \<longrightarrow> gate_won pc') \<and>
    (gate_is_fired g' \<longrightarrow> gate_is_fired g \<or> gate_won pc')"
  using assms
  by (cases pc)
    (auto simp: gate_call_step_def gate_fire_cas_def gate_fire_latch_def gate_complete_load_def gate_complete_cas_def
      gate_complete_latch_def fire_silently_def gate_ok_def call_ok_def gate_is_fired_def gate_is_completed_def
      gate_won_def gate_states not_enabled_def run_bind_eq_Inr Let_def split: if_splits)

lemma gate_call_step_other:
  assumes ok: "gate_ok g" "call_ok g pc" "call_ok g other" "\<not> rivals pc other" and s: "gate_call_step pc g = Inr (pc', g')"
  shows "call_ok g' other \<and> \<not> rivals pc' other"
  using assms
  by (cases pc; cases other)
    (auto simp: gate_call_step_def gate_fire_cas_def gate_fire_latch_def gate_complete_load_def gate_complete_cas_def
      gate_complete_latch_def fire_silently_def gate_ok_def call_ok_def gate_is_fired_def gate_is_completed_def rivals_def
      gate_won_def gate_states not_enabled_def run_bind_eq_Inr Let_def split: if_splits)

lemma gate_call_step_no_panic:
  assumes "gate_ok g" "call_ok g pc" "gate_call_step pc g = Inl e"
  shows "e = Panic ''not enabled''"
  using assms
  by (cases pc)
    (auto simp: gate_call_step_def gate_fire_latch_def gate_complete_load_def gate_complete_latch_def fire_silently_def
      gate_ok_def call_ok_def not_enabled_def run_bind_eq_Inl split: if_splits)

lemma rivals_sym: "rivals a b \<longleftrightarrow> rivals b a"
  by (auto simp: rivals_def)

lemma completion_step_inv:
  assumes inv: "gate_inv (g, calls)" and s: "completion_step (g, calls) n = Inr (out, g', calls')"
  shows "gate_inv (g', calls')"
proof -
  obtain pc where n: "n < length calls" and pc: "gate_call_step (calls ! n) g = Inr (pc, g')"
      and calls': "calls' = calls[n := pc]"
    using s by (auto simp: completion_step_def run_bind_eq_Inr not_enabled_def split: if_splits)
  have ok: "gate_ok g" "call_ok g (calls ! n)" using inv n by (auto simp: gate_inv_def)
  note own = gate_call_step_spec [OF ok pc]
  have other: "call_ok g' (calls ! m) \<and> \<not> rivals pc (calls ! m)" if "m < length calls" "m \<noteq> n" for m
  proof (rule gate_call_step_other [OF ok _ _ pc])
    show "call_ok g (calls ! m)" "\<not> rivals (calls ! n) (calls ! m)"
      using inv that n unfolding gate_inv_def by auto
  qed
  have "call_ok g' (calls' ! m)" if "m < length calls'" for m
    using that own other [of m] n by (cases "m = n") (simp_all add: calls')
  moreover have "a = b" if ab: "a < length calls'" "b < length calls'" "rivals (calls' ! a) (calls' ! b)" for a b
  proof (cases "a = n \<or> b = n")
    case True
    with ab other [of a] other [of b] n show ?thesis by (auto simp: calls' nth_list_update rivals_sym split: if_splits)
  next
    case False
    with ab inv show ?thesis by (auto simp: calls' gate_inv_def)
  qed
  moreover have "\<exists>m < length calls'. gate_won (calls' ! m)" if "gate_is_fired g'"
  proof (cases "gate_won pc")
    case True
    with n show ?thesis by (intro exI [of _ n]) (simp add: calls')
  next
    case False
    with own that have "gate_is_fired g" "\<not> gate_won (calls ! n)" by blast+
    then obtain m where "m < length calls" "gate_won (calls ! m)" "m \<noteq> n" using inv unfolding gate_inv_def by blast
    then show ?thesis by (intro exI [of _ m]) (simp add: calls')
  qed
  ultimately show ?thesis using own unfolding gate_inv_def by blast
qed

lemma completion_step_no_panic:
  assumes "gate_inv (g, calls)" "completion_step (g, calls) n = Inl e"
  shows "e = Panic ''not enabled''"
  using assms gate_call_step_no_panic [of g "calls ! n" e]
  by (auto simp: completion_step_def gate_inv_def run_bind_eq_Inl not_enabled_def not_le split: if_splits)

text \<open>Every call has a budget of steps that its own steps use up and that no other call's step extends.\<close>

definition gate_rank :: "completion_gate \<Rightarrow> nat" where
  "gate_rank g =
     (if cg_state g = COMPLETION_GATE_OPEN then 2 else if cg_state g = COMPLETION_GATE_FIRED then 1 else 0)"

definition gate_budget :: "completion_gate \<Rightarrow> gate_pc \<Rightarrow> nat" where
  "gate_budget g pc =
     (case pc of
        FireCas \<Rightarrow> 2
      | FireLatch \<Rightarrow> 1
      | CompleteLoad \<Rightarrow> 2 * gate_rank g + 1
      | CompleteCas current \<Rightarrow> if cg_state g = current then 2 * gate_rank g else 2 * gate_rank g + 2
      | CompleteLatch _ \<Rightarrow> 1
      | _ \<Rightarrow> 0)"

lemma gate_call_step_rank:
  assumes "gate_ok g" "call_ok g pc" "gate_call_step pc g = Inr (pc', g')"
  shows "gate_budget g' pc' < gate_budget g pc \<and> (cg_state g' = cg_state g \<or> gate_rank g' < gate_rank g)"
  using assms
  by (cases pc)
    (auto simp: gate_call_step_def gate_fire_cas_def gate_fire_latch_def gate_complete_load_def gate_complete_cas_def
      gate_complete_latch_def fire_silently_def gate_ok_def call_ok_def gate_budget_def gate_rank_def
      gate_states not_enabled_def run_bind_eq_Inr Let_def split: if_splits)

lemma gate_budget_other:
  assumes "cg_state g' = cg_state g \<or> gate_rank g' < gate_rank g"
  shows "gate_budget g' other \<le> gate_budget g other"
proof -
  have "gate_rank g' \<le> gate_rank g" using assms
  proof
    assume "cg_state g' = cg_state g"
    then show ?thesis by (simp add: gate_rank_def)
  qed simp
  with assms show ?thesis by (cases other) (auto simp: gate_budget_def)
qed

lemma gate_call_step_budget:
  assumes "gate_ok g" "call_ok g pc" "gate_call_step pc g = Inr (pc', g')"
  shows "gate_budget g' pc' < gate_budget g pc \<and> gate_budget g' other \<le> gate_budget g other"
  using gate_call_step_rank [OF assms] gate_budget_other by blast

lemma completion_run_budget:
  assumes "gate_inv (g, calls)" "run_ops completion_step (g, calls) schedule = Inr (outs, g', calls')"
  shows "gate_inv (g', calls') \<and> length calls' = length calls \<and>
    (\<forall>n < length calls. count_list schedule n + gate_budget g' (calls' ! n) \<le> gate_budget g (calls ! n))"
  using assms
proof (induction schedule arbitrary: g calls outs)
  case (Cons k schedule)
  obtain out g1 calls1 outs1 where s: "completion_step (g, calls) k = Inr (out, g1, calls1)"
      and r: "run_ops completion_step (g1, calls1) schedule = Inr (outs1, g', calls')"
    using Cons.prems(2) by (auto simp: run_bind_eq_Inr)
  obtain pc where k: "k < length calls" and pc: "gate_call_step (calls ! k) g = Inr (pc, g1)"
      and calls1: "calls1 = calls[k := pc]"
    using s by (auto simp: completion_step_def run_bind_eq_Inr not_enabled_def split: if_splits)
  have ok: "gate_ok g" "call_ok g (calls ! k)" using Cons.prems(1) k by (auto simp: gate_inv_def)
  note ih = Cons.IH [OF completion_step_inv [OF Cons.prems(1) s] r] and b = gate_call_step_budget [OF ok pc]
  have "count_list (k # schedule) n + gate_budget g' (calls' ! n) \<le> gate_budget g (calls ! n)" if n: "n < length calls" for n
    using ih n b [of "calls ! n"] k by (cases "n = k") (force simp: calls1)+
  with ih show ?case by (simp add: calls1)
qed simp

lemma completion_run_no_panic:
  assumes "gate_inv (g, calls)" "run_ops completion_step (g, calls) schedule = Inl e"
  shows "e = Panic ''not enabled''"
  using assms
proof (induction schedule arbitrary: g calls)
  case (Cons k schedule)
  show ?case
  proof (cases "completion_step (g, calls) k")
    case (Inl e')
    with Cons.prems completion_step_no_panic [OF Cons.prems(1) Inl] show ?thesis by simp
  next
    case (Inr x)
    then obtain out g1 calls1 where s: "completion_step (g, calls) k = Inr (out, g1, calls1)" by (cases x) auto
    with Cons.prems(2) have "run_ops completion_step (g1, calls1) schedule = Inl e" by (auto simp: run_bind_eq_Inl)
    with Cons.IH [OF completion_step_inv [OF Cons.prems(1) s]] show ?thesis .
  qed
qed simp

lemma gate_inv_new:
  "set calls \<subseteq> {FireCas, CompleteLoad} \<Longrightarrow> gate_inv (completion_gate_new, calls)"
  by (force simp: gate_inv_def gate_ok_def call_ok_def completion_gate_new_def rivals_def gate_won_def
      gate_is_fired_def gate_states dest: nth_mem)

section \<open>Properties\<close>

text \<open>
  C21: A completion-gated latch is linearized, whatever the interleaving of its atomic operations. No
  assertion fails and the state is always one of the four. At most one call fires it, and every
  completion reports whether one did, so a signal is never published after the gate closed and
  never lost when it came before. Every call ends by itself: a fire takes at most two steps and a
  completion at most five, however the others run.
\<close>

theorem completion_gate_linearized:
  assumes "set calls \<subseteq> {FireCas, CompleteLoad}"
  shows "case completion_run calls schedule of
      Inl e \<Rightarrow> e = Panic ''not enabled''
    | Inr (outs, g, calls') \<Rightarrow>
        (\<forall>m < length calls'. \<forall>n < length calls'. gate_won (calls' ! m) \<and> gate_won (calls' ! n) \<longrightarrow> m = n) \<and>
        (\<forall>n < length calls'. \<forall>fired. calls' ! n = CompleteDone fired \<longrightarrow>
           gate_is_completed g \<and> fired = (\<exists>m < length calls'. gate_won (calls' ! m))) \<and>
        (\<forall>n < length calls. count_list schedule n \<le> (if calls ! n = FireCas then 2 else 5))"
proof (cases "completion_run calls schedule")
  case (Inl e)
  with completion_run_no_panic [OF gate_inv_new [OF assms]] show ?thesis by (simp add: completion_run_def)
next
  case (Inr x)
  obtain outs g calls' where x: "x = (outs, g, calls')" by (cases x)
  with Inr have r: "run_ops completion_step (completion_gate_new, calls) schedule = Inr (outs, g, calls')"
    by (simp add: completion_run_def)
  note run = completion_run_budget [OF gate_inv_new [OF assms] r]
  have inv: "gate_inv (g, calls')" using run by blast
  have "m = n" if "m < length calls'" "n < length calls'" "gate_won (calls' ! m)" "gate_won (calls' ! n)" for m n
    using inv that unfolding gate_inv_def rivals_def by blast
  moreover have "gate_is_completed g \<and> fired = (\<exists>m < length calls'. gate_won (calls' ! m))"
    if n: "n < length calls'" "calls' ! n = CompleteDone fired" for n fired
  proof -
    have "call_ok g (CompleteDone fired)" using inv n unfolding gate_inv_def by fastforce
    moreover have "gate_is_fired g" if "m < length calls'" "gate_won (calls' ! m)" for m
    proof -
      have "call_ok g (calls' ! m)" using inv that(1) unfolding gate_inv_def by blast
      with that(2) show ?thesis by (auto simp: gate_won_def call_ok_def)
    qed
    ultimately show ?thesis using inv by (auto simp: call_ok_def gate_inv_def)
  qed
  moreover have "count_list schedule n \<le> (if calls ! n = FireCas then 2 else 5)" if n: "n < length calls" for n
  proof -
    have "calls ! n \<in> {FireCas, CompleteLoad}" using assms n nth_mem by blast
    then have "gate_budget completion_gate_new (calls ! n) \<le> (if calls ! n = FireCas then 2 else 5)"
      by (auto simp: gate_budget_def gate_rank_def completion_gate_new_def)
    moreover have "count_list schedule n \<le> gate_budget completion_gate_new (calls ! n)"
      using run n by (meson add_leD1)
    ultimately show ?thesis by (rule order_trans [rotated])
  qed
  ultimately show ?thesis unfolding Inr x by simp
qed

theorem completion_gate_linearized_witness:
  "set [FireCas, CompleteLoad, FireCas] \<subseteq> {FireCas, CompleteLoad} \<and>
   (\<exists>outs g. completion_run [FireCas, CompleteLoad, FireCas] [1, 0, 1, 0, 1, 1, 1, 2] =
      Inr (outs, g, [FireDone True, CompleteDone True, FireDone False]) \<and>
      (True = (\<exists>m < length [FireDone True, CompleteDone True, FireDone False].
         gate_won ([FireDone True, CompleteDone True, FireDone False] ! m))))"
proof -
  have sub: "set [FireCas, CompleteLoad, FireCas] \<subseteq> {FireCas, CompleteLoad}" by simp
  have "\<exists>outs g. completion_run [FireCas, CompleteLoad, FireCas] [1, 0, 1, 0, 1, 1, 1, 2] =
      Inr (outs, g, [FireDone True, CompleteDone True, FireDone False])"
    by (simp add: completion_run_def completion_step_def gate_call_step_def gate_fire_cas_def gate_fire_latch_def
        gate_complete_load_def gate_complete_cas_def gate_complete_latch_def fire_silently_def completion_gate_new_def
        gate_states not_enabled_def)
  then obtain outs g where run: "completion_run [FireCas, CompleteLoad, FireCas] [1, 0, 1, 0, 1, 1, 1, 2] =
      Inr (outs, g, [FireDone True, CompleteDone True, FireDone False])" by blast
  let ?calls = "[FireDone True, CompleteDone True, FireDone False]"
  have "\<forall>n < length ?calls. \<forall>fired. ?calls ! n = CompleteDone fired \<longrightarrow>
      gate_is_completed g \<and> fired = (\<exists>m < length ?calls. gate_won (?calls ! m))"
    using completion_gate_linearized [OF sub, of "[1, 0, 1, 0, 1, 1, 1, 2]"] unfolding run by simp
  from this [rule_format, of 1 True] have "True = (\<exists>m < length ?calls. gate_won (?calls ! m))" by simp
  with sub run show ?thesis by blast
qed

text \<open>
  C12: A latch never loses a wake-up. In every interleaving of waiters (polling, re-polling with another
  waker, unwinding, dropping) with callers of fire and notify, a waiter whose last poll returned
  pending while the latch is fired has had the waker of that poll woken since it registered it, or that
  waker is being woken, or is registered with a notifier that has yet to drain the registry. With no
  notification under way it has been woken; a wake of an earlier poll's waker does not count. The registry holds nothing of completed or dropped waiters.
\<close>

theorem latch_no_lost_wake:
  assumes "latch_run actions = Inr (outs, sys)"
  shows "(\<forall>w \<in> set (sys_waiters sys). sys_shared sys \<and> wt_pc w = Resting \<and> wt_verdict w = Some Pending \<longrightarrow>
      covered sys w \<and> (set (sys_notifiers sys) \<subseteq> {Waking []} \<longrightarrow> wt_woken w)) \<and>
    (\<forall>k \<in> registered_in (sys_registry sys). \<exists>w \<in> set (sys_waiters sys). wt_identity w = k \<and> may_register w)"
proof -
  note run = latch_wait.wait_run_ok [OF assms [unfolded latch_run_def]]
  have "covered sys w" if w: "w \<in> set (sys_waiters sys)" "sys_shared sys" "wt_pc w = Resting" "wt_verdict w = Some Pending" for w
  proof -
    obtain i where i: "i < length (sys_waiters sys)" "w = sys_waiters sys ! i" using w(1) by (auto simp: in_set_conv_nth)
    with latch_wait.parked_waiter_covered [OF assms [unfolded latch_run_def], of i] w(2-) show ?thesis by simp
  qed
  moreover have "wt_woken w" if "covered sys w" "set (sys_notifiers sys) \<subseteq> {Waking []}" for w
    using that by (rule covered_quiescent)
  moreover have "\<exists>w \<in> set (sys_waiters sys). wt_identity w = k \<and> may_register w"
    if "k \<in> registered_in (sys_registry sys)" for k
    using registry_okD(4) [OF _ that] run nth_mem by blast
  ultimately show ?thesis by blast
qed

definition latch_demo :: "(latch_call, nat, unit) wait_action list" where
  "latch_demo =
     [BeginWait (), BeginPoll 0 7, Advance 0, Advance 0, Advance 0, BeginPoll 0 8, Advance 0, Advance 0, Advance 0,
      Publish LatchFire, TakeAll 0, WakeNext 0]"

lemma latch_demo_run:
  "\<exists>outs sys. latch_run latch_demo = Inr (outs, sys) \<and> sys_shared sys \<and> sys_notifiers sys = [Waking []] \<and>
     map (\<lambda>w. (wt_pc w, wt_verdict w)) (sys_waiters sys) = [(Resting, Some Pending)]"
  by (simp add: latch_run_def latch_demo_def wait_step.simps system_new_def registry_new_def mint_identity_def
      atomic_counter_mint_def checked_add_u64_def wait_new_def poll_registered_def latch_probe_def register_def
      latch_publish_def fire_silently_def take_waiters_def mark_woken_def cong: run_bind_weak_cong)

theorem latch_no_lost_wake_witness:
  "\<exists>outs sys. latch_run latch_demo = Inr (outs, sys) \<and> sys_shared sys \<and> (\<forall>w \<in> set (sys_waiters sys). wt_woken w)"
proof -
  obtain outs sys where r: "latch_run latch_demo = Inr (outs, sys)" "sys_shared sys" "sys_notifiers sys = [Waking []]"
      "map (\<lambda>w. (wt_pc w, wt_verdict w)) (sys_waiters sys) = [(Resting, Some Pending)]"
    using latch_demo_run by auto
  from latch_no_lost_wake [OF r(1)] r(2-) have "\<forall>w \<in> set (sys_waiters sys). wt_woken w" by auto
  with r show ?thesis by blast
qed

end
