(* ===== verification/Watch.thy ===== *)
theory Watch imports Waiters begin

text \<open>
  The conflating watch channel of \<open>crates/shelterwood-runtime/src/watch.rs\<close>. The version and the endpoint
  counts are atomics read one at a time, so a wait probes in two steps: the version, then the senders.
\<close>

section \<open>The channel\<close>

record 'v watch_shared =
  wv_value :: 'v
  wv_version :: u64
  wv_senders :: u64
  wv_receivers :: u64

definition watch_new :: "'v \<Rightarrow> 'v watch_shared" where
  "watch_new initial = \<lparr>wv_value = initial, wv_version = 0, wv_senders = 1, wv_receivers = 1\<rparr>"

definition retain_endpoint :: "u64 \<Rightarrow> u64 run" where
  "retain_endpoint counter =
     (case checked_add_u64 counter 1 of None \<Rightarrow> Inl (Panic ''count exhausted'') | Some n \<Rightarrow> Inr n)"

text \<open>
  The calls on the shared state. A call needs the live endpoint its caller holds, a receiver for the
  last two and a sender for the others, and is not enabled without one. Only a pulse and the
  release of the last sender wake the waiters.
\<close>

datatype 'v watch_call =
    CloneSender
  | DropSender
  | PulseAll
  | ModifySilently "'v \<Rightarrow> 'v"
  | NewWatcher
  | CloneReceiver
  | DropReceiver

definition sender_drop :: "'v watch_shared \<Rightarrow> 'v watch_shared \<times> bool" where
  "sender_drop s = (s\<lparr>wv_senders := wv_senders s - 1\<rparr>, wv_senders s = 1)"

definition watch_pulse :: "'v watch_shared \<Rightarrow> 'v watch_shared" where
  "watch_pulse s = s\<lparr>wv_version := wv_version s + 1\<rparr>"

definition modify_silently :: "('v \<Rightarrow> 'v) \<Rightarrow> 'v watch_shared \<Rightarrow> 'v watch_shared" where
  "modify_silently update s = s\<lparr>wv_value := update (wv_value s)\<rparr>"

definition sender_clone :: "'v watch_shared \<Rightarrow> 'v watch_shared run" where
  "sender_clone s = run_bind (retain_endpoint (wv_senders s)) (\<lambda>n. Inr (s\<lparr>wv_senders := n\<rparr>))"

text \<open>The shared part of \<open>watcher\<close>; the version that the new receiver has seen is its own data.\<close>

definition watcher :: "'v watch_shared \<Rightarrow> 'v watch_shared run" where
  "watcher s = run_bind (retain_endpoint (wv_receivers s)) (\<lambda>n. Inr (s\<lparr>wv_receivers := n\<rparr>))"

definition receiver_clone :: "'v watch_shared \<Rightarrow> 'v watch_shared run" where
  "receiver_clone s = run_bind (retain_endpoint (wv_receivers s)) (\<lambda>n. Inr (s\<lparr>wv_receivers := n\<rparr>))"

definition receiver_drop :: "'v watch_shared \<Rightarrow> 'v watch_shared" where
  "receiver_drop s = s\<lparr>wv_receivers := wv_receivers s - 1\<rparr>"

definition quietly :: "'v watch_shared run \<Rightarrow> ('v watch_shared \<times> bool) run" where
  "quietly r = run_bind r (\<lambda>s. Inr (s, False))"

definition watch_publish :: "'v watch_call \<Rightarrow> 'v watch_shared \<Rightarrow> ('v watch_shared \<times> bool) run" where
  "watch_publish call s =
     (case call of
        CloneReceiver \<Rightarrow> if wv_receivers s = 0 then not_enabled else quietly (receiver_clone s)
      | DropReceiver \<Rightarrow> if wv_receivers s = 0 then not_enabled else Inr (receiver_drop s, False)
      | _ \<Rightarrow>
          if wv_senders s = 0 then not_enabled
          else
            (case call of
               CloneSender \<Rightarrow> quietly (sender_clone s)
             | DropSender \<Rightarrow> Inr (sender_drop s)
             | PulseAll \<Rightarrow> Inr (watch_pulse s, True)
             | ModifySilently update \<Rightarrow> Inr (modify_silently update s, False)
             | _ \<Rightarrow> quietly (watcher s)))"

section \<open>Waiting\<close>

datatype watch_wait_outcome = Changed | Closed

datatype watch_load = LoadVersion | LoadSenders

text \<open>The \<open>ready\<close> closure of \<open>WatchWait::poll\<close>, with the version the receiver has seen.\<close>

definition watch_probe ::
  "'v watch_shared \<Rightarrow> u64 \<Rightarrow> watch_load \<Rightarrow> (watch_load, u64, watch_wait_outcome) probe_result" where
  "watch_probe s seen load =
     (case load of
        LoadVersion \<Rightarrow> if wv_version s \<noteq> seen then Found Changed (wv_version s) else Again LoadSenders
      | LoadSenders \<Rightarrow> if wv_senders s = 0 then Found Closed seen else Absent)"

text \<open>What \<open>WatchChanged\<close> and \<open>WatchChangedOrClosed\<close> make of it.\<close>

fun watch_changed :: "watch_wait_outcome poll \<Rightarrow> unit poll" where
  "watch_changed (Ready Changed) = Ready ()"
| "watch_changed (Ready Closed) = Pending"
| "watch_changed Pending = Pending"

fun watch_changed_or_closed :: "watch_wait_outcome poll \<Rightarrow> bool poll" where
  "watch_changed_or_closed (Ready Changed) = Ready True"
| "watch_changed_or_closed (Ready Closed) = Ready False"
| "watch_changed_or_closed Pending = Pending"

definition watch_run ::
  "'v \<Rightarrow> ('v watch_call, 'w, u64) wait_action list \<Rightarrow>
   (('w, watch_wait_outcome) wait_output list \<times> ('v watch_shared, 'w, u64, watch_load, watch_wait_outcome) wait_system) run" where
  "watch_run initial actions =
     run_ops (wait_step watch_probe LoadVersion watch_publish) (system_new (watch_new initial)) actions"

definition watch_wanted :: "'v watch_shared \<Rightarrow> u64 \<Rightarrow> bool" where
  "watch_wanted s seen \<longleftrightarrow> wv_version s \<noteq> seen \<or> wv_senders s = 0"

definition watch_passed :: "watch_load \<Rightarrow> 'v watch_shared \<Rightarrow> u64 \<Rightarrow> bool" where
  "watch_passed load s seen \<longleftrightarrow> load = LoadSenders \<and> wv_version s \<noteq> seen"

lemmas watch_call_defs =
  sender_clone_def watcher_def receiver_clone_def receiver_drop_def quietly_def

lemma retain_endpoint_nonzero: "retain_endpoint c = Inr n \<Longrightarrow> n \<noteq> 0"
  by (auto simp: retain_endpoint_def split: option.splits dest!: checked_succ_u64_less)

text \<open>A call that does not notify leaves the version alone and some sender alive.\<close>

lemma watch_publish_silent:
  assumes "watch_publish call s = Inr (s', False)"
  shows "wv_version s' = wv_version s" "wv_senders s' = 0 \<longleftrightarrow> wv_senders s = 0"
  using assms retain_endpoint_nonzero
  by (auto simp: watch_publish_def sender_drop_def modify_silently_def watch_pulse_def watch_call_defs not_enabled_def run_bind_eq_Inr
      split: watch_call.splits if_splits)

interpretation watch_wait: wait_condition watch_probe LoadVersion watch_publish watch_passed watch_wanted
proof unfold_locales
  show "watch_wanted s' l \<Longrightarrow> watch_wanted s l" if "watch_publish p s = Inr (s', False)" for p s s' l
    using watch_publish_silent [OF that] by (simp add: watch_wanted_def)
  show "watch_passed q s' l \<Longrightarrow> watch_passed q s l" if "watch_publish p s = Inr (s', False)" for p s s' q l
    using watch_publish_silent [OF that] by (simp add: watch_passed_def)
qed (auto simp: watch_probe_def watch_passed_def watch_wanted_def split: watch_load.splits if_splits)

section \<open>Closure\<close>

text \<open>A wait that found the channel closed, or is about to say so.\<close>

definition saw_closed :: "('w, u64, watch_load, watch_wait_outcome) waiter \<Rightarrow> bool" where
  "saw_closed w \<longleftrightarrow> wt_verdict w = Some (Ready Closed) \<or> (\<exists>displaced. wt_pc w = Retiring displaced Closed)"

lemma watch_publish_closed:
  "watch_publish call s = Inr (s', notifies) \<Longrightarrow> wv_senders s = 0 \<Longrightarrow>
     wv_senders s' = 0 \<and> wv_version s' = wv_version s"
  by (auto simp: watch_publish_def watch_call_defs not_enabled_def run_bind_eq_Inr split: watch_call.splits if_splits)

lemma saw_closed_poll:
  assumes "poll_registered watch_probe LoadVersion s w r = Some (out, w', r')" "saw_closed w \<Longrightarrow> wv_senders s = 0"
    "saw_closed w'"
  shows "wv_senders s = 0"
  using assms
  by (auto simp: poll_registered_def saw_closed_def watch_probe_def split: wait_pc.splits watch_load.splits if_splits prod.splits)

lemma saw_closed_step:
  assumes inv: "\<forall>w \<in> set (sys_waiters sys). saw_closed w \<longrightarrow> wv_senders (sys_shared sys) = 0"
    and s: "wait_step watch_probe LoadVersion watch_publish sys action = Inr (out, sys')"
  shows "\<forall>w \<in> set (sys_waiters sys'). saw_closed w \<longrightarrow> wv_senders (sys_shared sys') = 0"
proof (cases action)
  case (Publish call)
  with s inv show ?thesis by (auto simp: wait_step_Inr dest: watch_publish_closed)
next
  case (TakeAll n)
  with s inv show ?thesis by (simp add: wait_step_Inr)
next
  case (WakeNext n)
  have "saw_closed (mark_woken k w) = saw_closed w" for k and w :: "('a, u64, watch_load, watch_wait_outcome) waiter"
    by (simp add: saw_closed_def)
  with s inv WakeNext show ?thesis by (auto simp: wait_step_Inr)
next
  case (BeginWait l)
  with s inv show ?thesis by (auto simp: wait_step_Inr saw_closed_def wait_new_def)
next
  case (Advance i)
  with s obtain w r where i: "i < length (sys_waiters sys)"
      and p: "poll_registered watch_probe LoadVersion (sys_shared sys) (sys_waiters sys ! i) (sys_registry sys) = Some (out, w, r)"
      and sys': "sys' = sys\<lparr>sys_registry := r, sys_waiters := (sys_waiters sys)[i := w]\<rparr>"
    unfolding Advance wait_step_Inr by blast
  have "saw_closed w \<Longrightarrow> wv_senders (sys_shared sys) = 0"
    by (rule saw_closed_poll [OF p]) (use inv i in auto)
  with inv show ?thesis by (auto simp: sys' dest!: set_update_subset_insert [THEN subsetD])
next
  case (BeginPoll i waker)
  with s inv show ?thesis
    by (auto simp: wait_step_Inr saw_closed_def dest!: set_update_subset_insert [THEN subsetD])
next
  case (UnwindClone i)
  with s inv show ?thesis
    by (auto simp: wait_step_Inr saw_closed_def dest!: set_update_subset_insert [THEN subsetD])
next
  case (DropWait i)
  with s inv show ?thesis
    by (auto simp: wait_step_Inr saw_closed_def dest!: set_update_subset_insert [THEN subsetD])
qed

lemma watch_run_closed:
  assumes "watch_run initial actions = Inr (outs, sys)"
  shows "\<forall>w \<in> set (sys_waiters sys). saw_closed w \<longrightarrow> wv_senders (sys_shared sys) = 0"
  using assms
proof (induction actions arbitrary: outs sys rule: rev_induct)
  case Nil
  then show ?case by (auto simp: watch_run_def system_new_def)
next
  case (snoc action actions)
  then obtain outs1 sys1 out where "watch_run initial actions = Inr (outs1, sys1)"
      and s: "wait_step watch_probe LoadVersion watch_publish sys1 action = Inr (out, sys)"
    by (auto simp: watch_run_def run_ops_snoc)
  with snoc.IH saw_closed_step [OF _ s] show ?case by blast
qed

section \<open>Properties\<close>

text \<open>
  C13: A watch channel never loses a wake-up. In every interleaving of the atomic operations of senders,
  receivers and waiters, a wait that returned pending, while a version its receiver has not seen is
  out or every sender is gone, has had the waker of its last poll woken since it registered it, or that
  waker is sure to be woken by a notification under way; with none under way it has been woken. A wait reports the channel closed
  only when every sender is gone.
\<close>

theorem watch_no_lost_wake:
  assumes "watch_run initial actions = Inr (outs, sys)"
  shows "\<forall>w \<in> set (sys_waiters sys).
    (wt_pc w = Resting \<and> wt_verdict w = Some Pending \<and>
       (wv_version (sys_shared sys) \<noteq> wt_local w \<or> wv_senders (sys_shared sys) = 0) \<longrightarrow>
       covered sys w \<and> (set (sys_notifiers sys) \<subseteq> {Waking []} \<longrightarrow> wt_woken w)) \<and>
    (wt_verdict w = Some (Ready Closed) \<longrightarrow> wv_senders (sys_shared sys) = 0)"
proof -
  have "covered sys w" if w: "w \<in> set (sys_waiters sys)" "wt_pc w = Resting" "wt_verdict w = Some Pending"
    "wv_version (sys_shared sys) \<noteq> wt_local w \<or> wv_senders (sys_shared sys) = 0" for w
  proof -
    obtain i where i: "i < length (sys_waiters sys)" "w = sys_waiters sys ! i" using w(1) by (auto simp: in_set_conv_nth)
    with watch_wait.parked_waiter_covered [OF assms [unfolded watch_run_def], of i] w(2-) show ?thesis
      by (simp add: watch_wanted_def)
  qed
  moreover have "wt_woken w" if "covered sys w" "set (sys_notifiers sys) \<subseteq> {Waking []}" for w
    using that by (rule covered_quiescent)
  ultimately show ?thesis using watch_run_closed [OF assms] by (auto simp: saw_closed_def)
qed

lemmas watch_eval =
  watch_run_def wait_step.simps system_new_def registry_new_def mint_identity_def
  atomic_counter_mint_def checked_add_u64_def wait_new_def poll_registered_def register_def
  take_waiters_def mark_woken_def registry_remove_def registered_wakers_def map_filter_simps
  watch_new_def watch_probe_def watch_publish_def sender_drop_def watch_pulse_def modify_silently_def watch_call_defs

definition watch_demo :: "(nat watch_call, nat, u64) wait_action list" where
  "watch_demo =
     [BeginWait 0, BeginPoll 0 7, Advance 0, Advance 0, Advance 0, Advance 0, Advance 0,
      BeginPoll 0 8, Advance 0, Advance 0, Advance 0, Advance 0, Advance 0,
      Publish (ModifySilently Suc), Publish PulseAll, TakeAll 0, WakeNext 0]"

lemma watch_demo_run:
  "\<exists>outs sys. watch_run 0 watch_demo = Inr (outs, sys) \<and> wv_version (sys_shared sys) = 1 \<and>
     sys_notifiers sys = [Waking []] \<and>
     map (\<lambda>w. (wt_pc w, wt_verdict w, wt_local w)) (sys_waiters sys) = [(Resting, Some Pending, 0)]"
  by (simp add: watch_eval watch_demo_def cong: run_bind_weak_cong)

theorem watch_no_lost_wake_witness:
  "\<exists>outs sys. watch_run 0 watch_demo = Inr (outs, sys) \<and> (\<forall>w \<in> set (sys_waiters sys). wt_woken w)"
proof -
  obtain outs sys where r: "watch_run 0 watch_demo = Inr (outs, sys)" "wv_version (sys_shared sys) = 1"
      "sys_notifiers sys = [Waking []]"
      "map (\<lambda>w. (wt_pc w, wt_verdict w, wt_local w)) (sys_waiters sys) = [(Resting, Some Pending, 0)]"
    using watch_demo_run by auto
  from watch_no_lost_wake [OF r(1)] r(2-) have "\<forall>w \<in> set (sys_waiters sys). wt_woken w" by auto
  with r show ?thesis by blast
qed

text \<open>
  The two loads of a probe are not one snapshot. If the last sender publishes and goes away between them,
  that poll reports the channel closed while the final version is unseen: \<open>changed_or_closed\<close> answers false,
  and \<open>changed\<close> answers pending with its registration removed and no notification left to come.
\<close>

lemma watch_close_hides_final_change:
  "\<exists>outs sys. watch_run (0 :: nat)
       [BeginWait 0, BeginPoll 0 (7 :: nat), Advance 0, Publish (ModifySilently Suc), Publish PulseAll, TakeAll 0,
        Publish DropSender, TakeAll 1, Advance 0, Advance 0] = Inr (outs, sys) \<and>
     last outs = Returned (Ready Closed) [] \<and>
     watch_changed_or_closed (Ready Closed) = Ready False \<and> watch_changed (Ready Closed) = Pending \<and>
     wv_version (sys_shared sys) \<noteq> wt_local (sys_waiters sys ! 0) \<and>
     wr_waiters (sys_registry sys) = [] \<and> sys_notifiers sys = [Waking [], Waking []]"
  by (simp add: watch_eval cong: run_bind_weak_cong)

end
