(* ===== verification/Spec2Isabelle.thy ===== *)
theory Spec2Isabelle
  imports Policy Stop_Ladder Readiness Restart Lifecycle Epochs Deadline_Queue Supervisor_Scope Send_Contract Latch Watch
begin

text \<open>
  A verification of Shelterwood, a supervision library for asynchronous Rust: the pure supervision core
  (\<open>crates/shelterwood-core/src\<close>), the actor mailbox with its send futures (\<open>crates/shelterwood/src/mailbox\<close>) and
  the wake-up primitives of the runtime crate (\<open>crates/shelterwood-runtime/src\<close>).

  \<^bold>\<open>The program.\<close> A scope supervises children. The driver of a scope feeds events to a pure reducer, which answers
  with effects: start a child, stop a child, finish the scope. When a child exits, its exit is classified, the
  restart policy and the restart intensity decide whether it comes back, and a backoff delay is armed in the
  deadline queue. A child is stopped by a ladder of escalating actions with deadlines of its own. Identities
  fence stale handles off: a membership names one declaration of a child, an incarnation one run of it. An actor
  owns a mailbox that outlives its incarnations; senders enter it through futures, possibly with a deadline.
  Latches, the watch channel and the waiter registry wake whoever waits for any of this.

  \<^bold>\<open>Conventions.\<close> A panic and a process abort are values of the sum type \<open>'a run\<close> (\<open>Inl\<close> the fault), so every
  \<open>expect\<close>, assertion and abort of the sources is a branch of the model. \<open>u64\<close> is \<open>64 word\<close>, and \<open>usize\<close> is
  taken to have 64 bits. Instants and durations are natural numbers of nanoseconds with the limits of the standard
  library written out. A \<open>BTreeMap\<close> is a strictly sorted association list. \<open>Arc\<close> identities are numbers. State is
  passed explicitly, one record per struct; a method with \<open>&mut self\<close> returns the new record. A critical section of
  a mutex is one step, an atomic operation is one step, and concurrency is the set of all sequences of steps
  (\<open>run_ops\<close>): a property of every trace is a property of every interleaving.

  \<^bold>\<open>Theories, in the order they build on one another.\<close>

  \<^item> \<open>Prelude\<close>: faults, sequences of operations, checked and saturating 64-bit arithmetic, the ordered map behind
    the locale \<open>ordered_map\<close>, interpreted on the association lists.
  \<^item> \<open>Identity\<close> (\<open>identity.rs\<close>; \<open>BuilderCore::reserve\<close> of \<open>plan.rs\<close>): counters, fences, memberships, incarnations, the
    identity map of a scope. \<open>identity_step\<close> is one process: any number of builders that reserve ids, become running
    scopes or are lowered into one, running scopes that mint, adopt and evict. No membership is minted twice, tokens
    of one lineage are ordered by age, and a re-added child is incomparable with its predecessor. The supersession
    orders are interpretations of the locale \<open>fencing_order\<close>.
  \<^item> \<open>Clock\<close> (\<open>deadline.rs\<close>): absolute deadlines, and the headroom below which a timer is never armed.
  \<^item> \<open>Exit\<close> (\<open>exit.rs\<close>): exits, stop reasons and the verdict over recorded, forced and joined evidence, which is
    proved to be the first of the strongest, with no evidence lost.
  \<^item> \<open>Float64\<close>, \<open>Policy\<close> (\<open>policy.rs\<close>, and the edge defaults of \<open>driver/spawn.rs\<close>): the doubles the backoff
    computes with, validated policies, delays and their bounds, the resolution of options against inherited
    defaults. \<open>powi\<close> of the platform is a parameter without hypotheses.
  \<^item> \<open>Stop_Ladder\<close>, \<open>Restart\<close>, \<open>Lifecycle\<close> (\<open>engine.rs\<close>), \<open>Readiness\<close>, \<open>Epochs\<close>, \<open>Deadline_Queue\<close> (\<open>engine/*.rs\<close>):
    the per-child escalation machine and its schedule, restart counting and the sliding intensity window, drain
    verdicts, the readiness gate, the epochs that own a scope's incarnations, and the lazily pruned heap of alarms,
    which refines a sorted list of alarms (locale \<open>alarm_queue\<close>) together with the collection loop of
    \<open>driver/incarnation.rs\<close>.
  \<^item> \<open>Supervisor\<close> (\<open>supervisor.rs\<close>): the whole reducer, every event and the settlement. \<open>Supervisor_Trace\<close> follows
    one registration through any trace (the relation \<open>child_edge\<close>) and the effects that occur once (locale
    \<open>latched_phase\<close>); \<open>Supervisor_Order\<close> has the invariants, which include the debug assertions of the source;
    \<open>Supervisor_Scope\<close> has the order of startup and stop, the progress of a drain and the fixed point of a settlement.
  \<^item> \<open>Waker\<close> (\<open>panic.rs\<close>, \<open>waker.rs\<close>): panic containment and deferred waker effects.
  \<^item> \<open>Mailbox\<close> (\<open>mailbox/cell.rs\<close> and \<open>cell/*.rs\<close>): the cell, one definition per transaction, with the effects that
    run after the unlock. \<open>Mailbox_Invariant\<close> has the invariant and the ledger of messages, \<open>Mailbox_Order\<close> the
    properties of traces: conservation of messages, the refinement of a FIFO line, bounds, exact withdrawal,
    and that a terminal mailbox answers every parked sender.
  \<^item> \<open>Send_Future\<close> (\<open>mailbox/futures.rs\<close>, \<open>mailbox/deadline.rs\<close>): the send future and its deadline wrapper over the
    cell, with the calls of the rest of the system interleaved wherever the future does not hold the lock.
    \<open>Send_Contract\<close>: a failed send returns its own message undelivered, and a send with a deadline decides in time,
    with the verdict of the last call on the cell.
  \<^item> \<open>Waiters\<close> (\<open>waiters.rs\<close>): the registry and the register-then-recheck poll, over any condition that satisfies the
    locale \<open>wait_condition\<close>; \<open>Latch\<close> and \<open>Watch\<close> (\<open>latch.rs\<close>, \<open>watch.rs\<close>) are its two interpretations. No
    wake-up is lost, where a wake-up counts only if it reaches the waker of the waiter's last poll; the
    completion-gated latch is linearized at the grain of its compare-exchange loops.

  \<^bold>\<open>Bounds and fuel.\<close> The recursion of every definition is structural or has a termination proof, with two
  exceptions. \<open>collect_due\<close> has one unit of fuel more than the queue has registrations, and each round but the last
  removes one; that the loop ends with this fuel is part of its correctness property. \<open>ladder_drive\<close> takes any fuel from
  four on: a ladder has five phases and never goes back.

  \<^bold>\<open>Idealizations.\<close> \<open>ladder_drive\<close> is an ideal driver, woken exactly at each deadline; the properties over
  \<open>ladder_run\<close> allow any sequence of advances, forces and acknowledgements. Memory orders weaker than sequential
  consistency are not represented: atomic operations interleave. The standard heap is its specification, a
  list in descending order. In \<open>Send_Contract\<close> the message of the observed future is sent by nobody else
  (\<open>quiet_env\<close>), which identifies messages by value, and the answer of the runtime's timer is an argument. Vtables
  of wakers, user destructors and panic hooks are parameters or payload values.

  \<^bold>\<open>Hypotheses.\<close> Each is stated in its theorem and named in the text before it. They are the reachability of a state
  (\<open>sup_run\<close>, \<open>mailbox_run\<close>, \<open>latch_run\<close> and so on return), well-formed policies (\<open>backoff_wf\<close>, which the validating
  constructors establish), clocks far enough below their limit, and the ownership of an operation by one future.
  Each property with a hypothesis has a witness beside it.

  \<^bold>\<open>Not modelled.\<close> The asynchronous shell of the driver apart from the parts named above, the observation cells, the
  typed builders apart from the reservation of ids, the raw and callback actor layers, the call futures, and the
  adapters of the async runtime (spawning, sleeping, channels, blocking pool, disposal, waker proxies). These move
  user closures and tasks through an async runtime that is not part of the repository. Formatting, debug inspection
  and test support are left out throughout.
\<close>

end
